(* ===== verification/C_Prelude.thy ===== *)
theory C_Prelude
  imports Main "HOL-Library.Word"
begin

text \<open>
  Shared vocabulary of the development: what the C programs of the repository can do beside
  returning a value.  Undefined behaviour of C (a null or dangling dereference, an access outside
  an array, a read of an indeterminate field, a signed overflow) is an error value, so a theorem
  that a program part returns \<open>Inr\<close> says in particular that the execution is free of it.
  A loop that may run forever returns an option, \<open>None\<close> standing for an execution that does
  not return.  Arrays are lists with checked reads and writes; bytes and unsigned integers are
  words.  The target machine is the one the sources are written for: \<open>int\<close> has 32 bits,
  pointers have 8 bytes, \<open>char\<close> is signed.
\<close>

unbundle bit_operations_syntax

named_theorems c_arith \<comment> \<open>facts about C integers and bytes\<close>
named_theorems c_array \<comment> \<open>evaluation of checked array accesses\<close>

section \<open>Errors and sequencing\<close>

datatype c_err =
    NullDeref      \<comment> \<open>dereference of a null pointer\<close>
  | BadPointer     \<comment> \<open>dereference of an address that is not allocated\<close>
  | OutOfBounds    \<comment> \<open>access outside an array or a malloc block\<close>
  | Uninit         \<comment> \<open>use of an indeterminate value\<close>
  | IntOverflow    \<comment> \<open>signed overflow\<close>
  | MutexMisuse    \<comment> \<open>unlock of a mutex of another thread or of none, destruction of a locked one\<close>
  | DataRace       \<comment> \<open>conflicting accesses of two threads that nothing orders\<close>

type_synonym 'a cres = "c_err + 'a"

definition bindE :: "'e + 'a \<Rightarrow> ('a \<Rightarrow> 'e + 'b) \<Rightarrow> 'e + 'b" where
  "bindE m f = (case m of Inl e \<Rightarrow> Inl e | Inr x \<Rightarrow> f x)"

definition bindO :: "('e + 'a) option \<Rightarrow> ('a \<Rightarrow> ('e + 'b) option) \<Rightarrow> ('e + 'b) option" where
  "bindO m f = (case m of None \<Rightarrow> None | Some (Inl e) \<Rightarrow> Some (Inl e) | Some (Inr x) \<Rightarrow> f x)"

lemma bindE_Inl [simp]: "bindE (Inl e) f = Inl e"
  by (simp add: bindE_def)

lemma bindE_Inr [simp]: "bindE (Inr x) f = f x"
  by (simp add: bindE_def)

lemma bindE_eq_Inr: "bindE m f = Inr y \<longleftrightarrow> (\<exists>x. m = Inr x \<and> f x = Inr y)"
  by (cases m) simp_all

lemma bindE_eq_Inl: "bindE m f = Inl e \<longleftrightarrow> m = Inl e \<or> (\<exists>x. m = Inr x \<and> f x = Inl e)"
  by (cases m) simp_all

lemma bindE_InrE [elim]:
  assumes "bindE m f = Inr y"
  obtains x where "m = Inr x" and "f x = Inr y"
  using assms by (auto simp: bindE_eq_Inr)

lemma bindE_cong [fundef_cong]:
  "m = m' \<Longrightarrow> (\<And>x. m' = Inr x \<Longrightarrow> f x = f' x) \<Longrightarrow> bindE m f = bindE m' f'"
  by (cases m) auto

lemma bindE_assoc: "bindE (bindE m f) g = bindE m (\<lambda>x. bindE (f x) g)"
  by (cases m) simp_all

lemma bindO_simps [simp]:
  "bindO None f = None"
  "bindO (Some (Inl e)) f = Some (Inl e)"
  "bindO (Some (Inr x)) f = f x"
  by (simp_all add: bindO_def)

lemma bindO_eq_Some_Inr:
  "bindO m f = Some (Inr y) \<longleftrightarrow> (\<exists>x. m = Some (Inr x) \<and> f x = Some (Inr y))"
  by (auto simp: bindO_def split: option.splits sum.splits)

text \<open>Addition of the C type \<open>int\<close>.\<close>

definition add32 :: "int \<Rightarrow> int \<Rightarrow> int cres" where
  "add32 a b = (if - (2 ^ 31) \<le> a + b \<and> a + b < 2 ^ 31 then Inr (a + b) else Inl IntOverflow)"

section \<open>Arrays with checked accesses\<close>

type_synonym byte = "8 word"

definition rd :: "'a list \<Rightarrow> nat \<Rightarrow> 'a cres" where
  "rd a i = (if i < length a then Inr (a ! i) else Inl OutOfBounds)"

definition wr :: "'a list \<Rightarrow> nat \<Rightarrow> 'a \<Rightarrow> 'a list cres" where
  "wr a i v = (if i < length a then Inr (a[i := v]) else Inl OutOfBounds)"

text \<open>A block write, as \<open>memcpy\<close>, \<open>memset\<close>, \<open>strncpy\<close> and \<open>recvfrom\<close> do it.\<close>

definition wr_block :: "'a list \<Rightarrow> nat \<Rightarrow> 'a list \<Rightarrow> 'a list cres" where
  "wr_block a i vs =
     (if i + length vs \<le> length a then Inr (take i a @ vs @ drop (i + length vs) a)
      else Inl OutOfBounds)"

definition rd_block :: "'a list \<Rightarrow> nat \<Rightarrow> nat \<Rightarrow> 'a list cres" where
  "rd_block a i n = (if i + n \<le> length a then Inr (take n (drop i a)) else Inl OutOfBounds)"

text \<open>\<open>strlen\<close> of the C string that starts at index \<open>i\<close> of an array.\<close>

definition strlen_at :: "byte list \<Rightarrow> nat \<Rightarrow> nat cres" where
  "strlen_at a i =
     (let s = takeWhile (\<lambda>b. b \<noteq> 0) (drop i a)
      in if i + length s < length a then Inr (length s) else Inl OutOfBounds)"

text \<open>The bytes of that string, without the terminator.\<close>

definition cstring_at :: "byte list \<Rightarrow> nat \<Rightarrow> byte list cres" where
  "cstring_at a i = bindE (strlen_at a i) (\<lambda>n. Inr (take n (drop i a)))"

lemma rd_in [c_array]: "i < length a \<Longrightarrow> rd a i = Inr (a ! i)"
  by (simp add: rd_def)

lemma rd_out [c_array]: "length a \<le> i \<Longrightarrow> rd a i = Inl OutOfBounds"
  by (simp add: rd_def)

lemma rd_eq_Inr: "rd a i = Inr x \<longleftrightarrow> i < length a \<and> x = a ! i"
  by (auto simp: rd_def)

lemma wr_in [c_array]: "i < length a \<Longrightarrow> wr a i v = Inr (a[i := v])"
  by (simp add: wr_def)

lemma wr_out [c_array]: "length a \<le> i \<Longrightarrow> wr a i v = Inl OutOfBounds"
  by (simp add: wr_def)

lemma wr_eq_Inr: "wr a i v = Inr b \<longleftrightarrow> i < length a \<and> b = a[i := v]"
  by (auto simp: wr_def)

lemma rd_at_length [simp]: "rd (xs @ y # ys) (length xs) = Inr y"
  by (simp add: rd_def)

lemma wr_at_length [simp]: "wr (xs @ y # ys) (length xs) v = Inr (xs @ v # ys)"
  by (simp add: wr_def)

lemma wr_block_in [c_array]:
  "i + length vs \<le> length a \<Longrightarrow> wr_block a i vs = Inr (take i a @ vs @ drop (i + length vs) a)"
  by (simp add: wr_block_def)

lemma wr_block_at_length [simp]:
  "length ys = length vs \<Longrightarrow> wr_block (xs @ ys @ zs) (length xs) vs = Inr (xs @ vs @ zs)"
  by (simp add: wr_block_def)

lemma wr_block_0 [simp]:
  "length ys = length vs \<Longrightarrow> wr_block (ys @ zs) 0 vs = Inr (vs @ zs)"
  by (simp add: wr_block_def)

lemma wr_block_length: "wr_block a i vs = Inr b \<Longrightarrow> length b = length a"
  by (auto simp: wr_block_def split: if_splits)

lemma rd_block_at_length [simp]:
  "n = length ys \<Longrightarrow> rd_block (xs @ ys @ zs) (length xs) n = Inr ys"
  by (simp add: rd_block_def)

subsection \<open>Strings\<close>

lemma takeWhile_nonzero_string [simp]:
  "0 \<notin> set s \<Longrightarrow> takeWhile (\<lambda>b. b \<noteq> (0 :: byte)) (s @ 0 # r) = s"
  by (induction s) auto

lemma strlen_at_0 [simp]: "0 \<notin> set s \<Longrightarrow> strlen_at (s @ 0 # r) 0 = Inr (length s)"
  by (simp add: strlen_at_def)

lemma strlen_at_length [simp]:
  "0 \<notin> set s \<Longrightarrow> strlen_at (p @ s @ 0 # r) (length p) = Inr (length s)"
  by (simp add: strlen_at_def)

lemma cstring_at_0 [simp]: "0 \<notin> set s \<Longrightarrow> cstring_at (s @ 0 # r) 0 = Inr s"
  by (simp add: cstring_at_def)

lemma cstring_at_length [simp]:
  "0 \<notin> set s \<Longrightarrow> cstring_at (p @ s @ 0 # r) (length p) = Inr s"
  by (simp add: cstring_at_def)

lemma strlen_at_unterminated: "0 \<notin> set (drop i a) \<Longrightarrow> strlen_at a i = Inl OutOfBounds"
proof -
  assume "0 \<notin> set (drop i a)"
  then have "takeWhile (\<lambda>b. b \<noteq> 0) (drop i a) = drop i a"
    by (auto simp: takeWhile_eq_all_conv)
  then have "length (takeWhile (\<lambda>b. b \<noteq> 0) (drop i a)) = length a - i"
    by (simp only: length_drop)
  then show ?thesis by (simp add: strlen_at_def Let_def)
qed

text \<open>The counters of a loop from \<open>j\<close> to \<open>n\<close>, one round unfolded.\<close>

lemma upt_round:
  assumes "j < n"
  shows "[c..<c + (n - j)] = c # [c + 1..<c + 1 + (n - (j + 1))]"
proof -
  have "c < c + (n - j)" and "c + 1 + (n - (j + 1)) = c + (n - j)" using assms by arith+
  then show ?thesis by (simp only: upt_conv_Cons Suc_eq_plus1)
qed

section \<open>Byte order\<close>

datatype endian = LittleE | BigE

text \<open>A 16-bit load of two adjacent bytes, and the store of a 16-bit value.\<close>

definition be16 :: "byte \<Rightarrow> byte \<Rightarrow> 16 word" where
  "be16 hi lo = word_cat hi lo"

definition load16 :: "endian \<Rightarrow> byte \<Rightarrow> byte \<Rightarrow> 16 word" where
  "load16 en b0 b1 = (case en of LittleE \<Rightarrow> be16 b1 b0 | BigE \<Rightarrow> be16 b0 b1)"

definition hi8 :: "16 word \<Rightarrow> byte" where
  "hi8 w = ucast (drop_bit 8 w)"

definition lo8 :: "16 word \<Rightarrow> byte" where
  "lo8 w = ucast w"

definition store16 :: "endian \<Rightarrow> 16 word \<Rightarrow> byte list" where
  "store16 en w = (case en of LittleE \<Rightarrow> [lo8 w, hi8 w] | BigE \<Rightarrow> [hi8 w, lo8 w])"

text \<open>\<open>ntohs\<close> and \<open>htons\<close>: the same byte swap on a little-endian host, nothing on a
  big-endian one.\<close>

definition bswap16 :: "16 word \<Rightarrow> 16 word" where
  "bswap16 w = be16 (lo8 w) (hi8 w)"

definition ntohs :: "endian \<Rightarrow> 16 word \<Rightarrow> 16 word" where
  "ntohs en w = (case en of LittleE \<Rightarrow> bswap16 w | BigE \<Rightarrow> w)"

abbreviation htons :: "endian \<Rightarrow> 16 word \<Rightarrow> 16 word" where
  "htons \<equiv> ntohs"

lemma hi8_be16 [simp]: "hi8 (be16 h l) = h"
  by (auto simp: hi8_def be16_def bit_eq_iff bit_simps)

lemma lo8_be16 [simp]: "lo8 (be16 h l) = l"
  by (auto simp: lo8_def be16_def bit_eq_iff bit_simps)

lemma be16_hi8_lo8 [simp]: "be16 (hi8 w) (lo8 w) = w"
  by (auto simp: hi8_def lo8_def be16_def bit_eq_iff bit_simps)

lemma bswap16_be16 [simp]: "bswap16 (be16 h l) = be16 l h"
  by (simp add: bswap16_def)

lemma bswap16_bswap16 [simp]: "bswap16 (bswap16 w) = w"
  by (simp add: bswap16_def)

lemma be16_inject [simp]: "be16 a b = be16 c d \<longleftrightarrow> a = c \<and> b = d"
  by (metis hi8_be16 lo8_be16)

lemma ntohs_load16 [simp]: "ntohs en (load16 en b0 b1) = be16 b0 b1"
  by (cases en) (simp_all add: ntohs_def load16_def)

lemma store16_htons: "store16 en (htons en w) = [hi8 w, lo8 w]"
  by (cases en) (simp_all add: store16_def ntohs_def bswap16_def)

lemma length_store16 [simp]: "length (store16 en w) = 2"
  by (cases en) (simp_all add: store16_def)

lemma unat_be16 [c_arith]: "unat (be16 h l) = unat h * 256 + unat l"
proof -
  have "be16 h l = of_nat (unat h * 256 + unat l)"
    by (simp add: be16_def word_cat_eq push_bit_eq_mult)
  moreover have "unat h * 256 + unat l < 2 ^ LENGTH(16)"
    using unsigned_less [of h, where ?'a = nat] unsigned_less [of l, where ?'a = nat] by simp
  ultimately show ?thesis by (simp only: unat_of_nat mod_less)
qed

text \<open>32-bit values in memory, as four bytes in address order.\<close>

definition be32 :: "byte \<Rightarrow> byte \<Rightarrow> byte \<Rightarrow> byte \<Rightarrow> 32 word" where
  "be32 a b c d = word_cat (be16 a b) (be16 c d)"

definition be32_bytes :: "32 word \<Rightarrow> byte list" where
  "be32_bytes w = (let h = ucast (drop_bit 16 w) :: 16 word; l = ucast w :: 16 word
     in [hi8 h, lo8 h, hi8 l, lo8 l])"

definition load32 :: "endian \<Rightarrow> byte \<Rightarrow> byte \<Rightarrow> byte \<Rightarrow> byte \<Rightarrow> 32 word" where
  "load32 en b0 b1 b2 b3 = (case en of LittleE \<Rightarrow> be32 b3 b2 b1 b0 | BigE \<Rightarrow> be32 b0 b1 b2 b3)"

definition store32 :: "endian \<Rightarrow> 32 word \<Rightarrow> byte list" where
  "store32 en w = (case en of LittleE \<Rightarrow> rev (be32_bytes w) | BigE \<Rightarrow> be32_bytes w)"

definition ntohl :: "endian \<Rightarrow> 32 word \<Rightarrow> 32 word" where
  "ntohl en w = (case en of
      LittleE \<Rightarrow> (case be32_bytes w of [a, b, c, d] \<Rightarrow> be32 d c b a | _ \<Rightarrow> w)
    | BigE \<Rightarrow> w)"

lemma be32_bytes_be32 [simp]: "be32_bytes (be32 a b c d) = [a, b, c, d]"
proof -
  have "(ucast (drop_bit 16 (be32 a b c d)) :: 16 word) = be16 a b"
    by (auto simp: be32_def bit_eq_iff bit_simps)
  moreover have "(ucast (be32 a b c d) :: 16 word) = be16 c d"
    by (auto simp: be32_def bit_eq_iff bit_simps)
  ultimately show ?thesis by (simp add: be32_bytes_def)
qed

lemma store32_load32 [simp]: "store32 en (load32 en a b c d) = [a, b, c, d]"
  by (cases en) (simp_all add: store32_def load32_def)

lemma store32_ntohl_load32:
  "store32 LittleE (ntohl LittleE (load32 LittleE a b c d)) = [d, c, b, a]"
  by (simp add: store32_def ntohl_def load32_def)

end
