(* ===== verification/Dns_Names.thy ===== *)
theory Dns_Names
  imports C_Prelude
begin

text \<open>
  The name handling of the DNS server (\<open>sample_dns_server/src/dns_utils/utils.c\<close>): the
  bounded copy of a QNAME (\<open>verify_and_copy_qname\<close>), the in-place conversion of a label
  sequence \<open>3www6google3com\<close> to \<open>www.google.com\<close> (the loop that
  \<open>read_and_print_dns_header\<close> and \<open>uncompress_name\<close> share) and the opposite
  conversion \<open>ChangetoDnsNameFormat\<close>.  A C function that returns 0 or -1 is modelled with
  an option inside the result: \<open>Inr None\<close> is the return of -1, \<open>Inr (Some x)\<close> the return
  of 0 with the updated memory \<open>x\<close>.  The specification side is a list of labels with its
  wire form and its dotted form.
\<close>

section \<open>The code\<close>

definition MAX_NAME_LEN :: nat where "MAX_NAME_LEN = 256"

text \<open>
  The copy loop.  \<open>src\<close> is read from index \<open>p\<close> (the moving pointer), \<open>dst\<close> is
  written at index \<open>i\<close>; the length check comes after the write.
\<close>

function copy_qname_loop ::
    "byte list \<Rightarrow> nat \<Rightarrow> byte list \<Rightarrow> nat \<Rightarrow> 32 word \<Rightarrow> byte list option cres" where
  "copy_qname_loop src p dst i buflen =
     bindE (rd src p) (\<lambda>c.
       if c \<noteq> 0 then
         bindE (wr dst i c) (\<lambda>dst'.
           if unat buflen < i then Inr None
           else copy_qname_loop src (p + 1) dst' (i + 1) buflen)
       else bindE (wr dst i 0) (\<lambda>dst'. Inr (Some dst')))"
  by pat_completeness auto
termination
  by (relation "measure (\<lambda>(src, p, dst, i, buflen). length src - p)") (auto simp: rd_eq_Inr)

declare copy_qname_loop.simps [simp del]

text \<open>The pointers may be null; \<open>qname_cpy\<close> is an array and an index into it.\<close>

definition verify_and_copy_qname ::
    "(byte list \<times> nat) option \<Rightarrow> byte list option \<Rightarrow> 32 word \<Rightarrow> byte list option cres" where
  "verify_and_copy_qname qname_cpy domain_name buflen =
     (case (qname_cpy, domain_name) of
        (Some (src, p), Some dst) \<Rightarrow> copy_qname_loop src p dst 0 buflen
      | _ \<Rightarrow> Inr None)"

text \<open>
  The conversion to dotted form, in place: the inner loop moves \<open>k\<close> bytes one position to
  the left, the outer loop reads a length byte, moves its label and writes a dot over the last
  byte.  \<open>cv\<close> is the conversion of the array's element type to \<open>int\<close>: \<open>sint\<close> for
  \<open>char\<close>, \<open>uint\<close> for \<open>unsigned char\<close>.
\<close>

fun shift_label :: "byte list \<Rightarrow> nat \<Rightarrow> nat \<Rightarrow> (byte list \<times> nat) cres" where
  "shift_label a i 0 = Inr (a, i)"
| "shift_label a i (Suc k) =
     bindE (rd a (i + 1)) (\<lambda>c. bindE (wr a i c) (\<lambda>a'. shift_label a' (i + 1) k))"

lemma shift_label_length:
  "shift_label a i k = Inr (a', i') \<Longrightarrow> length a' = length a \<and> i' = i + k"
  by (induction a i k rule: shift_label.induct) (auto simp: wr_eq_Inr bindE_eq_Inr)

function dot_loop :: "(byte \<Rightarrow> int) \<Rightarrow> byte list \<Rightarrow> nat \<Rightarrow> (byte list \<times> nat) cres" where
  "dot_loop cv a i =
     bindE (strlen_at a 0) (\<lambda>n.
       if i < n then
         bindE (rd a i) (\<lambda>p.
           bindE (shift_label a i (nat (cv p))) (\<lambda>(a1, i1).
             bindE (wr a1 i1 46) (\<lambda>a2. dot_loop cv a2 (i1 + 1))))
       else Inr (a, i))"
  by pat_completeness auto
termination
  by (relation "measure (\<lambda>(cv, a, i). length a - i)")
    (auto simp: wr_eq_Inr dest: shift_label_length)

declare dot_loop.simps [simp del]

text \<open>The loop and the statement \<open>name[i-1] = '\0'\<close> after it; index -1 is outside the array.\<close>

definition to_dotted :: "(byte \<Rightarrow> int) \<Rightarrow> byte list \<Rightarrow> byte list cres" where
  "to_dotted cv a =
     bindE (dot_loop cv a 0) (\<lambda>(a', i). if i = 0 then Inl OutOfBounds else wr a' (i - 1) 0)"

text \<open>
  \<open>ChangetoDnsNameFormat\<close>: \<open>strcat(host, ".")\<close>, then one length byte and the label for
  every dot.  \<open>d\<close> is the index of the moving pointer \<open>dns\<close> in its buffer.
\<close>

definition strcat_dot :: "byte list \<Rightarrow> byte list cres" where
  "strcat_dot host =
     bindE (strlen_at host 0) (\<lambda>n. bindE (wr host n 46) (\<lambda>host'. wr host' (n + 1) 0))"

function copy_label ::
    "byte list \<Rightarrow> nat \<Rightarrow> byte list \<Rightarrow> nat \<Rightarrow> nat \<Rightarrow> (byte list \<times> nat \<times> nat) cres" where
  "copy_label buf d host lock i =
     (if lock < i then
        bindE (rd host lock) (\<lambda>c.
          bindE (wr buf d c) (\<lambda>buf'. copy_label buf' (d + 1) host (lock + 1) i))
      else Inr (buf, d, lock))"
  by pat_completeness auto
termination
  by (relation "measure (\<lambda>(buf, d, host, lock, i). i - lock)") auto

declare copy_label.simps [simp del]

lemma strlen_at_less: "strlen_at a i = Inr n \<Longrightarrow> i + n < length a"
  by (auto simp: strlen_at_def Let_def split: if_splits)

function dns_format_loop ::
    "byte list \<Rightarrow> nat \<Rightarrow> byte list \<Rightarrow> nat \<Rightarrow> nat \<Rightarrow> (byte list \<times> nat) cres" where
  "dns_format_loop buf d host lock i =
     bindE (strlen_at host 0) (\<lambda>n.
       if i < n then
         bindE (rd host i) (\<lambda>c.
           if c = 46 then
             bindE (wr buf d (word_of_int (int i - int lock))) (\<lambda>buf1.
               bindE (copy_label buf1 (d + 1) host lock i) (\<lambda>(buf2, d2, lock2).
                 dns_format_loop buf2 d2 host (lock2 + 1) (i + 1)))
           else dns_format_loop buf d host lock (i + 1))
       else Inr (buf, d))"
  by pat_completeness auto
termination
  by (relation "measure (\<lambda>(buf, d, host, lock, i). length host - i)")
    (auto dest: strlen_at_less)

declare dns_format_loop.simps [simp del]

definition ChangetoDnsNameFormat ::
    "(byte list \<times> nat) option \<Rightarrow> byte list option \<Rightarrow> (byte list \<times> byte list) option cres" where
  "ChangetoDnsNameFormat dns host =
     (case (dns, host) of
        (Some (buf, d), Some h) \<Rightarrow>
          bindE (strcat_dot h) (\<lambda>h'.
            bindE (dns_format_loop buf d h' 0 0) (\<lambda>(buf', d').
              bindE (wr buf' d' 0) (\<lambda>buf''. Inr (Some (buf'', h')))))
      | _ \<Rightarrow> Inr None)"

section \<open>Label lists, their wire form and their dotted form\<close>

type_synonym label = "byte list"

definition wire :: "label list \<Rightarrow> byte list" where
  "wire ls = concat (map (\<lambda>l. of_nat (length l) # l) ls)"

definition dotted :: "label list \<Rightarrow> byte list" where
  "dotted ls = concat (map (\<lambda>l. l @ [46]) ls)"

text \<open>A host name without the final dot.\<close>

definition hostname :: "label list \<Rightarrow> byte list" where
  "hostname ls = butlast (dotted ls)"

text \<open>Labels that survive both conversions: no terminator and no dot inside, and a length that
  fits the (signed) length byte and does not look like the terminator.\<close>

definition label_ok :: "label \<Rightarrow> bool" where
  "label_ok l \<longleftrightarrow> l \<noteq> [] \<and> length l < 128 \<and> 0 \<notin> set l \<and> 46 \<notin> set l"

definition name_ok :: "label list \<Rightarrow> bool" where
  "name_ok ls \<longleftrightarrow> ls \<noteq> [] \<and> (\<forall>l \<in> set ls. label_ok l)"

lemma wire_simps [simp]:
  "wire [] = []" "wire (l # ls) = of_nat (length l) # l @ wire ls"
  "wire (ls @ ms) = wire ls @ wire ms"
  by (simp_all add: wire_def)

lemma dotted_simps [simp]:
  "dotted [] = []" "dotted (l # ls) = l @ 46 # dotted ls"
  "dotted (ls @ ms) = dotted ls @ dotted ms"
  by (simp_all add: dotted_def)

lemma length_dotted [simp]: "length (dotted ls) = length (wire ls)"
  by (induction ls) simp_all

lemma dotted_eq_Nil [simp]: "dotted ls = [] \<longleftrightarrow> ls = []"
  by (cases ls) simp_all

lemma wire_eq_Nil [simp]: "wire ls = [] \<longleftrightarrow> ls = []"
  by (cases ls) simp_all

lemma last_dotted: "ls \<noteq> [] \<Longrightarrow> last (dotted ls) = 46"
  by (induction ls) auto

lemma dotted_hostname: "ls \<noteq> [] \<Longrightarrow> dotted ls = hostname ls @ [46]"
  by (metis append_butlast_last_id dotted_eq_Nil hostname_def last_dotted)

lemma length_hostname: "length (hostname ls) = length (wire ls) - 1"
  by (simp add: hostname_def)

lemma zero_notin_dotted: "(\<forall>l \<in> set ls. 0 \<notin> set l) \<Longrightarrow> 0 \<notin> set (dotted ls)"
  by (induction ls) auto

lemma zero_notin_hostname: "(\<forall>l \<in> set ls. 0 \<notin> set l) \<Longrightarrow> 0 \<notin> set (hostname ls)"
  using zero_notin_dotted by (auto simp: hostname_def dest: in_set_butlastD)

lemma of_nat_length_nonzero:
  "l \<noteq> [] \<Longrightarrow> length l < 256 \<Longrightarrow> (of_nat (length l) :: byte) \<noteq> 0"
  by (simp add: word_of_nat_eq_0_iff nat_dvd_not_less)

lemma zero_notin_wire: "(\<forall>l \<in> set ls. label_ok l) \<Longrightarrow> 0 \<notin> set (wire ls)"
proof (induction ls)
  case (Cons l ls)
  then have "label_ok l" by simp
  then have "(of_nat (length l) :: byte) \<noteq> 0" and "0 \<notin> set l"
    using of_nat_length_nonzero [of l] by (auto simp: label_ok_def)
  with Cons show ?case by auto
qed simp

lemma name_ok_zero: "name_ok ls \<Longrightarrow> \<forall>l \<in> set ls. 0 \<notin> set l"
  by (simp add: name_ok_def label_ok_def)

lemma name_ok_nonempty: "name_ok ls \<Longrightarrow> ls \<noteq> []"
  by (simp add: name_ok_def)

lemma name_ok_hostname_nonempty: "name_ok ls \<Longrightarrow> hostname ls \<noteq> []"
proof -
  assume "name_ok ls"
  then obtain l ms where "ls = l # ms" and "l \<noteq> []"
    by (cases ls) (auto simp: name_ok_def label_ok_def)
  then show ?thesis by (cases ms) (auto simp: hostname_def butlast_append)
qed

lemma uint_label_length: "label_ok l \<Longrightarrow> uint (of_nat (length l) :: byte) = int (length l)"
  by (simp add: label_ok_def unsigned_of_nat take_bit_nat_eq_self)

lemma sint_label_length: "label_ok l \<Longrightarrow> sint (of_nat (length l) :: byte) = int (length l)"
  by (simp add: label_ok_def signed_of_nat signed_take_bit_int_eq_self)

section \<open>Behaviour of the loops\<close>

subsection \<open>The copy\<close>

lemma copy_qname_loop_string:
  assumes "0 \<notin> set s" and "length mid = length s" and "length dp + length s \<le> unat buflen + 1"
  shows "copy_qname_loop (sp @ s @ 0 # sr) (length sp) (dp @ mid @ z # dr) (length dp) buflen
    = Inr (Some (dp @ s @ 0 # dr))"
  using assms
proof (induction s arbitrary: sp dp mid)
  case Nil
  then show ?case by (simp add: copy_qname_loop.simps)
next
  case (Cons c s)
  then obtain m mid' where mid: "mid = m # mid'" and len: "length mid' = length s"
    by (cases mid) auto
  have "copy_qname_loop ((sp @ [c]) @ s @ 0 # sr) (length (sp @ [c]))
      ((dp @ [c]) @ mid' @ z # dr) (length (dp @ [c])) buflen = Inr (Some ((dp @ [c]) @ s @ 0 # dr))"
    using Cons.prems len by (intro Cons.IH) auto
  then show ?case
    using Cons.prems mid by (subst copy_qname_loop.simps) simp
qed

text \<open>A string that fills the destination array leads to a write past its end.\<close>

lemma copy_qname_loop_overflow:
  assumes "0 \<notin> set s" and "length dst - i \<le> length s" and "length dst \<le> unat buflen + 1"
    and "i \<le> length dst"
  shows "copy_qname_loop (sp @ s @ sr) (length sp) dst i buflen = Inl OutOfBounds"
  using assms
proof (induction s arbitrary: sp dst i)
  case Nil
  then show ?case
    by (subst copy_qname_loop.simps) (simp add: rd_def wr_out)
next
  case (Cons c s)
  show ?case
  proof (cases "i < length dst")
    case False
    with Cons.prems show ?thesis by (subst copy_qname_loop.simps) (simp add: wr_out)
  next
    case True
    have "copy_qname_loop ((sp @ [c]) @ s @ sr) (length (sp @ [c])) (dst[i := c]) (i + 1) buflen
      = Inl OutOfBounds"
      using Cons.prems True by (intro Cons.IH) auto
    with Cons.prems True show ?thesis
      by (subst copy_qname_loop.simps) (simp add: wr_in)
  qed
qed

text \<open>A string that outruns the received length, with room in the array, is refused.\<close>

lemma copy_qname_loop_rogue:
  assumes "0 \<notin> set s" and "unat buflen + 1 - i < length s" and "unat buflen + 1 < length dst"
    and "i \<le> unat buflen + 1"
  shows "copy_qname_loop (sp @ s @ sr) (length sp) dst i buflen = Inr None"
  using assms
proof (induction s arbitrary: sp dst i)
  case (Cons c s)
  show ?case
  proof (cases "i \<le> unat buflen")
    case False
    with Cons.prems show ?thesis by (subst copy_qname_loop.simps) (simp add: wr_in)
  next
    case True
    have "copy_qname_loop ((sp @ [c]) @ s @ sr) (length (sp @ [c])) (dst[i := c]) (i + 1) buflen
      = Inr None"
      using Cons.prems True by (intro Cons.IH) auto
    with Cons.prems True show ?thesis
      by (subst copy_qname_loop.simps) (simp add: wr_in)
  qed
qed simp

subsection \<open>From wire form to dotted form\<close>

lemma shift_label_moves:
  "shift_label (pre @ x # l @ r) (length pre) (length l)
     = Inr (pre @ l @ last (x # l) # r, length pre + length l)"
proof (induction l arbitrary: pre x)
  case (Cons y l)
  have "shift_label ((pre @ [y]) @ y # l @ r) (length (pre @ [y])) (length l)
    = Inr ((pre @ [y]) @ l @ last (y # l) # r, length (pre @ [y]) + length l)"
    by (rule Cons.IH)
  moreover have "rd (pre @ x # y # l @ r) (length pre + 1) = Inr y"
    using rd_at_length [of "pre @ [x]" y "l @ r"] by simp
  ultimately show ?case by simp
qed simp

lemma dot_loop_wire:
  assumes "\<forall>l \<in> set ls. label_ok l \<and> cv (of_nat (length l)) = int (length l)"
    and "0 \<notin> set pre"
  shows "dot_loop cv (pre @ wire ls @ 0 # r) (length pre)
    = Inr (pre @ dotted ls @ 0 # r, length pre + length (wire ls))"
  using assms
proof (induction ls arbitrary: pre)
  case Nil
  then show ?case by (simp add: dot_loop.simps)
next
  case (Cons l ls)
  let ?n = "of_nat (length l) :: byte"
  have ok: "label_ok l" "\<forall>k \<in> set (l # ls). label_ok k" and cv: "cv ?n = int (length l)"
    using Cons.prems by auto
  have IH: "dot_loop cv ((pre @ l @ [46]) @ wire ls @ 0 # r) (length (pre @ l @ [46]))
    = Inr ((pre @ l @ [46]) @ dotted ls @ 0 # r, length (pre @ l @ [46]) + length (wire ls))"
    using Cons.prems by (intro Cons.IH) (auto simp: label_ok_def)
  have len: "strlen_at ((pre @ wire (l # ls)) @ 0 # r) 0 = Inr (length (pre @ wire (l # ls)))"
    using zero_notin_wire [OF ok(2)] Cons.prems(2) by (intro strlen_at_0) simp
  have dot: "wr (pre @ l @ last (?n # l) # wire ls @ 0 # r) (length pre + length l) 46
    = Inr (pre @ l @ 46 # wire ls @ 0 # r)"
    using wr_at_length [of "pre @ l"] by simp
  show ?case
    using IH len cv shift_label_moves [of pre ?n l "wire ls @ 0 # r"] dot
    by (subst dot_loop.simps) simp
qed

lemma to_dotted_wire:
  assumes "name_ok ls" and "\<forall>l \<in> set ls. cv (of_nat (length l)) = int (length l)"
  shows "to_dotted cv (wire ls @ 0 # r) = Inr (hostname ls @ 0 # 0 # r)"
proof -
  have ne: "ls \<noteq> []" and ok: "\<forall>l \<in> set ls. label_ok l"
    using assms(1) by (simp_all add: name_ok_def)
  have loop: "dot_loop cv (wire ls @ 0 # r) 0 = Inr (dotted ls @ 0 # r, length (wire ls))"
    using dot_loop_wire [of ls cv "[]" r] ok assms(2) by simp
  have "wr (dotted ls @ 0 # r) (length (wire ls) - 1) 0 = Inr (hostname ls @ 0 # 0 # r)"
    using wr_at_length [of "hostname ls" 46 "0 # r" 0] ne
    by (simp add: dotted_hostname length_hostname)
  with loop ne show ?thesis by (simp add: to_dotted_def)
qed

lemma to_dotted_empty: "to_dotted cv (0 # r) = Inl OutOfBounds"
  by (simp add: to_dotted_def dot_loop.simps strlen_at_def)

subsection \<open>From dotted form to wire form\<close>

lemma copy_label_copies:
  assumes "length mid = length l"
  shows "copy_label (bp @ mid @ br) (length bp) (hp @ l @ hr) (length hp) (length hp + length l)
    = Inr (bp @ l @ br, length bp + length l, length hp + length l)"
  using assms
proof (induction l arbitrary: bp mid hp)
  case Nil
  then show ?case by (simp add: copy_label.simps)
next
  case (Cons c l)
  then obtain m mid' where mid: "mid = m # mid'" and len: "length mid' = length l"
    by (cases mid) auto
  have "copy_label ((bp @ [c]) @ mid' @ br) (length (bp @ [c])) ((hp @ [c]) @ l @ hr)
      (length (hp @ [c])) (length (hp @ [c]) + length l)
    = Inr ((bp @ [c]) @ l @ br, length (bp @ [c]) + length l, length (hp @ [c]) + length l)"
    using len by (rule Cons.IH)
  then show ?case using mid by (subst copy_label.simps) simp
qed

lemma dns_format_loop_scan:
  assumes "46 \<notin> set l" and "0 \<notin> set (hp @ l @ hq)"
  shows "dns_format_loop buf d (hp @ l @ hq @ 0 # hr) lock (length hp)
    = dns_format_loop buf d (hp @ l @ hq @ 0 # hr) lock (length hp + length l)"
  using assms
proof (induction l arbitrary: hp)
  case (Cons c l)
  have "strlen_at ((hp @ (c # l) @ hq) @ 0 # hr) 0 = Inr (length (hp @ (c # l) @ hq))"
    using Cons.prems by (intro strlen_at_0) simp
  then have "dns_format_loop buf d (hp @ (c # l) @ hq @ 0 # hr) lock (length hp)
    = dns_format_loop buf d (hp @ (c # l) @ hq @ 0 # hr) lock (length hp + 1)"
    using Cons.prems by (subst dns_format_loop.simps) simp
  also have "\<dots> = dns_format_loop buf d (hp @ (c # l) @ hq @ 0 # hr) lock (length hp + length (c # l))"
    using Cons.IH [of "hp @ [c]"] Cons.prems by simp
  finally show ?case .
qed simp

lemma dns_format_loop_wire:
  assumes "\<forall>l \<in> set ls. 0 \<notin> set l \<and> 46 \<notin> set l" and "0 \<notin> set hp"
    and "length mid = length (wire ls)"
  shows "dns_format_loop (bp @ mid @ br) (length bp) (hp @ dotted ls @ 0 # hr) (length hp) (length hp)
    = Inr (bp @ wire ls @ br, length bp + length (wire ls))"
  using assms
proof (induction ls arbitrary: hp bp mid)
  case Nil
  then show ?case by (simp add: dns_format_loop.simps)
next
  case (Cons l ls)
  let ?n = "of_nat (length l) :: byte" and ?host = "hp @ l @ (46 # dotted ls) @ 0 # hr"
  from Cons.prems(3) obtain m mid1 where mid: "mid = m # mid1" and "length mid1 = length l + length (wire ls)"
    by (cases mid) auto
  define mid2 mid3 where "mid2 = take (length l) mid1" and "mid3 = drop (length l) mid1"
  have split: "mid1 = mid2 @ mid3" "length mid2 = length l" "length mid3 = length (wire ls)"
    using \<open>length mid1 = _\<close> by (simp_all add: mid2_def mid3_def)
  have nz: "0 \<notin> set (dotted ls)" using Cons.prems(1) by (intro zero_notin_dotted) simp
  have scan: "dns_format_loop (bp @ mid @ br) (length bp) ?host (length hp) (length hp)
    = dns_format_loop (bp @ mid @ br) (length bp) ?host (length hp) (length hp + length l)"
    using Cons.prems nz by (intro dns_format_loop_scan) auto
  have len: "strlen_at ((hp @ l @ 46 # dotted ls) @ 0 # hr) 0 = Inr (length (hp @ l @ 46 # dotted ls))"
    using Cons.prems nz by (intro strlen_at_0) auto
  have dot: "rd ?host (length hp + length l) = Inr 46"
    using rd_at_length [of "hp @ l" 46 "dotted ls @ 0 # hr"] by simp
  have copy: "copy_label (bp @ ?n # mid1 @ br) (length bp + 1) ?host (length hp) (length hp + length l)
    = Inr (bp @ ?n # l @ mid3 @ br, length bp + 1 + length l, length hp + length l)"
    using copy_label_copies [OF split(2), of "bp @ [?n]" "mid3 @ br" hp "46 # dotted ls @ 0 # hr"] split(1)
    by simp
  have "dns_format_loop ((bp @ ?n # l) @ mid3 @ br) (length (bp @ ?n # l))
      ((hp @ l @ [46]) @ dotted ls @ 0 # hr) (length (hp @ l @ [46])) (length (hp @ l @ [46]))
    = Inr ((bp @ ?n # l) @ wire ls @ br, length (bp @ ?n # l) + length (wire ls))"
    using Cons.prems split(3) by (intro Cons.IH) auto
  then have "dns_format_loop (bp @ mid @ br) (length bp) ?host (length hp) (length hp + length l)
    = Inr (bp @ wire (l # ls) @ br, length bp + length (wire (l # ls)))"
    using len dot copy mid by (subst dns_format_loop.simps) simp
  with scan show ?case by simp
qed

text \<open>
  The call of \<open>ChangetoDnsNameFormat\<close> on a host name array that holds \<open>h\<close>, which with the
  appended dot is the dotted form of \<open>ls\<close>.
\<close>

lemma ChangetoDnsNameFormat_wire:
  assumes "\<forall>l \<in> set ls. 0 \<notin> set l \<and> 46 \<notin> set l" and "h @ [46] = dotted ls"
    and "length mid = length (wire ls)"
  shows "ChangetoDnsNameFormat (Some (bp @ mid @ y # br, length bp)) (Some (h @ 0 # x # hr))
    = Inr (Some (bp @ wire ls @ 0 # br, dotted ls @ 0 # hr))"
proof -
  have "0 \<notin> set (h @ [46])" using assms(1) unfolding assms(2) by (intro zero_notin_dotted) simp
  then have nz: "0 \<notin> set h" by simp
  have "wr (h @ 46 # x # hr) (length h + 1) 0 = Inr (dotted ls @ 0 # hr)"
    using wr_at_length [of "h @ [46]" x hr 0] by (simp flip: assms(2))
  then have cat: "strcat_dot (h @ 0 # x # hr) = Inr (dotted ls @ 0 # hr)"
    using nz by (simp add: strcat_dot_def)
  have loop: "dns_format_loop (bp @ mid @ y # br) (length bp) (dotted ls @ 0 # hr) 0 0
    = Inr (bp @ wire ls @ y # br, length bp + length (wire ls))"
    using dns_format_loop_wire [OF assms(1) _ assms(3), of "[]" bp "y # br" hr] by simp
  have "wr (bp @ wire ls @ y # br) (length bp + length (wire ls)) 0 = Inr (bp @ wire ls @ 0 # br)"
    using wr_at_length [of "bp @ wire ls" y br 0] by simp
  with cat loop show ?thesis by (simp add: ChangetoDnsNameFormat_def)
qed

lemma copy_to_cleared_name:
  assumes "0 \<notin> set s" and "length s < 256" and "length s \<le> unat buflen + 1"
  shows "copy_qname_loop (sp @ s @ 0 # sr) (length sp) (replicate MAX_NAME_LEN 0) 0 buflen
    = Inr (Some (s @ 0 # replicate (255 - length s) 0))"
proof -
  have "replicate MAX_NAME_LEN 0
    = [] @ replicate (length s) 0 @ 0 # replicate (255 - length s) (0 :: byte)"
    using assms(2) by (simp add: MAX_NAME_LEN_def flip: replicate_add replicate_Suc)
  then show ?thesis
    using copy_qname_loop_string [of s "replicate (length s) 0" "[]" buflen sp sr 0] assms
    by simp
qed

section \<open>Properties\<close>

text \<open>The two ways through the code: encode a host name into a buffer and read it back the way a
  message is read; read a name from a message and encode it into another buffer.\<close>

definition encode_then_read ::
    "byte list \<Rightarrow> nat \<Rightarrow> byte list \<Rightarrow> 32 word \<Rightarrow> byte list option cres" where
  "encode_then_read buf d host buflen =
     bindE (ChangetoDnsNameFormat (Some (buf, d)) (Some host)) (\<lambda>r. case r of None \<Rightarrow> Inr None
       | Some (buf', host') \<Rightarrow>
           bindE (verify_and_copy_qname (Some (buf', d)) (Some (replicate MAX_NAME_LEN 0)) buflen)
             (\<lambda>r'. case r' of None \<Rightarrow> Inr None
               | Some name \<Rightarrow>
                   bindE (to_dotted sint name) (\<lambda>name'. bindE (cstring_at name' 0) (\<lambda>s. Inr (Some s)))))"

definition read_then_encode ::
    "byte list \<Rightarrow> nat \<Rightarrow> 32 word \<Rightarrow> byte list \<Rightarrow> nat \<Rightarrow> byte list option cres" where
  "read_then_encode msg p buflen buf d =
     bindE (verify_and_copy_qname (Some (msg, p)) (Some (replicate MAX_NAME_LEN 0)) buflen) (\<lambda>r.
       case r of None \<Rightarrow> Inr None
       | Some name \<Rightarrow>
           bindE (to_dotted sint name) (\<lambda>host.
             bindE (ChangetoDnsNameFormat (Some (buf, d)) (Some host)) (\<lambda>r'.
               Inr (map_option fst r'))))"

text \<open>
  C5. Round trip from dotted form: a host name of labels of 1 to 127 bytes, encoded by
  \<open>ChangetoDnsNameFormat\<close> and read back by \<open>verify_and_copy_qname\<close> and the conversion loop, is
  the same host name.
\<close>

theorem encode_then_read_roundtrip:
  assumes "name_ok ls" and "length mid = length (wire ls)" and "length (wire ls) < 256"
    and "length (wire ls) \<le> unat buflen + 1"
  shows "encode_then_read (bp @ mid @ y # br) (length bp) (hostname ls @ 0 # x # hr) buflen
    = Inr (Some (hostname ls))"
proof -
  have ok: "\<forall>l \<in> set ls. 0 \<notin> set l \<and> 46 \<notin> set l" and ne: "ls \<noteq> []"
    and nz: "0 \<notin> set (wire ls)" "0 \<notin> set (hostname ls)"
    using assms(1) zero_notin_wire zero_notin_hostname [OF name_ok_zero [OF assms(1)]]
    by (auto simp: name_ok_def label_ok_def)
  have dot: "to_dotted sint (wire ls @ 0 # q) = Inr (hostname ls @ 0 # 0 # q)" for q
    using assms(1) by (intro to_dotted_wire) (auto simp: name_ok_def sint_label_length)
  show ?thesis
    using ChangetoDnsNameFormat_wire [OF ok dotted_hostname [OF ne, symmetric] assms(2), of bp y br x hr]
      copy_to_cleared_name [OF nz(1) assms(3,4), of bp br] dot nz(2)
    by (simp add: encode_then_read_def verify_and_copy_qname_def)
qed

lemma encode_then_read_roundtrip_witness:
  "encode_then_read ([1, 2] @ [9, 9, 9, 9, 9] @ 9 # [9]) (length ([1, 2] :: byte list))
      (hostname [[97, 98], [99]] @ 0 # 7 # []) 40
    = Inr (Some (hostname [[97, 98], [99]]))"
  by (rule encode_then_read_roundtrip) (simp_all add: name_ok_def label_ok_def)

text \<open>
  C6. Round trip from wire form: the label sequence of a message, read and converted to dotted
  form and encoded again, gives the same bytes with a terminator.
\<close>

theorem read_then_encode_roundtrip:
  assumes "name_ok ls" and "length mid = length (wire ls)" and "length (wire ls) < 256"
    and "length (wire ls) \<le> unat buflen + 1"
  shows "read_then_encode (sp @ wire ls @ 0 # sr) (length sp) buflen (bp @ mid @ y # br) (length bp)
    = Inr (Some (bp @ wire ls @ 0 # br))"
proof -
  have ok: "\<forall>l \<in> set ls. 0 \<notin> set l \<and> 46 \<notin> set l" and ne: "ls \<noteq> []"
    and nz: "0 \<notin> set (wire ls)"
    using assms(1) zero_notin_wire by (auto simp: name_ok_def label_ok_def)
  have dot: "to_dotted sint (wire ls @ 0 # q) = Inr (hostname ls @ 0 # 0 # q)" for q
    using assms(1) by (intro to_dotted_wire) (auto simp: name_ok_def sint_label_length)
  show ?thesis
    using ChangetoDnsNameFormat_wire [OF ok dotted_hostname [OF ne, symmetric] assms(2), of bp y br 0]
      copy_to_cleared_name [OF nz assms(3,4), of sp sr] dot
    by (simp add: read_then_encode_def verify_and_copy_qname_def)
qed

lemma read_then_encode_roundtrip_witness:
  "read_then_encode ([8] @ wire [[97, 98], [99]] @ 0 # [5]) (length ([8] :: byte list)) 40
      ([1, 2] @ [9, 9, 9, 9, 9] @ 9 # [9]) (length ([1, 2] :: byte list))
    = Inr (Some ([1, 2] @ wire [[97, 98], [99]] @ 0 # [9]))"
  by (rule read_then_encode_roundtrip) (simp_all add: name_ok_def label_ok_def)

end
