(* ===== verification/Dns_Utils.thy ===== *)
theory Dns_Utils
  imports Dns_Names
begin

text \<open>
  The DNS utilities (\<open>sample_dns_server/src/include/utils.h\<close> and
  \<open>sample_dns_server/src/dns_utils/utils.c\<close>): the message structures,
  \<open>verify_dns_buffer\<close>, \<open>read_and_print_dns_header\<close>, \<open>uncompress_name\<close> and
  \<open>send_data_to_dns\<close>.  The packet buffer is a byte list with checked accesses.  What the
  operating system and the allocator answer is a parameter (the record \<open>up_env\<close>); what the
  program does to the outside (console output, datagrams, closing of sockets, freeing of the
  buffer) is a list of events.
\<close>

section \<open>Structures\<close>

definition T_A :: "16 word" where "T_A = 1"
definition MAX_BUF_LEN :: nat where "MAX_BUF_LEN = 512"
definition RECORD_LEN :: nat where "RECORD_LEN = 20"
definition TID_SIZE :: nat where "TID_SIZE = 16"

text \<open>\<open>struct DNS_HEADER\<close>, with the bit fields in declaration order (least significant first),
  and its load from the first twelve bytes of a buffer.  The 16-bit fields hold what the
  little-endian load gives, before \<open>ntohs\<close>.\<close>

record DNS_HEADER =
  h_id :: "16 word"
  h_rd :: "1 word"
  h_tc :: "1 word"
  h_aa :: "1 word"
  h_opcode :: "4 word"
  h_qr :: "1 word"
  h_rcode :: "4 word"
  h_cd :: "1 word"
  h_ad :: "1 word"
  h_z :: "1 word"
  h_ra :: "1 word"
  h_q_count :: "16 word"
  h_ans_count :: "16 word"
  h_auth_count :: "16 word"
  h_add_count :: "16 word"

definition sizeof_DNS_HEADER :: nat where "sizeof_DNS_HEADER = 12"
definition sizeof_QUESTION :: nat where "sizeof_QUESTION = 4"
definition sizeof_R_DATA :: nat where "sizeof_R_DATA = 10"

text \<open>The size of a pointer, which is what \<open>sizeof(dns)\<close> and \<open>sizeof(buffer)\<close> are.\<close>

definition sizeof_ptr :: nat where "sizeof_ptr = 8"

definition raw16 :: "byte list \<Rightarrow> nat \<Rightarrow> 16 word cres" where
  "raw16 buf k = bindE (rd buf k) (\<lambda>b0. bindE (rd buf (k + 1)) (\<lambda>b1. Inr (load16 LittleE b0 b1)))"

definition load_header :: "byte list \<Rightarrow> DNS_HEADER cres" where
  "load_header buf =
     bindE (raw16 buf 0) (\<lambda>i. bindE (rd buf 2) (\<lambda>f. bindE (rd buf 3) (\<lambda>g.
     bindE (raw16 buf 4) (\<lambda>qd. bindE (raw16 buf 6) (\<lambda>an. bindE (raw16 buf 8) (\<lambda>ns.
     bindE (raw16 buf 10) (\<lambda>ar.
       Inr \<lparr>h_id = i,
            h_rd = ucast f, h_tc = ucast (drop_bit 1 f), h_aa = ucast (drop_bit 2 f),
            h_opcode = ucast (drop_bit 3 f), h_qr = ucast (drop_bit 7 f),
            h_rcode = ucast g, h_cd = ucast (drop_bit 4 g), h_ad = ucast (drop_bit 5 g),
            h_z = ucast (drop_bit 6 g), h_ra = ucast (drop_bit 7 g),
            h_q_count = qd, h_ans_count = an, h_auth_count = ns, h_add_count = ar\<rparr>)))))))"

datatype query_type = REQUEST | RESPONSE

record qr_data =
  tid :: int
  domain_name :: "byte list"
  q_type :: query_type

text \<open>\<open>struct RES_RECORD\<close>: the decoded name, the index of the fixed fields in the buffer, the data.\<close>

record res_record =
  rr_name :: "byte list"
  rr_resource :: nat
  rr_rdata :: "byte list"

type_synonym ipv4 = "32 word"

datatype dns_event =
    Out_request_banner
  | Out_client_address ipv4
  | Out_tid int
  | Out_domain "byte list"
  | Out_query_type query_type
  | Out_unsupported
  | Out_invalid_upstream
  | Out_counts nat nat nat nat
  | Out_answer_count nat
  | Out_answer "byte list" "byte list option" \<comment> \<open>a name and the four printed address bytes\<close>
  | Sendto_upstream "byte list"
  | Close_upstream
  | Sendto_client "byte list" ipv4
  | Sendto_client_toolong ipv4 \<comment> \<open>a send of more bytes than a datagram holds, refused by the kernel\<close>
  | Free_buffer

text \<open>
  What the environment answers: the block that the \<open>k\<close>-th \<open>malloc\<close> of \<open>n\<close> bytes returns
  (\<open>None\<close> is a null pointer; the contents are indeterminate, the length is what may be
  accessed), the results of the two \<open>setsockopt\<close> calls and of \<open>sendto\<close>, and the datagram
  \<open>recvfrom\<close> delivers in answer to a query (\<open>None\<close> is the result -1).
\<close>

record up_env =
  alloc :: "nat \<Rightarrow> nat \<Rightarrow> byte list option"
  setsockopt_reuse :: int
  setsockopt_timeo :: int
  sendto_up :: "byte list \<Rightarrow> int"
  recvfrom_up :: "byte list \<Rightarrow> byte list option"

section \<open>Verification and printing of a message\<close>

text \<open>A 16-bit field in network byte order.\<close>

definition net16 :: "byte list \<Rightarrow> nat \<Rightarrow> 16 word cres" where
  "net16 buf k = bindE (raw16 buf k) (\<lambda>w. Inr (ntohs LittleE w))"

text \<open>\<open>verify_dns_buffer\<close>: 0 for an accepted message, -1 for a refused one.  The first test
  compares twice the size of a 16-bit integer with \<open>TID_SIZE\<close>.\<close>

definition verify_dns_buffer :: "byte list \<Rightarrow> 32 word \<Rightarrow> int cres" where
  "verify_dns_buffer buffer buflen =
     (if (2 :: nat) * 2 > TID_SIZE then Inr (-1)
      else bindE (copy_qname_loop buffer sizeof_DNS_HEADER (replicate MAX_NAME_LEN 0) 0 buflen)
        (\<lambda>r. case r of
            None \<Rightarrow> Inr (-1)
          | Some name \<Rightarrow>
              bindE (strlen_at name 0) (\<lambda>n.
                bindE (net16 buffer (sizeof_DNS_HEADER + (n + 1))) (\<lambda>qtype.
                  if qtype \<noteq> T_A then Inr (-1) else Inr 0))))"

text \<open>\<open>read_and_print_dns_header\<close>: the returned status, the client data and the output.\<close>

definition read_and_print_dns_header ::
    "byte list option \<Rightarrow> 32 word \<Rightarrow> qr_data option \<Rightarrow> ipv4 option
     \<Rightarrow> (int \<times> qr_data option \<times> dns_event list) cres" where
  "read_and_print_dns_header buffer buflen client_data clientAddr =
     (case (buffer, clientAddr, client_data) of
        (Some buf, Some addr, Some _) \<Rightarrow>
          bindE (load_header buf) (\<lambda>dns.
            let cd = \<lparr>tid = uint (ntohs LittleE (h_id dns)),
                      domain_name = replicate MAX_NAME_LEN 0, q_type = REQUEST\<rparr>;
                out = [Out_client_address addr, Out_tid (tid cd)]
            in bindE (verify_and_copy_qname (Some (buf, sizeof_DNS_HEADER))
                        (Some (replicate MAX_NAME_LEN 0)) buflen) (\<lambda>r.
              case r of
                None \<Rightarrow> Inr (-1, Some cd, out)
              | Some name \<Rightarrow>
                  bindE (to_dotted sint name) (\<lambda>name'.
                    bindE (cstring_at name' 0) (\<lambda>s.
                      bindE (wr_block (domain_name cd) 0 s) (\<lambda>dn.
                        bindE (cstring_at dn 0) (\<lambda>shown.
                          Inr (0, Some (cd\<lparr>domain_name := dn\<rparr>),
                               out @ [Out_domain shown,
                                      Out_query_type
                                        (if ntohs LittleE (ucast (h_qr dns)) = 0
                                         then REQUEST else RESPONSE)])))))))
      | _ \<Rightarrow> Inr (-1, client_data, []))"

section \<open>Compressed names\<close>

text \<open>
  The decoding loop of \<open>uncompress_name\<close>.  A byte of at least 192 starts a pointer: the
  reader jumps to the 14-bit offset.  Nothing bounds the number of jumps.
\<close>

partial_function (option) uncompress_loop ::
    "byte list \<Rightarrow> nat \<Rightarrow> byte list \<Rightarrow> nat \<Rightarrow> bool \<Rightarrow> nat
     \<Rightarrow> (byte list \<times> nat \<times> bool \<times> nat) cres option" where
  "uncompress_loop buf r name p jumped cnt =
     (case rd buf r of
        Inl e \<Rightarrow> Some (Inl e)
      | Inr c \<Rightarrow>
          if c = 0 then Some (Inr (name, p, jumped, cnt))
          else if 192 \<le> unat c then
            (case rd buf (r + 1) of
               Inl e \<Rightarrow> Some (Inl e)
             | Inr c' \<Rightarrow>
                 uncompress_loop buf (unat c * MAX_NAME_LEN + unat c' - 49152) name p True cnt)
          else
            (case wr name p c of
               Inl e \<Rightarrow> Some (Inl e)
             | Inr name' \<Rightarrow>
                 uncompress_loop buf (r + 1) name' (p + 1) jumped
                   (if jumped then cnt else cnt + 1)))"

text \<open>\<open>uncompress_name\<close>: the decoded name (a block of \<open>malloc(MAX_NAME_LEN)\<close>) and the count
  of bytes the name takes at the reader.\<close>

definition uncompress_name ::
    "byte list option \<Rightarrow> byte list \<Rightarrow> nat \<Rightarrow> (byte list \<times> nat) cres option" where
  "uncompress_name mem buffer reader =
     (case mem of
        None \<Rightarrow> Some (Inl NullDeref)
      | Some blk \<Rightarrow>
          bindO (Some (wr blk 0 0)) (\<lambda>name.
            bindO (uncompress_loop buffer reader name 0 False 1) (\<lambda>(name1, p, jumped, cnt).
              Some (bindE (wr name1 p 0) (\<lambda>name2.
                bindE (to_dotted uint name2) (\<lambda>name3.
                  Inr (name3, if jumped then cnt + 1 else cnt)))))))"

section \<open>Forwarding to the upstream server\<close>

text \<open>
  The first half of \<open>send_data_to_dns\<close>, up to the packet that is sent: local copy of the
  name, first conversion (into the buffer that is cleared afterwards), saved header, socket
  options, cleared buffer, first \<open>sizeof(dns)\<close> bytes of the header, second conversion (which
  appends a second dot to the same local name), question fields.  The result is the events so
  far and the buffer, or \<open>None\<close> for a return of -1.
\<close>

definition put_question :: "byte list \<Rightarrow> nat \<Rightarrow> byte list cres" where
  "put_question buffer k =
     wr_block buffer k (store16 LittleE (htons LittleE T_A) @ store16 LittleE (htons LittleE 1))"

definition prepare_query ::
    "up_env \<Rightarrow> byte list \<Rightarrow> 32 word \<Rightarrow> (dns_event list \<times> byte list option) cres" where
  "prepare_query env buffer nBytes =
     bindE (verify_and_copy_qname (Some (buffer, sizeof_DNS_HEADER))
              (Some (replicate MAX_NAME_LEN 0)) nBytes) (\<lambda>r.
     case r of None \<Rightarrow> Inr ([], None) | Some name \<Rightarrow>
     bindE (ChangetoDnsNameFormat (Some (buffer, sizeof_DNS_HEADER)) (Some name)) (\<lambda>r1.
     case r1 of None \<Rightarrow> Inr ([], None) | Some (buffer1, name1) \<Rightarrow>
     (case alloc env 1 sizeof_DNS_HEADER of None \<Rightarrow> Inl NullDeref | Some blk \<Rightarrow>
     bindE (rd_block buffer1 0 sizeof_DNS_HEADER) (\<lambda>hdr.
     bindE (wr_block blk 0 hdr) (\<lambda>client_dns_req.
     if setsockopt_reuse env \<noteq> 0 then Inr ([Close_upstream], None)
     else if setsockopt_timeo env < 0 then Inr ([Close_upstream], None)
     else
     bindE (wr_block buffer1 0 (replicate MAX_BUF_LEN 0)) (\<lambda>buffer2.
     bindE (rd_block client_dns_req 0 sizeof_ptr) (\<lambda>part.
     bindE (wr_block buffer2 0 part) (\<lambda>buffer3.
     bindE (ChangetoDnsNameFormat (Some (buffer3, sizeof_DNS_HEADER)) (Some name1)) (\<lambda>r2.
     case r2 of None \<Rightarrow> Inr ([Close_upstream], None) | Some (buffer4, name2) \<Rightarrow>
     bindE (strlen_at name2 0) (\<lambda>n.
     bindE (put_question buffer4 (sizeof_DNS_HEADER + n)) (\<lambda>buffer5.
     Inr ([], Some buffer5))))))))))))"

text \<open>The datagram that is sent: header, name with terminator, question.\<close>

definition query_datagram :: "byte list \<Rightarrow> byte list cres" where
  "query_datagram buffer =
     bindE (strlen_at buffer sizeof_DNS_HEADER) (\<lambda>n.
       rd_block buffer 0 (sizeof_DNS_HEADER + (n + 1) + sizeof_QUESTION))"

text \<open>
  A \<open>recvfrom\<close> of at most \<open>MAX_BUF_LEN\<close> bytes into a buffer, with the result in an
  \<open>unsigned int\<close> as the callers keep it: -1 becomes the largest value and the comparison with
  0 that follows is never true.  Then the terminator at index \<open>nBytes + 1\<close>, computed in
  \<open>unsigned int\<close>.
\<close>

definition recv_into :: "byte list \<Rightarrow> byte list option \<Rightarrow> (byte list \<times> 32 word) cres" where
  "recv_into buffer datagram =
     (case datagram of
        None \<Rightarrow> Inr (buffer, -1)
      | Some bs \<Rightarrow>
          bindE (wr_block buffer 0 (take MAX_BUF_LEN bs)) (\<lambda>buffer'.
            Inr (buffer', of_nat (length (take MAX_BUF_LEN bs)))))"

definition terminate_buffer :: "byte list \<Rightarrow> 32 word \<Rightarrow> byte list cres" where
  "terminate_buffer buffer nBytes = wr buffer (unat (nBytes + 1)) 0"

text \<open>The answer records.  An A record is copied into a block of \<open>data_len\<close> bytes and
  terminated at index \<open>data_len\<close>; the data of any other record is decoded as a name.\<close>

definition read_rdata ::
    "up_env \<Rightarrow> byte list \<Rightarrow> nat \<Rightarrow> nat \<Rightarrow> nat \<Rightarrow> (byte list \<times> nat) cres option" where
  "read_rdata env buffer i res reader =
     bindO (Some (net16 buffer res)) (\<lambda>ty.
       if ty = 1 then
         Some (bindE (net16 buffer (res + 8)) (\<lambda>len.
           case alloc env (2 * i + 3) (unat len) of
             None \<Rightarrow> Inl NullDeref
           | Some blk \<Rightarrow>
               bindE (rd_block buffer reader (unat len)) (\<lambda>bytes.
                 bindE (wr_block blk 0 bytes) (\<lambda>blk1.
                   bindE (wr blk1 (unat len) 0) (\<lambda>blk2.
                     Inr (blk2, reader + unat len))))))
       else
         bindO (uncompress_name (alloc env (2 * i + 3) MAX_NAME_LEN) buffer reader)
           (\<lambda>(data, stop). Some (Inr (data, reader + stop))))"

fun parse_answers ::
    "up_env \<Rightarrow> byte list \<Rightarrow> nat \<Rightarrow> nat \<Rightarrow> nat \<Rightarrow> res_record list \<Rightarrow> res_record list cres option" where
  "parse_answers env buffer i 0 reader answers = Some (Inr answers)"
| "parse_answers env buffer i (Suc n) reader answers =
     bindO (uncompress_name (alloc env (2 * i + 2) MAX_NAME_LEN) buffer reader) (\<lambda>(name, stop).
       if RECORD_LEN \<le> i then Some (Inl OutOfBounds)
       else
         bindO (read_rdata env buffer i (reader + stop) (reader + stop + sizeof_R_DATA))
           (\<lambda>(data, reader').
             parse_answers env buffer (i + 1) n reader'
               (answers @ [\<lparr>rr_name = name, rr_resource = reader + stop, rr_rdata = data\<rparr>])))"

text \<open>The printing of the records.  The address is read as a \<open>long\<close>, so eight bytes of the
  block are accessed; the low 32 bits go through \<open>ntohl\<close> into \<open>s_addr\<close>, whose bytes in
  memory order \<open>inet_ntoa\<close> prints.\<close>

definition printed_address :: "byte list \<Rightarrow> byte list cres" where
  "printed_address rdata =
     bindE (rd_block rdata 0 8) (\<lambda>long_bytes.
       Inr (store32 LittleE (ntohl LittleE
         (load32 LittleE (long_bytes ! 0) (long_bytes ! 1) (long_bytes ! 2) (long_bytes ! 3)))))"

fun print_answers :: "byte list \<Rightarrow> res_record list \<Rightarrow> dns_event list cres" where
  "print_answers buffer [] = Inr []"
| "print_answers buffer (a # as) =
     bindE (cstring_at (rr_name a) 0) (\<lambda>name.
       bindE (net16 buffer (rr_resource a)) (\<lambda>ty.
         bindE (if ty = T_A then bindE (printed_address (rr_rdata a)) (\<lambda>x. Inr (Some x))
                else Inr None) (\<lambda>addr.
           bindE (print_answers buffer as) (\<lambda>evs. Inr (Out_answer name addr # evs)))))"

text \<open>The second half of \<open>send_data_to_dns\<close>, from the received response on.\<close>

definition handle_response ::
    "up_env \<Rightarrow> byte list \<Rightarrow> 32 word \<Rightarrow> (int \<times> dns_event list) cres option" where
  "handle_response env buffer nBytes =
     bindO (Some (verify_dns_buffer buffer nBytes)) (\<lambda>v.
       if v = -1 then Some (Inr (-1, [Out_invalid_upstream, Close_upstream]))
       else
         bindO (Some (load_header buffer)) (\<lambda>dns.
         bindO (Some (strlen_at buffer sizeof_DNS_HEADER)) (\<lambda>n.
         let count = (\<lambda>f. unat (ntohs LittleE (f dns)))
         in bindO (parse_answers env buffer 0 (count h_ans_count)
                  (sizeof_DNS_HEADER + n + 1 + sizeof_QUESTION) []) (\<lambda>answers.
         bindO (Some (print_answers buffer answers)) (\<lambda>printed.
           Some (Inr (0, [Close_upstream,
             Out_counts (count h_q_count) (count h_ans_count) (count h_auth_count) (count h_add_count),
             Out_answer_count (count h_ans_count)] @ printed)))))))"

text \<open>\<open>recvfrom\<close> of the response, the test of its result, the terminator, the response.\<close>

definition receive_response ::
    "up_env \<Rightarrow> byte list \<Rightarrow> byte list \<Rightarrow> (int \<times> byte list \<times> 32 word \<times> dns_event list) cres option" where
  "receive_response env q buffer1 =
     bindO (Some (recv_into buffer1 (recvfrom_up env q))) (\<lambda>(buffer2, nBytes).
     if nBytes < 0 then Some (Inr (-1, buffer2, nBytes, [Sendto_upstream q, Close_upstream]))
     else
     bindO (Some (terminate_buffer buffer2 nBytes)) (\<lambda>buffer3.
     bindO (handle_response env buffer3 nBytes) (\<lambda>(status, evs).
       Some (Inr (status, buffer3, nBytes, Sendto_upstream q # evs)))))"

text \<open>\<open>send_data_to_dns\<close>: the status, the buffer and byte count it leaves, the events.\<close>

definition send_data_to_dns ::
    "up_env \<Rightarrow> byte list \<Rightarrow> 32 word \<Rightarrow> (int \<times> byte list \<times> 32 word \<times> dns_event list) cres option" where
  "send_data_to_dns env buffer nBytes =
     bindO (Some (prepare_query env buffer nBytes)) (\<lambda>(evs, r).
     case r of None \<Rightarrow> Some (Inr (-1, buffer, nBytes, evs)) | Some buffer1 \<Rightarrow>
     bindO (Some (query_datagram buffer1)) (\<lambda>q.
     if sendto_up env q < 0 then Some (Inr (-1, buffer1, nBytes, [Sendto_upstream q, Close_upstream]))
     else receive_response env q buffer1))"

section \<open>Reading a message\<close>

lemmas dns_consts = MAX_NAME_LEN_def MAX_BUF_LEN_def RECORD_LEN_def TID_SIZE_def
  sizeof_DNS_HEADER_def sizeof_QUESTION_def sizeof_R_DATA_def sizeof_ptr_def T_A_def

lemma net16_at:
  "k = length xs \<Longrightarrow> net16 (xs @ a # b # ys) k = Inr (be16 a b)"
  using rd_at_length [of "xs @ [a]" b ys] by (simp add: net16_def raw16_def)

lemma load_header_fields:
  assumes "12 \<le> length buf"
  shows "\<exists>dns. load_header buf = Inr dns
    \<and> ntohs LittleE (h_id dns) = be16 (buf ! 0) (buf ! 1)
    \<and> h_qr dns = ucast (drop_bit 7 (buf ! 2))
    \<and> ntohs LittleE (h_q_count dns) = be16 (buf ! 4) (buf ! 5)
    \<and> ntohs LittleE (h_ans_count dns) = be16 (buf ! 6) (buf ! 7)
    \<and> ntohs LittleE (h_auth_count dns) = be16 (buf ! 8) (buf ! 9)
    \<and> ntohs LittleE (h_add_count dns) = be16 (buf ! 10) (buf ! 11)"
proof -
  have rd: "rd buf k = Inr (buf ! k)" if "k < 12" for k
    using assms that by (intro rd_in) simp
  show ?thesis by (simp add: load_header_def raw16_def rd)
qed

lemma verify_dns_buffer_string:
  assumes "length hdr = 12" and "0 \<notin> set s" and "length s < 256" and "length s \<le> unat buflen + 1"
  shows "verify_dns_buffer (hdr @ s @ 0 # a # b # r) buflen = Inr (if be16 a b = T_A then 0 else -1)"
proof -
  have "copy_qname_loop (hdr @ s @ 0 # a # b # r) sizeof_DNS_HEADER (replicate MAX_NAME_LEN 0) 0 buflen
    = Inr (Some (s @ 0 # replicate (255 - length s) 0))"
    using copy_to_cleared_name [OF assms(2-4), of hdr "a # b # r"] assms(1) by (simp add: dns_consts)
  moreover have "net16 (hdr @ s @ 0 # a # b # r) (sizeof_DNS_HEADER + (length s + 1)) = Inr (be16 a b)"
    using net16_at [of "sizeof_DNS_HEADER + (length s + 1)" "hdr @ s @ [0]" a b r] assms(1)
    by (simp add: dns_consts)
  ultimately show ?thesis using assms(2) by (simp add: verify_dns_buffer_def TID_SIZE_def)
qed

lemma hostname_array_string:
  assumes "name_ok ls" and "length (wire ls) < 256"
  shows "wr_block (replicate MAX_NAME_LEN 0) 0 (hostname ls)
    = Inr (hostname ls @ 0 # replicate (256 - length (wire ls)) 0)"
proof -
  have "0 < length (wire ls)" using assms(1) by (simp add: name_ok_def)
  then have "length (hostname ls) + Suc (256 - length (wire ls)) = 256"
    using assms(2) by (subst length_hostname) linarith
  then have "replicate MAX_NAME_LEN 0
    = replicate (length (hostname ls)) 0 @ 0 # replicate (256 - length (wire ls)) (0 :: byte)"
    by (metis MAX_NAME_LEN_def replicate_Suc replicate_add)
  then show ?thesis by simp
qed

lemma bswap16_eq_0: "bswap16 w = 0 \<longleftrightarrow> w = 0"
proof -
  have "bswap16 0 = (0 :: 16 word)" by (simp add: bswap16_def be16_def lo8_def hi8_def word_cat_eq)
  then show ?thesis by (metis bswap16_bswap16)
qed

lemma qr_bit: "(ucast (ucast (drop_bit 7 b) :: 1 word) :: 16 word) = 0 \<longleftrightarrow> \<not> bit (b :: byte) 7"
proof -
  have "bit (x :: 1 word) n \<Longrightarrow> n = 0" for x n
    using bit_imp_le_length [of x n] by simp
  then have "(ucast (x :: 1 word) :: 16 word) = 0 \<longleftrightarrow> \<not> bit x 0" for x
    by (subst bit_eq_iff) (auto simp: bit_simps)
  then show ?thesis by (simp add: bit_simps)
qed

lemma read_and_print_dns_header_name:
  assumes "length hdr = 12" and "name_ok ls" and "length (wire ls) < 256"
    and "length (wire ls) \<le> unat buflen + 1"
  shows "read_and_print_dns_header (Some (hdr @ wire ls @ 0 # r)) buflen (Some cd) (Some addr)
    = Inr (0,
        Some \<lparr>tid = uint (be16 (hdr ! 0) (hdr ! 1)),
              domain_name = hostname ls @ 0 # replicate (256 - length (wire ls)) 0,
              q_type = REQUEST\<rparr>,
        [Out_client_address addr, Out_tid (uint (be16 (hdr ! 0) (hdr ! 1))), Out_domain (hostname ls),
         Out_query_type (if bit (hdr ! 2) 7 then RESPONSE else REQUEST)])"
proof -
  let ?buf = "hdr @ wire ls @ 0 # r"
  have nz: "0 \<notin> set (wire ls)" "0 \<notin> set (hostname ls)"
    using assms(2) zero_notin_wire zero_notin_hostname [OF name_ok_zero] by (auto simp: name_ok_def)
  obtain dns where dns: "load_header ?buf = Inr dns"
      "ntohs LittleE (h_id dns) = be16 (hdr ! 0) (hdr ! 1)" "h_qr dns = ucast (drop_bit 7 (hdr ! 2))"
    using load_header_fields [of ?buf] assms(1) by (auto simp: nth_append)
  have qr: "ntohs LittleE (ucast (h_qr dns)) = 0 \<longleftrightarrow> \<not> bit (hdr ! 2) 7"
    by (simp add: dns(3) ntohs_def bswap16_eq_0 qr_bit)
  have copy: "copy_qname_loop ?buf sizeof_DNS_HEADER (replicate MAX_NAME_LEN 0) 0 buflen
    = Inr (Some (wire ls @ 0 # replicate (255 - length (wire ls)) 0))"
    using copy_to_cleared_name [OF nz(1) assms(3,4), of hdr r] assms(1) by (simp add: dns_consts)
  have dot: "to_dotted sint (wire ls @ 0 # q) = Inr (hostname ls @ 0 # 0 # q)" for q
    using assms(2) by (intro to_dotted_wire) (auto simp: name_ok_def sint_label_length)
  show ?thesis
    using dns(1,2) qr copy dot nz hostname_array_string [OF assms(2,3)]
    by (simp add: read_and_print_dns_header_def verify_and_copy_qname_def Let_def)
qed

section \<open>The query that is sent upstream\<close>

text \<open>The datagram for a name: eight bytes of the client's header, zero authority and additional
  counts, the name and the question for an A record of class IN.\<close>

definition upstream_query :: "byte list \<Rightarrow> label list \<Rightarrow> byte list" where
  "upstream_query hdr ls = take 8 hdr @ replicate 4 0 @ wire ls @ [0, 0, 1, 0, 1]"

lemma length_upstream_query:
  "length hdr = 12 \<Longrightarrow> length (upstream_query hdr ls) = 17 + length (wire ls)"
  by (simp add: upstream_query_def)

lemma hi8_lo8_1 [simp]: "hi8 1 = 0" "lo8 1 = 1"
  by (simp_all add: hi8_def lo8_def)

lemma put_question_at:
  "length q = 4 \<Longrightarrow> k = length xs \<Longrightarrow> put_question (xs @ q @ r) k = Inr (xs @ [0, 1, 0, 1] @ r)"
  by (simp add: put_question_def store16_htons T_A_def)

lemma first_conversion:
  assumes "name_ok ls" and "length (wire ls) \<le> 254"
  shows "ChangetoDnsNameFormat (Some (hdr @ hostname ls @ 0 # y # r, length hdr))
      (Some (hostname ls @ 0 # replicate (256 - length (wire ls)) 0))
    = Inr (Some (hdr @ wire ls @ 0 # r, dotted ls @ 0 # replicate (255 - length (wire ls)) 0))"
proof -
  have ok: "\<forall>l \<in> set ls. 0 \<notin> set l \<and> 46 \<notin> set l" and ne: "ls \<noteq> []"
    using assms(1) by (auto simp: name_ok_def label_ok_def)
  have "length (hostname ls @ [0]) = length (wire ls)"
    using dotted_hostname [OF ne] length_dotted [of ls] by simp
  moreover have "replicate (256 - length (wire ls)) (0 :: byte)
    = 0 # replicate (255 - length (wire ls)) 0"
    using assms(2) by (simp add: Suc_diff_le flip: replicate_Suc)
  ultimately show ?thesis
    using ChangetoDnsNameFormat_wire [OF ok dotted_hostname [OF ne, symmetric],
        of "hostname ls @ [0]" hdr y r 0 "replicate (255 - length (wire ls)) 0"]
    by simp
qed

lemma second_conversion:
  assumes "name_ok ls" and "length (wire ls) \<le> 254" and "length bp = 12"
  shows "ChangetoDnsNameFormat (Some (bp @ replicate 500 0 @ t, 12))
      (Some (dotted ls @ 0 # replicate (255 - length (wire ls)) 0))
    = Inr (Some (bp @ wire ls @ 0 # replicate (499 - length (wire ls)) 0 @ t,
                 dotted (ls @ [[]]) @ 0 # replicate (254 - length (wire ls)) 0))"
proof -
  let ?W = "length (wire ls)"
  have ok: "\<forall>l \<in> set (ls @ [[]]). 0 \<notin> set l \<and> 46 \<notin> set l"
    using assms(1) by (auto simp: name_ok_def label_ok_def)
  have host: "replicate (255 - ?W) (0 :: byte) = 0 # replicate (254 - ?W) 0"
    using assms(2) by (simp add: Suc_diff_le flip: replicate_Suc)
  have "Suc ?W + Suc (498 - ?W) = 500" and "Suc (498 - ?W) = 499 - ?W"
    using assms(2) by simp_all
  then have buf: "replicate 500 (0 :: byte) = replicate (Suc ?W) 0 @ 0 # replicate (498 - ?W) 0"
    and tail: "0 # replicate (498 - ?W) (0 :: byte) = replicate (499 - ?W) 0"
    by (metis replicate_Suc replicate_add, metis replicate_Suc)
  show ?thesis
    using ChangetoDnsNameFormat_wire [of "ls @ [[]]" "dotted ls" "replicate (Suc ?W) 0" bp 0
        "replicate (498 - ?W) 0 @ t" 0 "replicate (254 - ?W) 0", OF ok] assms(3) host buf
    by (simp flip: tail)
qed

lemma prepare_query_upstream:
  assumes "length hdr = 12" and "name_ok ls" and "length (wire ls) \<le> 254"
    and "length (wire ls) \<le> unat nBytes + 2"
    and buffer: "buffer = hdr @ hostname ls @ 0 # r" and "512 \<le> length buffer"
    and "alloc env 1 12 = Some blk" and "12 \<le> length blk"
    and "setsockopt_reuse env = 0" and "0 \<le> setsockopt_timeo env"
  shows "prepare_query env buffer nBytes
    = Inr ([], Some (upstream_query hdr ls @ replicate (495 - length (wire ls)) 0 @ drop 512 buffer))"
proof -
  let ?W = "length (wire ls)"
  have pos: "0 < ?W" using assms(2) by (simp add: name_ok_def)
  have hl: "length (hostname ls) = ?W - 1" by (rule length_hostname)
  obtain y br where r: "r = y # br"
    using assms(1,3,6) hl by (cases r) (auto simp: buffer)
  have nz: "0 \<notin> set (hostname ls)" "0 \<notin> set (dotted (ls @ [[]]))"
    using name_ok_zero [OF assms(2)] zero_notin_hostname zero_notin_dotted [of "ls @ [[]]"] by auto
  have copy: "copy_qname_loop buffer 12 (replicate MAX_NAME_LEN 0) 0 nBytes
    = Inr (Some (hostname ls @ 0 # replicate (256 - ?W) 0))"
    using copy_to_cleared_name [OF nz(1), of nBytes hdr r] assms(1,3,4) hl pos
    by (simp add: buffer Suc_diff_le)
  let ?b1 = "hdr @ wire ls @ 0 # br"
  have conv1: "ChangetoDnsNameFormat (Some (buffer, 12)) (Some (hostname ls @ 0 # replicate (256 - ?W) 0))
    = Inr (Some (?b1, dotted ls @ 0 # replicate (255 - ?W) 0))"
    using first_conversion [OF assms(2,3), of hdr y br] assms(1) by (simp add: buffer r)
  have len: "length ?b1 = length buffer" using hl pos by (simp add: buffer r)
  have tail: "drop 512 ?b1 = drop 512 buffer"
  proof -
    have "?W = length (hostname ls) + 1" using hl pos by simp
    then have "drop 512 ((hdr @ wire ls @ [0]) @ br) = drop 512 ((hdr @ hostname ls @ [0, y]) @ br)"
      using assms(1,3) by (subst (1 2) drop_append) simp
    then show ?thesis by (simp add: buffer r)
  qed
  have clear: "wr_block ?b1 0 (replicate 512 0) = Inr (replicate 512 0 @ drop 512 buffer)"
    using assms(6) len tail by (simp add: wr_block_def)
  have save: "rd_block ?b1 0 12 = Inr hdr" "wr_block blk 0 hdr = Inr (hdr @ drop 12 blk)"
    "rd_block (hdr @ drop 12 blk) 0 8 = Inr (take 8 hdr)"
    using assms(1,8) by (simp_all add: rd_block_def wr_block_def)
  have "replicate 512 (0 :: byte) = replicate 8 0 @ replicate 4 0 @ replicate 500 0"
    by (simp flip: replicate_add)
  then have part: "wr_block (replicate 512 0 @ drop 512 buffer) 0 (take 8 hdr)
    = Inr ((take 8 hdr @ replicate 4 0) @ replicate 500 0 @ drop 512 buffer)"
    using assms(1) wr_block_0 [of "replicate 8 0" "take 8 hdr"] by simp
  have "length (take 8 hdr @ replicate 4 0) = 12" using assms(1) by simp
  note conv2 = second_conversion [OF assms(2,3) this, of "drop 512 buffer"]
  have "replicate (499 - ?W) (0 :: byte) = replicate 4 0 @ replicate (495 - ?W) 0"
    using assms(3) by (simp flip: replicate_add)
  then have quest: "put_question ((take 8 hdr @ replicate 4 0) @ wire ls @ 0 #
      replicate (499 - ?W) 0 @ drop 512 buffer) (12 + (?W + 1))
    = Inr (upstream_query hdr ls @ replicate (495 - ?W) 0 @ drop 512 buffer)"
    using put_question_at [of "replicate 4 0" "12 + (?W + 1)" "take 8 hdr @ replicate 4 0 @ wire ls @ [0]"]
      assms(1) by (simp add: upstream_query_def)
  have "strlen_at (dotted (ls @ [[]]) @ 0 # q) 0 = Inr (?W + 1)" for q
    using strlen_at_0 [OF nz(2)] by simp
  with copy conv1 save clear part conv2 quest assms(7,9,10) show ?thesis
    by (simp add: prepare_query_def verify_and_copy_qname_def dns_consts)
qed

section \<open>Decoding of compressed names\<close>

text \<open>Bytes that the decoder copies: neither the terminator nor the start of a pointer.\<close>

definition plain_bytes :: "byte list \<Rightarrow> bool" where
  "plain_bytes s \<longleftrightarrow> (\<forall>b \<in> set s. b \<noteq> 0 \<and> unat b < 192)"

definition pointer_target :: "byte \<Rightarrow> byte \<Rightarrow> nat" where
  "pointer_target c c' = unat c * 256 + unat c' - 49152"

lemma plain_bytes_append [simp]: "plain_bytes (s @ t) \<longleftrightarrow> plain_bytes s \<and> plain_bytes t"
  by (auto simp: plain_bytes_def)

lemma uncompress_loop_bytes:
  assumes "plain_bytes s" and "length mid = length s"
  shows "uncompress_loop (bp @ s @ br) (length bp) (np @ mid @ nr) (length np) j c
    = uncompress_loop (bp @ s @ br) (length bp + length s) (np @ s @ nr) (length np + length s) j
        (if j then c else c + length s)"
  using assms
proof (induction s arbitrary: bp np mid c)
  case (Cons b s)
  then obtain m mid' where mid: "mid = m # mid'" and len: "length mid' = length s"
    by (cases mid) auto
  have b: "b \<noteq> 0" "\<not> 192 \<le> unat b" "plain_bytes s" using Cons.prems by (auto simp: plain_bytes_def)
  have "uncompress_loop (bp @ (b # s) @ br) (length bp) (np @ mid @ nr) (length np) j c
    = uncompress_loop ((bp @ [b]) @ s @ br) (length (bp @ [b])) ((np @ [b]) @ mid' @ nr)
        (length (np @ [b])) j (if j then c else c + 1)"
    using b by (subst uncompress_loop.simps) (simp add: mid)
  then show ?case
    using Cons.IH [OF b(3) len, of "bp @ [b]" "np @ [b]" "if j then c else c + 1"] by simp
qed simp

lemma uncompress_loop_end:
  "rd buf r = Inr 0 \<Longrightarrow> uncompress_loop buf r name p j c = Some (Inr (name, p, j, c))"
  by (subst uncompress_loop.simps) simp

lemma uncompress_loop_pointer:
  assumes "rd buf r = Inr x" and "rd buf (r + 1) = Inr y" and "192 \<le> unat x"
  shows "uncompress_loop buf r name p j c = uncompress_loop buf (pointer_target x y) name p True c"
  using assms by (subst uncompress_loop.simps) (auto simp: pointer_target_def MAX_NAME_LEN_def)

text \<open>What happens after the loop: terminator and conversion to dotted form.\<close>

lemma uncompress_finish:
  assumes "name_ok ls" and "length (wire ls) < length blk"
  shows "bindE (wr (wire ls @ drop (length (wire ls)) blk) (length (wire ls)) 0) (to_dotted uint)
    = Inr (hostname ls @ 0 # 0 # drop (Suc (length (wire ls))) blk)"
proof -
  have "drop (length (wire ls)) blk = blk ! length (wire ls) # drop (Suc (length (wire ls))) blk"
    using assms(2) by (rule Cons_nth_drop_Suc [symmetric])
  moreover have "to_dotted uint (wire ls @ 0 # q) = Inr (hostname ls @ 0 # 0 # q)" for q
    using assms(1) by (intro to_dotted_wire) (auto simp: name_ok_def uint_label_length)
  ultimately show ?thesis by simp
qed

lemma uncompress_name_pointer:
  assumes buf1: "buffer = xs @ wire ls1 @ x # y # ys" and "192 \<le> unat x"
    and buf2: "buffer = us @ wire ls2 @ 0 # vs" and "length us = pointer_target x y"
    and "name_ok (ls1 @ ls2)" and "plain_bytes (wire (ls1 @ ls2))"
    and "length (wire (ls1 @ ls2)) < length blk"
  shows "uncompress_name (Some blk) buffer (length xs)
    = Some (Inr (hostname (ls1 @ ls2) @ 0 # 0 # drop (Suc (length (wire (ls1 @ ls2)))) blk,
                 length (wire ls1) + 2))"
proof -
  let ?w1 = "wire ls1" and ?w2 = "wire ls2"
  obtain z zs where blk: "blk = z # zs" using assms(7) by (cases blk) auto
  define name where "name = (0 :: byte) # zs"
  have drop: "drop (Suc n) name = drop (Suc n) blk" "length name = length blk" for n
    by (simp_all add: name_def blk)
  define m1 m2 t where "m1 = take (length ?w1) name"
    and "m2 = take (length ?w2) (drop (length ?w1) name)"
    and "t = drop (length ?w1 + length ?w2) name"
  have name: "length m1 = length ?w1" "length m2 = length ?w2" "name = m1 @ m2 @ t"
    using assms(7) drop(2) unfolding m1_def m2_def t_def
    by (simp, simp, metis add.commute append_take_drop_id drop_drop)
  have "uncompress_loop buffer (length xs) name 0 False 1
    = uncompress_loop buffer (length xs + length ?w1) (?w1 @ m2 @ t) (length ?w1) False (1 + length ?w1)"
    using uncompress_loop_bytes [of ?w1 m1 xs "x # y # ys" "[]" "m2 @ t" False 1] assms(6) name
    by (simp flip: buf1)
  also have "\<dots> = uncompress_loop buffer (length us) (?w1 @ m2 @ t) (length ?w1) True (1 + length ?w1)"
    using rd_at_length [of "xs @ ?w1" x "y # ys"] rd_at_length [of "xs @ ?w1 @ [x]" y ys] assms(2,4)
    by (intro uncompress_loop_pointer [where x = x and y = y, folded assms(4), of buffer])
      (simp_all add: buf1)
  also have "\<dots> = uncompress_loop buffer (length us + length ?w2) (wire (ls1 @ ls2) @ t)
      (length (wire (ls1 @ ls2))) True (1 + length ?w1)"
    using uncompress_loop_bytes [of ?w2 m2 us "0 # vs" ?w1 t True "1 + length ?w1"] assms(6) name
    by (simp flip: buf2)
  also have "\<dots> = Some (Inr (wire (ls1 @ ls2) @ t, length (wire (ls1 @ ls2)), True, 1 + length ?w1))"
    using rd_at_length [of "us @ ?w2" 0 vs] by (intro uncompress_loop_end) (simp add: buf2)
  finally have loop: "uncompress_loop buffer (length xs) name 0 False 1
    = Some (Inr (wire (ls1 @ ls2) @ t, length (wire (ls1 @ ls2)), True, 1 + length ?w1))" .
  have fin: "bindE (wr (wire (ls1 @ ls2) @ t) (length (wire (ls1 @ ls2))) 0) (to_dotted uint)
    = Inr (hostname (ls1 @ ls2) @ 0 # 0 # drop (Suc (length (wire (ls1 @ ls2)))) blk)"
    using uncompress_finish [OF assms(5), of name] assms(7) drop by (simp add: t_def)
  have "wr blk 0 0 = Inr name" by (simp add: blk name_def wr_def)
  then show ?thesis
    using loop fin by (auto simp: uncompress_name_def bindE_eq_Inr)
qed

text \<open>A set of buffer positions that all hold pointers into the set: the decoder, once there,
  never returns.\<close>

definition pointer_cycle :: "byte list \<Rightarrow> nat set \<Rightarrow> bool" where
  "pointer_cycle buf S \<longleftrightarrow>
     (\<forall>r \<in> S. r + 1 < length buf \<and> 192 \<le> unat (buf ! r) \<and> pointer_target (buf ! r) (buf ! (r + 1)) \<in> S)"

lemma uncompress_loop_cycle:
  assumes "pointer_cycle buf S" and "r \<in> S"
  shows "uncompress_loop buf r name p j c = None"
proof (rule ccontr)
  assume "uncompress_loop buf r name p j c \<noteq> None"
  then obtain res where ret: "uncompress_loop buf r name p j c = Some res" by auto
  have "\<not> (buf = buf \<and> r \<in> S)"
  proof (rule uncompress_loop.raw_induct [where P = "\<lambda>b r name p j c res. \<not> (b = buf \<and> r \<in> S)", OF _ ret])
    fix f b r name p j c res
    assume IH: "\<And>b r name p j c res. f b r name p j c = Some res \<Longrightarrow> \<not> (b = buf \<and> r \<in> S)"
      and eq: "(case rd b r of
        Inl e \<Rightarrow> Some (Inl e)
      | Inr x \<Rightarrow>
          if x = 0 then Some (Inr (name, p, j, c))
          else if 192 \<le> unat x then
            (case rd b (r + 1) of
               Inl e \<Rightarrow> Some (Inl e)
             | Inr c' \<Rightarrow> f b (unat x * MAX_NAME_LEN + unat c' - 49152) name p True c)
          else
            (case wr name p x of
               Inl e \<Rightarrow> Some (Inl e)
             | Inr name' \<Rightarrow> f b (r + 1) name' (p + 1) j (if j then c else c + 1))) = Some res"
    show "\<not> (b = buf \<and> r \<in> S)"
    proof
      assume "b = buf \<and> r \<in> S"
      then have b: "b = buf" and here: "r + 1 < length buf" "192 \<le> unat (buf ! r)"
          "pointer_target (buf ! r) (buf ! (r + 1)) \<in> S"
        using assms(1) by (auto simp: pointer_cycle_def)
      have "buf ! r \<noteq> 0" using here(2) by auto
      then have "f buf (pointer_target (buf ! r) (buf ! (r + 1))) name p True c = Some res"
        using eq b here(1,2) by (simp add: rd_in pointer_target_def MAX_NAME_LEN_def)
      with IH here(3) show False by blast
    qed
  qed
  with assms(2) show False by simp
qed

text \<open>
  \<open>uncompress_name\<close> on a name without pointers: it returns the dotted name and the number of
  bytes the name takes, terminator included.
\<close>

lemma uncompress_name_plain:
  assumes buf: "buffer = xs @ wire ls @ 0 # ys" and "name_ok ls" and "plain_bytes (wire ls)"
    and "length (wire ls) < length blk"
  shows "uncompress_name (Some blk) buffer (length xs)
    = Some (Inr (hostname ls @ 0 # 0 # drop (Suc (length (wire ls))) blk, length (wire ls) + 1))"
proof -
  obtain z zs where blk: "blk = z # zs" using assms(4) by (cases blk) auto
  define name where "name = (0 :: byte) # zs"
  have drop: "drop (Suc n) name = drop (Suc n) blk" "length name = length blk" for n
    by (simp_all add: name_def blk)
  have "uncompress_loop buffer (length xs) name 0 False 1
    = uncompress_loop buffer (length xs + length (wire ls)) (wire ls @ drop (length (wire ls)) name)
        (length (wire ls)) False (1 + length (wire ls))"
    using uncompress_loop_bytes [of "wire ls" "take (length (wire ls)) name" xs "0 # ys" "[]"
        "drop (length (wire ls)) name" False 1] assms(3,4) drop(2)
    by (simp flip: buf)
  also have "\<dots> = Some (Inr (wire ls @ drop (length (wire ls)) name, length (wire ls), False,
      1 + length (wire ls)))"
    using rd_at_length [of "xs @ wire ls" 0 ys] by (intro uncompress_loop_end) (simp add: buf)
  finally have loop: "uncompress_loop buffer (length xs) name 0 False 1 = \<dots>" .
  have "wr blk 0 0 = Inr name" by (simp add: blk name_def wr_def)
  then show ?thesis
    using loop uncompress_finish [OF assms(2), of name] assms(4) drop
    by (auto simp: uncompress_name_def bindE_eq_Inr)
qed

lemma uncompress_name_plain_witness:
  "uncompress_name (Some (replicate 9 7)) ([5] @ wire [[97, 98], [99]] @ 0 # []) (length ([5] :: byte list))
    = Some (Inr (hostname [[97, 98], [99]] @ 0 # 0 # drop (Suc (length (wire [[97, 98], [99]]))) (replicate 9 7),
        length (wire [[97, 98], [99]]) + 1))"
  by (rule uncompress_name_plain) (simp_all add: name_ok_def label_ok_def plain_bytes_def)

section \<open>Answer records\<close>

text \<open>
  Two kinds of answer records, both with a pointer to the name of the question: records of another
  type than A whose data is a name (as \<open>CNAME\<close>), and A records.  The middle six bytes are class
  and time to live.
\<close>

record name_rr =
  nr_type :: "byte list"
  nr_mid :: "byte list"
  nr_len :: "byte list"
  nr_name :: "label list"

definition name_record :: "name_rr \<Rightarrow> byte list" where
  "name_record rec = [192, 12] @ nr_type rec @ nr_mid rec @ nr_len rec @ wire (nr_name rec) @ [0]"

definition name_record_ok :: "name_rr \<Rightarrow> bool" where
  "name_record_ok rec \<longleftrightarrow> length (nr_type rec) = 2 \<and> be16 (nr_type rec ! 0) (nr_type rec ! 1) \<noteq> T_A
     \<and> length (nr_mid rec) = 6 \<and> length (nr_len rec) = 2
     \<and> name_ok (nr_name rec) \<and> plain_bytes (wire (nr_name rec)) \<and> length (wire (nr_name rec)) < 256"

record a_rr =
  ar_mid :: "byte list"
  ar_addr :: "byte list"

definition a_record :: "a_rr \<Rightarrow> byte list" where
  "a_record rec = [192, 12, 0, 1] @ ar_mid rec @ [0, 4] @ ar_addr rec"

definition a_record_ok :: "a_rr \<Rightarrow> bool" where
  "a_record_ok rec \<longleftrightarrow> length (ar_mid rec) = 6 \<and> length (ar_addr rec) = 4"

text \<open>A \<open>malloc\<close> that does not fail: a block of \<open>n\<close> bytes, all of which may be accessed; and
  one that promises no byte more, as the C standard does.\<close>

definition malloc_works :: "up_env \<Rightarrow> bool" where
  "malloc_works env \<longleftrightarrow> (\<forall>k n. \<exists>blk. alloc env k n = Some blk \<and> n \<le> length blk)"

definition malloc_exact :: "up_env \<Rightarrow> bool" where
  "malloc_exact env \<longleftrightarrow> (\<forall>k n. \<exists>blk. alloc env k n = Some blk \<and> length blk = n)"

lemma malloc_worksE:
  assumes "malloc_works env"
  obtains blk where "alloc env k n = Some blk" and "n \<le> length blk"
  using assms by (auto simp: malloc_works_def)

lemma malloc_exactE:
  assumes "malloc_exact env"
  obtains blk where "alloc env k n = Some blk" and "length blk = n"
  using assms by (auto simp: malloc_exact_def)

lemma malloc_exact_works: "malloc_exact env \<Longrightarrow> malloc_works env"
  unfolding malloc_exact_def malloc_works_def by (metis order_refl)

lemma be16_values [simp]: "be16 0 1 = 1" "be16 0 4 = 4"
  by (simp_all add: be16_def word_cat_eq)

text \<open>The name of an answer record: the name of the question, two bytes long.\<close>

lemma answer_name:
  assumes "malloc_works env" and "length hdr = 12" and "name_ok ls" and "plain_bytes (wire ls)"
    and "length (wire ls) < 256" and "buffer = hdr @ wire ls @ 0 # mid @ 192 # 12 # rest"
    and "reader = length (hdr @ wire ls @ 0 # mid)"
  obtains nm where "uncompress_name (alloc env k MAX_NAME_LEN) buffer reader = Some (Inr (nm, 2))"
    and "cstring_at nm 0 = Inr (hostname ls)"
proof -
  obtain blk where blk: "alloc env k MAX_NAME_LEN = Some blk" "MAX_NAME_LEN \<le> length blk"
    using assms(1) by (rule malloc_worksE)
  define nm where "nm = hostname ls @ 0 # 0 # drop (Suc (length (wire ls))) blk"
  have "uncompress_name (Some blk) buffer reader = Some (Inr (nm, 2))"
    using uncompress_name_pointer [of buffer "hdr @ wire ls @ 0 # mid" "[]" 192 12 rest hdr ls
        "mid @ 192 # 12 # rest" blk] assms blk(2)
    by (simp add: pointer_target_def nm_def MAX_NAME_LEN_def)
  moreover have "cstring_at nm 0 = Inr (hostname ls)"
    using zero_notin_hostname [OF name_ok_zero [OF assms(3)]] by (simp add: nm_def)
  ultimately show thesis using that blk(1) by simp
qed

lemma read_rdata_name:
  assumes "malloc_works env" and "name_record_ok rec" and buffer: "buffer = xs @ name_record rec @ ys"
  shows "\<exists>data. read_rdata env buffer i (length xs + 2) (length xs + 12)
      = Some (Inr (data, length xs + length (name_record rec)))"
    and "net16 buffer (length xs + 2) = Inr (be16 (nr_type rec ! 0) (nr_type rec ! 1))"
proof -
  note ok = assms(2) [unfolded name_record_ok_def]
  obtain blk where blk: "alloc env (2 * i + 3) MAX_NAME_LEN = Some blk" "MAX_NAME_LEN \<le> length blk"
    using assms(1) by (rule malloc_worksE)
  obtain t0 t1 where ty: "nr_type rec = [t0, t1]" using ok by (auto simp: numeral_2_eq_2 length_Suc_conv)
  show net: "net16 buffer (length xs + 2) = Inr (be16 (nr_type rec ! 0) (nr_type rec ! 1))"
    using net16_at [of "length xs + 2" "xs @ [192, 12]" t0 t1] by (simp add: buffer name_record_def ty)
  let ?pre = "xs @ [192, 12] @ nr_type rec @ nr_mid rec @ nr_len rec"
  have pre: "length ?pre = length xs + 12" using ok by simp
  obtain data where "uncompress_name (Some blk) buffer (length ?pre) = Some (Inr (data, length (wire (nr_name rec)) + 1))"
    using uncompress_name_plain [of buffer ?pre "nr_name rec" ys blk] ok blk(2)
    by (simp add: buffer name_record_def MAX_NAME_LEN_def)
  then show "\<exists>data. read_rdata env buffer i (length xs + 2) (length xs + 12)
      = Some (Inr (data, length xs + length (name_record rec)))"
    using net blk(1) ok pre by (simp add: read_rdata_def T_A_def name_record_def add.assoc)
qed

text \<open>Name records at the front of the answers are consumed, whatever follows them.\<close>

lemma parse_answers_name_records:
  assumes "malloc_works env" and "length hdr = 12" and "name_ok ls" and "plain_bytes (wire ls)"
    and "length (wire ls) < 256"
    and "\<forall>rec \<in> set recs. name_record_ok rec" and "i + length recs \<le> RECORD_LEN"
    and "buffer = hdr @ wire ls @ 0 # mid @ concat (map name_record recs) @ tail"
    and "reader = length (hdr @ wire ls @ 0 # mid)"
  shows "\<exists>as. (\<forall>n. parse_answers env buffer i (length recs + n) reader acc
        = parse_answers env buffer (i + length recs) n (reader + length (concat (map name_record recs))) (acc @ as))
    \<and> print_answers buffer as = Inr (map (\<lambda>_. Out_answer (hostname ls) None) recs)"
  using assms
proof (induction recs arbitrary: i mid reader acc)
  case (Cons rec recs)
  let ?pre = "hdr @ wire ls @ 0 # mid" and ?l = "length (name_record rec)"
  define rest where "rest = concat (map name_record recs) @ tail"
  have buf: "buffer = ?pre @ name_record rec @ rest" using Cons.prems(8) by (simp add: rest_def)
  have ok: "name_record_ok rec" and i: "i < RECORD_LEN" using Cons.prems(6,7) by simp_all
  obtain nm where nm: "uncompress_name (alloc env (2 * i + 2) MAX_NAME_LEN) buffer reader = Some (Inr (nm, 2))"
    "cstring_at nm 0 = Inr (hostname ls)"
    using answer_name [OF Cons.prems(1-5), of buffer mid "drop 2 (name_record rec) @ rest" reader "2 * i + 2"]
      buf Cons.prems(9) by (auto simp: name_record_def)
  obtain data where data: "read_rdata env buffer i (reader + 2) (reader + 2 + sizeof_R_DATA)
      = Some (Inr (data, reader + ?l))"
    and ty: "net16 buffer (reader + 2) = Inr (be16 (nr_type rec ! 0) (nr_type rec ! 1))"
    using read_rdata_name(1) [OF Cons.prems(1) ok buf, of i] read_rdata_name(2) [OF Cons.prems(1) ok buf]
      Cons.prems(9) by (auto simp: sizeof_R_DATA_def add.commute add.left_commute)
  let ?rr = "\<lparr>rr_name = nm, rr_resource = reader + 2, rr_rdata = data\<rparr>"
  obtain as where IH: "\<And>n. parse_answers env buffer (i + 1) (length recs + n) (reader + ?l) (acc @ [?rr])
        = parse_answers env buffer (i + 1 + length recs) n
            (reader + ?l + length (concat (map name_record recs))) ((acc @ [?rr]) @ as)"
      "print_answers buffer as = Inr (map (\<lambda>_. Out_answer (hostname ls) None) recs)"
    using Cons.IH [of "i + 1" "mid @ name_record rec" "reader + ?l" "acc @ [?rr]"] Cons.prems by auto
  have "print_answers buffer (?rr # as) = Inr (map (\<lambda>_. Out_answer (hostname ls) None) (rec # recs))"
    using ty nm(2) IH(2) ok by (simp add: name_record_ok_def)
  moreover have "parse_answers env buffer i (length (rec # recs) + n) reader acc
    = parse_answers env buffer (i + length (rec # recs)) n
        (reader + length (concat (map name_record (rec # recs)))) (acc @ ?rr # as)" for n
    using nm(1) data i IH(1) [of n] by (simp add: add.assoc)
  ultimately show ?case by blast
qed (auto intro: exI [of _ "[]"])

text \<open>An A record makes the program write past the block of \<open>malloc(data_len)\<close>.\<close>

lemma read_rdata_overflow:
  assumes "net16 buffer res = Inr 1" and "net16 buffer (res + 8) = Inr len"
    and "reader + unat len \<le> length buffer"
    and "alloc env (2 * i + 3) (unat len) = Some blk" and "length blk = unat len"
  shows "read_rdata env buffer i res reader = Some (Inl OutOfBounds)"
  using assms by (simp add: read_rdata_def rd_block_def wr_block_def wr_def)

lemma parse_answers_a_record:
  assumes "malloc_exact env" and "length hdr = 12" and "name_ok ls" and "plain_bytes (wire ls)"
    and "length (wire ls) < 256" and "a_record_ok rec" and "i < RECORD_LEN"
    and buffer: "buffer = hdr @ wire ls @ 0 # mid @ a_record rec @ tail"
    and reader: "reader = length (hdr @ wire ls @ 0 # mid)"
  shows "parse_answers env buffer i (Suc n) reader acc = Some (Inl OutOfBounds)"
proof -
  let ?pre = "hdr @ wire ls @ 0 # mid"
  note ok = assms(6) [unfolded a_record_ok_def]
  obtain nm where nm: "uncompress_name (alloc env (2 * i + 2) MAX_NAME_LEN) buffer reader = Some (Inr (nm, 2))"
    using answer_name [OF malloc_exact_works [OF assms(1)] assms(2-5),
        of buffer mid "drop 2 (a_record rec) @ tail" reader] buffer reader by (auto simp: a_record_def)
  obtain blk where blk: "alloc env (2 * i + 3) 4 = Some blk" "length blk = 4"
    using assms(1) by (rule malloc_exactE)
  have ty: "net16 buffer (reader + 2) = Inr 1"
    using net16_at [of "reader + 2" "?pre @ [192, 12]" 0 1] by (simp add: buffer reader a_record_def)
  have dl: "net16 buffer (reader + 2 + 8) = Inr 4"
    using net16_at [of "reader + 2 + 8" "?pre @ [192, 12, 0, 1] @ ar_mid rec" 0 4] ok
    by (simp add: buffer reader a_record_def)
  have "reader + 2 + sizeof_R_DATA + 4 \<le> length buffer"
    using ok by (simp add: buffer reader a_record_def sizeof_R_DATA_def)
  with ty dl blk have "read_rdata env buffer i (reader + 2) (reader + 2 + sizeof_R_DATA) = Some (Inl OutOfBounds)"
    by (intro read_rdata_overflow [where len = 4]) simp_all
  with nm assms(7) show ?thesis by simp
qed

section \<open>Responses\<close>

text \<open>\<open>handle_response\<close> on a message with a well-formed question, up to the answers.\<close>

definition response_counts :: "byte list \<Rightarrow> dns_event list" where
  "response_counts hdr = [Close_upstream,
     Out_counts (unat (be16 (hdr ! 4) (hdr ! 5))) (unat (be16 (hdr ! 6) (hdr ! 7)))
       (unat (be16 (hdr ! 8) (hdr ! 9))) (unat (be16 (hdr ! 10) (hdr ! 11))),
     Out_answer_count (unat (be16 (hdr ! 6) (hdr ! 7)))]"

lemma handle_response_question:
  assumes "length hdr = 12" and "name_ok ls" and "length (wire ls) < 256"
    and "length (wire ls) \<le> unat nBytes + 1"
    and buffer: "buffer = hdr @ wire ls @ 0 # 0 # 1 # c0 # c1 # tail"
  shows "handle_response env buffer nBytes =
      bindO (parse_answers env buffer 0 (unat (be16 (hdr ! 6) (hdr ! 7))) (length (hdr @ wire ls @ 0 # [0, 1, c0, c1])) [])
        (\<lambda>as. bindO (Some (print_answers buffer as)) (\<lambda>printed. Some (Inr (0, response_counts hdr @ printed))))"
proof -
  have nz: "0 \<notin> set (wire ls)" using assms(2) zero_notin_wire by (auto simp: name_ok_def)
  have verify: "verify_dns_buffer buffer nBytes = Inr 0"
    using verify_dns_buffer_string [OF assms(1) nz assms(3,4), of 0 1] by (simp add: buffer T_A_def)
  have hd: "buffer ! k = hdr ! k" if "k < 12" for k
    using that assms(1) by (simp add: buffer nth_append)
  obtain dns where dns: "load_header buffer = Inr dns"
      "ntohs LittleE (h_q_count dns) = be16 (hdr ! 4) (hdr ! 5)"
      "ntohs LittleE (h_ans_count dns) = be16 (hdr ! 6) (hdr ! 7)"
      "ntohs LittleE (h_auth_count dns) = be16 (hdr ! 8) (hdr ! 9)"
      "ntohs LittleE (h_add_count dns) = be16 (hdr ! 10) (hdr ! 11)"
    using load_header_fields [of buffer] assms(1) hd by (auto simp: buffer)
  have "strlen_at buffer sizeof_DNS_HEADER = Inr (length (wire ls))"
    using strlen_at_length [OF nz, of hdr] assms(1) by (simp add: buffer dns_consts)
  then show ?thesis
    using verify dns assms(1) by (simp add: handle_response_def response_counts_def Let_def dns_consts)
qed

lemma handle_response_name_records:
  assumes "malloc_works env" and "length hdr = 12" and "name_ok ls"
    and "recs = [] \<or> plain_bytes (wire ls)"
    and "length (wire ls) < 256" and "length (wire ls) \<le> unat nBytes + 1"
    and "\<forall>rec \<in> set recs. name_record_ok rec" and "length recs \<le> RECORD_LEN"
    and "unat (be16 (hdr ! 6) (hdr ! 7)) = length recs"
    and buffer: "buffer = hdr @ wire ls @ 0 # 0 # 1 # c0 # c1 # concat (map name_record recs) @ tail"
  shows "handle_response env buffer nBytes
    = Some (Inr (0, response_counts hdr @ map (\<lambda>_. Out_answer (hostname ls) None) recs))"
proof -
  let ?r = "length (hdr @ wire ls @ 0 # [0, 1, c0, c1])"
  obtain as where "parse_answers env buffer 0 (length recs) ?r [] = Some (Inr as)"
    "print_answers buffer as = Inr (map (\<lambda>_. Out_answer (hostname ls) None) recs)"
  proof (cases "recs = []")
    case False
    then obtain as where as: "\<And>n. parse_answers env buffer 0 (length recs + n) ?r []
        = parse_answers env buffer (0 + length recs) n (?r + length (concat (map name_record recs))) ([] @ as)"
      "print_answers buffer as = Inr (map (\<lambda>_. Out_answer (hostname ls) None) recs)"
      using parse_answers_name_records [OF assms(1-3) _ assms(5,7), of 0 buffer "[0, 1, c0, c1]" tail ?r "[]"]
        assms(4,8) buffer by auto
    from as(1) [of 0] as(2) show thesis by (intro that) simp_all
  qed (simp add: that [of "[]"])
  then show ?thesis using handle_response_question [OF assms(2,3,5,6) buffer, of env] assms(9) by simp
qed

section \<open>Properties\<close>

text \<open>
  C7. \<open>verify_dns_buffer\<close> on every message whose name part has a terminator: it refuses the
  message when it gets past the received length (plus one) before it has found the terminator or
  filled its local array, it writes past that array when the name has 256 or more bytes and the
  received length does not stop it, and otherwise it accepts exactly the questions of type A.
\<close>

theorem verify_dns_buffer_accepts:
  assumes "length hdr = 12" and "0 \<notin> set s"
  shows "verify_dns_buffer (hdr @ s @ 0 # a # b # r) buflen =
    (if unat buflen + 1 < min (length s) 256 then Inr (-1)
     else if 256 \<le> length s then Inl OutOfBounds
     else Inr (if be16 a b = T_A then 0 else -1))"
proof (cases "unat buflen + 1 < min (length s) 256")
  case True
  then have "copy_qname_loop (hdr @ s @ 0 # a # b # r) 12 (replicate 256 0) 0 buflen = Inr None"
    using copy_qname_loop_rogue [OF assms(2), of buflen 0 "replicate 256 0" hdr] assms(1) by simp
  with True show ?thesis by (simp add: verify_dns_buffer_def dns_consts)
next
  case False
  show ?thesis
  proof (cases "256 \<le> length s")
    case True
    then have "copy_qname_loop (hdr @ s @ 0 # a # b # r) 12 (replicate 256 0) 0 buflen = Inl OutOfBounds"
      using copy_qname_loop_overflow [OF assms(2), of "replicate 256 0" 0 buflen hdr "0 # a # b # r"] assms(1) False
      by simp
    with True False show ?thesis by (simp add: verify_dns_buffer_def dns_consts)
  next
    case short: False
    with False have "length s < 256" "length s \<le> unat buflen + 1" by auto
    with verify_dns_buffer_string [OF assms this] False short show ?thesis by simp
  qed
qed

lemma verify_dns_buffer_accepts_witness:
  "verify_dns_buffer (replicate 12 0 @ [1, 97] @ 0 # 0 # 28 # [0, 1]) 19 = Inr (-1)
   \<and> verify_dns_buffer (replicate 12 0 @ [1, 97] @ 0 # 0 # 1 # [0, 1]) 19 = Inr 0
   \<and> verify_dns_buffer (replicate 12 0 @ replicate 300 97 @ 0 # 0 # 1 # [0, 1]) 317 = Inl OutOfBounds
   \<and> verify_dns_buffer (replicate 12 0 @ replicate 300 97 @ 0 # 0 # 1 # [0, 1]) 200 = Inr (-1)"
  using verify_dns_buffer_accepts [of "replicate 12 0" "[1, 97]" 0 28 "[0, 1]" 19]
    verify_dns_buffer_accepts [of "replicate 12 0" "[1, 97]" 0 1 "[0, 1]" 19]
    verify_dns_buffer_accepts [of "replicate 12 0" "replicate 300 97" 0 1 "[0, 1]" 317]
    verify_dns_buffer_accepts [of "replicate 12 0" "replicate 300 97" 0 1 "[0, 1]" 200]
  by (simp add: T_A_def be16_def word_cat_eq)

text \<open>
  C8. \<open>uncompress_name\<close> on a compressed name: labels followed by a pointer to a name elsewhere in
  the message give the joined dotted name, and the count is that of the labels and the pointer.
\<close>

theorem uncompress_name_follows_pointer:
  assumes "buffer = xs @ wire ls1 @ x # y # ys" and "192 \<le> unat x"
    and "buffer = us @ wire ls2 @ 0 # vs" and "length us = pointer_target x y"
    and "name_ok (ls1 @ ls2)" and "plain_bytes (wire (ls1 @ ls2))"
    and "length (wire (ls1 @ ls2)) < length blk"
  shows "\<exists>name. uncompress_name (Some blk) buffer (length xs) = Some (Inr (name, length (wire ls1) + 2))
    \<and> cstring_at name 0 = Inr (hostname (ls1 @ ls2))"
  using uncompress_name_pointer [OF assms] zero_notin_hostname [OF name_ok_zero [OF assms(5)]]
  by simp

lemma uncompress_name_follows_pointer_witness:
  "\<exists>name. uncompress_name (Some (replicate 20 7)) ([2, 103, 111, 0, 3, 119, 119, 119, 192, 0] :: byte list) (length ([2, 103, 111, 0] :: byte list))
      = Some (Inr (name, length (wire [[119, 119, 119]]) + 2))
    \<and> cstring_at name 0 = Inr (hostname ([[119, 119, 119]] @ [[103, 111]]))"
  by (rule uncompress_name_follows_pointer [where x = 192 and y = 0 and ys = "[]" and us = "[]"
        and vs = "[3, 119, 119, 119, 192, 0]"])
    (simp_all add: name_ok_def label_ok_def plain_bytes_def pointer_target_def)

text \<open>
  The address of an A record is read as a \<open>long\<close>: four bytes are not enough, and where eight may
  be read the bytes are printed in reversed order.
\<close>

theorem printed_address_cases:
  "printed_address (a # b # c # d # r) = (if length r < 4 then Inl OutOfBounds else Inr [d, c, b, a])"
proof (cases "length r < 4")
  case False
  then obtain e f g h r' where "r = e # f # g # h # r'"
    by (auto simp: numeral_eq_Suc Suc_le_length_iff not_less)
  then show ?thesis by (simp add: printed_address_def rd_block_def store32_ntohl_load32)
qed (simp add: printed_address_def rd_block_def)

end
