(* ===== verification/Dns_Server.thy ===== *)
theory Dns_Server
  imports Dns_Utils
begin

text \<open>
  The DNS server (\<open>sample_dns_server/src/dns_server/server.c\<close>): the libevent callback
  \<open>on_recv\<close>, which serves one client datagram, and the start-up in \<open>main\<close>.  The answers
  of the operating system are the record \<open>server_env\<close>; \<open>stack_addr\<close> and \<open>stack_data\<close> are
  the indeterminate contents of the local variables.  libevent is only told which callback to
  run, so the model of \<open>main\<close> ends with the events that register and start it.
\<close>

section \<open>The callback\<close>

record server_env =
  up :: up_env
  client_datagram :: "(byte list \<times> ipv4) option"
  stack_addr :: ipv4
  stack_data :: qr_data
  udp_limit :: nat

text \<open>\<open>udp_limit\<close> is the largest number of bytes that \<open>sendto\<close> takes for one datagram (65507 over
  IPv4); the kernel refuses more without reading the buffer.\<close>

definition sendto_client :: "nat \<Rightarrow> byte list \<Rightarrow> 32 word \<Rightarrow> ipv4 \<Rightarrow> dns_event cres" where
  "sendto_client limit buffer nBytes addr =
     (if limit < unat nBytes then Inr (Sendto_client_toolong addr)
      else bindE (rd_block buffer 0 (unat nBytes)) (\<lambda>bytes. Inr (Sendto_client bytes addr)))"

text \<open>\<open>strncpy(qname, client_data.domain_name, strlen(...))\<close> and the terminator after it.\<close>

definition put_hostname :: "byte list \<Rightarrow> qr_data \<Rightarrow> byte list cres" where
  "put_hostname buffer cd =
     bindE (cstring_at (domain_name cd) 0) (\<lambda>s.
       bindE (wr_block buffer sizeof_DNS_HEADER s) (\<lambda>buffer'.
         wr buffer' (sizeof_DNS_HEADER + length s) 0))"

text \<open>The third step: what happens with the result of \<open>send_data_to_dns\<close>; \<open>out\<close> holds the
  events so far.\<close>

definition on_recv_reply ::
    "nat \<Rightarrow> qr_data option \<Rightarrow> ipv4 \<Rightarrow> dns_event list \<Rightarrow> int \<times> byte list \<times> 32 word \<times> dns_event list
     \<Rightarrow> dns_event list cres option" where
  "on_recv_reply limit cd addr out = (\<lambda>(st2, buffer, nBytes, out2).
     if st2 \<noteq> 0 then Some (Inr (out @ out2 @ [Free_buffer])) else
     bindO (Some (read_and_print_dns_header (Some buffer) nBytes cd (Some addr))) (\<lambda>(st3, cd3, out3).
     if st3 \<noteq> 0 then Some (Inr (out @ out2 @ out3 @ [Free_buffer])) else
     bindO (Some (sendto_client limit buffer nBytes addr)) (\<lambda>sent.
     Some (Inr (out @ out2 @ out3 @ [sent, Free_buffer])))))"

definition on_recv :: "server_env \<Rightarrow> dns_event list cres option" where
  "on_recv env =
     (case alloc (up env) 0 MAX_BUF_LEN of None \<Rightarrow> Some (Inl NullDeref) | Some blk \<Rightarrow>
     bindO (Some (wr_block blk 0 (replicate sizeof_ptr 0))) (\<lambda>buffer0.
     bindO (Some (recv_into buffer0 (map_option fst (client_datagram env)))) (\<lambda>(buffer1, nBytes).
     if nBytes < 0 then Some (Inr [Free_buffer]) else
     bindO (Some (terminate_buffer buffer1 nBytes)) (\<lambda>buffer2.
     bindO (Some (verify_dns_buffer buffer2 nBytes)) (\<lambda>v.
     if v \<noteq> 0 then Some (Inr [Out_unsupported, Free_buffer]) else
     let addr = (case client_datagram env of Some (_, a) \<Rightarrow> a | None \<Rightarrow> stack_addr env)
     in
     bindO (Some (read_and_print_dns_header (Some buffer2) nBytes (Some (stack_data env)) (Some addr)))
       (\<lambda>(st, cd, out1).
     if st \<noteq> 0 then Some (Inr (Out_request_banner # out1 @ [Free_buffer])) else
     bindO (Some (put_hostname buffer2 (case cd of Some d \<Rightarrow> d | None \<Rightarrow> stack_data env))) (\<lambda>buffer3.
     bindO (send_data_to_dns (up env) buffer3 nBytes)
       (on_recv_reply (udp_limit env) cd addr (Out_request_banner # out1)))))))))"

section \<open>Start-up\<close>






section \<open>Well-formed queries and responses\<close>

text \<open>A query for an A record: header, name, type, and whatever follows (class, an OPT record).\<close>

definition client_query :: "byte list \<Rightarrow> label list \<Rightarrow> byte list \<Rightarrow> byte list" where
  "client_query hdr ls extra = hdr @ wire ls @ 0 # 0 # 1 # extra"

definition query_ok :: "byte list \<Rightarrow> label list \<Rightarrow> byte list \<Rightarrow> bool" where
  "query_ok hdr ls extra \<longleftrightarrow> length hdr = 12 \<and> name_ok ls \<and> length (wire ls) \<le> 254
     \<and> length (client_query hdr ls extra) \<le> 510"

text \<open>A response: header, question, and what follows them.\<close>

definition response :: "byte list \<Rightarrow> label list \<Rightarrow> byte \<Rightarrow> byte \<Rightarrow> byte list \<Rightarrow> byte list" where
  "response hdr ls c0 c1 answers = hdr @ wire ls @ 0 # 0 # 1 # c0 # c1 # answers"

definition response_ok :: "byte list \<Rightarrow> label list \<Rightarrow> byte list \<Rightarrow> bool" where
  "response_ok hdr ls answers \<longleftrightarrow> length hdr = 12 \<and> name_ok ls \<and> plain_bytes (wire ls)
     \<and> length (wire ls) < 256 \<and> length (response hdr ls 0 0 answers) \<le> 510"

text \<open>Answers that are records with names as data, all of which the header announces.\<close>

definition name_answers_ok :: "byte list \<Rightarrow> name_rr list \<Rightarrow> bool" where
  "name_answers_ok hdr recs \<longleftrightarrow> (\<forall>rec \<in> set recs. name_record_ok rec) \<and> length recs \<le> RECORD_LEN
     \<and> unat (be16 (hdr ! 6) (hdr ! 7)) = length recs"

text \<open>What the program prints about a message from an address.\<close>

definition message_report :: "ipv4 \<Rightarrow> byte list \<Rightarrow> label list \<Rightarrow> dns_event list" where
  "message_report addr hdr ls =
     [Out_client_address addr, Out_tid (uint (be16 (hdr ! 0) (hdr ! 1))), Out_domain (hostname ls),
      Out_query_type (if bit (hdr ! 2) 7 then RESPONSE else REQUEST)]"

section \<open>Steps of the callback\<close>

lemma unat_small: "n < 2 ^ 32 \<Longrightarrow> unat (of_nat n :: 32 word) = n"
  by (simp add: unat_of_nat)

lemma unat_small_Suc: "n < 2 ^ 32 - 1 \<Longrightarrow> unat (of_nat n + 1 :: 32 word) = Suc n"
  using unat_small [of "Suc n"] by (simp add: add.commute)

lemma receive_datagram:
  assumes "512 \<le> length b" and "length q \<le> 510"
  shows "\<exists>b' t. recv_into b (Some q) = Inr (b', of_nat (length q))
    \<and> terminate_buffer b' (of_nat (length q)) = Inr (q @ t) \<and> length (q @ t) = length b"
proof -
  let ?n = "length q"
  have recv: "recv_into b (Some q) = Inr (q @ drop ?n b, of_nat ?n)"
    using assms by (simp add: recv_into_def wr_block_def MAX_BUF_LEN_def)
  have split: "drop ?n b = b ! ?n # b ! (?n + 1) # drop (?n + 2) b"
    using assms by (simp add: Cons_nth_drop_Suc)
  have "terminate_buffer (q @ drop ?n b) (of_nat ?n) = Inr (q @ b ! ?n # 0 # drop (?n + 2) b)"
    using wr_at_length [of "q @ [b ! ?n]" _ _ 0] assms unat_small_Suc [of ?n]
    by (simp add: terminate_buffer_def split)
  then show ?thesis using recv assms by fastforce
qed

lemma put_hostname_wire:
  assumes "length hdr = 12" and "name_ok ls"
  shows "put_hostname (hdr @ wire ls @ 0 # r) \<lparr>tid = i, domain_name = hostname ls @ 0 # z, q_type = t\<rparr>
    = Inr (hdr @ hostname ls @ 0 # 0 # r)"
proof -
  have ne: "ls \<noteq> []" and nz: "0 \<notin> set (hostname ls)"
    using assms(2) zero_notin_hostname [OF name_ok_zero] by (auto simp: name_ok_def)
  have len: "length (wire ls) = length (hostname ls) + 1"
    using dotted_hostname [OF ne] length_dotted [of ls] by simp
  define w x where "w = butlast (wire ls)" and "x = last (wire ls)"
  have w: "wire ls = w @ [x]" "length w = length (hostname ls)"
    using ne len by (simp_all add: w_def x_def)
  have "wr_block (hdr @ w @ x # 0 # r) 12 (hostname ls) = Inr (hdr @ hostname ls @ x # 0 # r)"
    using wr_block_at_length [of w "hostname ls" hdr "x # 0 # r"] w(2) assms(1) by simp
  moreover have "wr (hdr @ hostname ls @ x # 0 # r) (12 + length (hostname ls)) 0
    = Inr (hdr @ hostname ls @ 0 # 0 # r)"
    using wr_at_length [of "hdr @ hostname ls" x "0 # r" 0] assms(1) by simp
  ultimately show ?thesis using nz by (simp add: put_hostname_def w(1) dns_consts)
qed

lemma query_datagram_upstream:
  assumes "length hdr = 12" and "name_ok ls"
  shows "query_datagram (upstream_query hdr ls @ r) = Inr (upstream_query hdr ls)"
proof -
  have nz: "0 \<notin> set (wire ls)" using assms(2) zero_notin_wire by (auto simp: name_ok_def)
  have "length (take 8 hdr @ replicate 4 0) = 12" using assms(1) by simp
  then have "strlen_at (upstream_query hdr ls @ r) 12 = Inr (length (wire ls))"
    using strlen_at_length [OF nz, of "take 8 hdr @ replicate 4 0" "[0, 1, 0, 1] @ r"]
    by (simp add: upstream_query_def)
  then show ?thesis
    using length_upstream_query [OF assms(1), of ls]
    by (simp add: query_datagram_def dns_consts rd_block_def)
qed

text \<open>The environment in which the query gets out: memory, socket options, \<open>sendto\<close>.\<close>

definition upstream_works :: "up_env \<Rightarrow> bool" where
  "upstream_works env \<longleftrightarrow> malloc_works env \<and> setsockopt_reuse env = 0 \<and> 0 \<le> setsockopt_timeo env
     \<and> (\<forall>q. 0 \<le> sendto_up env q)"

text \<open>What \<open>send_data_to_dns\<close> does with the answer to its query.\<close>

lemma send_data_to_dns_sends:
  assumes "upstream_works env" and "length hdr = 12" and "name_ok ls" and "length (wire ls) \<le> 254"
    and "length (wire ls) \<le> unat nBytes + 2" and "512 \<le> length (hdr @ hostname ls @ 0 # r)"
  obtains t where "length (upstream_query hdr ls @ t) = length (hdr @ hostname ls @ 0 # r)"
    and "send_data_to_dns env (hdr @ hostname ls @ 0 # r) nBytes
      = receive_response env (upstream_query hdr ls) (upstream_query hdr ls @ t)"
proof -
  let ?b = "hdr @ hostname ls @ 0 # r" and ?q = "upstream_query hdr ls"
  obtain blk where blk: "alloc env 1 12 = Some blk" "12 \<le> length blk"
    using assms(1) by (auto simp: upstream_works_def elim: malloc_worksE)
  define t where "t = replicate (495 - length (wire ls)) 0 @ drop 512 ?b"
  have prep: "prepare_query env ?b nBytes = Inr ([], Some (?q @ t))"
    using prepare_query_upstream [OF assms(2-5) refl assms(6) blk] assms(1)
    by (simp add: upstream_works_def t_def)
  have "length (?q @ t) = length ?b"
    using assms(4,6) length_upstream_query [OF assms(2), of ls] by (simp add: t_def)
  moreover have "\<not> sendto_up env ?q < 0" using assms(1) by (simp add: upstream_works_def not_less)
  ultimately show thesis
    using prep query_datagram_upstream [OF assms(2,3), of t]
    by (intro that [of t]) (simp_all add: send_data_to_dns_def)
qed

definition response_events :: "byte list \<Rightarrow> label list \<Rightarrow> name_rr list \<Rightarrow> dns_event list" where
  "response_events rhdr rls recs = response_counts rhdr @ map (\<lambda>_. Out_answer (hostname rls) None) recs"

text \<open>The response is received whole and its question is accepted; what remains are the answers.\<close>

lemma receive_response_question:
  assumes "response_ok rhdr rls answers" and "512 \<le> length b"
    and "recvfrom_up env q = Some (response rhdr rls c0 c1 answers)"
  obtains u where "receive_response env q b =
      bindO (handle_response env (response rhdr rls c0 c1 answers @ u)
          (of_nat (length (response rhdr rls c0 c1 answers)))) (\<lambda>(status, evs).
        Some (Inr (status, response rhdr rls c0 c1 answers @ u,
          of_nat (length (response rhdr rls c0 c1 answers)), Sendto_upstream q # evs)))"
    and "unat (of_nat (length (response rhdr rls c0 c1 answers)) :: 32 word)
      = length (response rhdr rls c0 c1 answers)"
proof -
  let ?resp = "response rhdr rls c0 c1 answers"
  have rlen: "length ?resp \<le> 510" using assms(1) by (simp add: response_ok_def response_def)
  obtain b' u where "recv_into b (Some ?resp) = Inr (b', of_nat (length ?resp))"
      "terminate_buffer b' (of_nat (length ?resp)) = Inr (?resp @ u)"
    using receive_datagram [OF assms(2) rlen] by auto
  then show thesis
    using rlen assms(3) by (intro that [of u]) (simp_all add: receive_response_def unat_small)
qed

lemma receive_response_name_records:
  assumes "malloc_works env" and "response_ok rhdr rls (concat (map name_record recs) @ extra)"
    and "name_answers_ok rhdr recs" and "512 \<le> length b"
    and "recvfrom_up env q = Some (response rhdr rls c0 c1 (concat (map name_record recs) @ extra))"
  shows "\<exists>t. receive_response env q b
      = Some (Inr (0, response rhdr rls c0 c1 (concat (map name_record recs) @ extra) @ t,
          of_nat (length (response rhdr rls c0 c1 (concat (map name_record recs) @ extra))),
          Sendto_upstream q # response_events rhdr rls recs))"
proof -
  let ?resp = "response rhdr rls c0 c1 (concat (map name_record recs) @ extra)"
  obtain u where u: "receive_response env q b =
      bindO (handle_response env (?resp @ u) (of_nat (length ?resp))) (\<lambda>(status, evs).
        Some (Inr (status, ?resp @ u, of_nat (length ?resp), Sendto_upstream q # evs)))"
    and nb: "unat (of_nat (length ?resp) :: 32 word) = length ?resp"
    by (rule receive_response_question [OF assms(2,4,5)])
  have "handle_response env (?resp @ u) (of_nat (length ?resp)) = Some (Inr (0, response_events rhdr rls recs))"
    unfolding response_events_def using assms(1-3) nb
    by (intro handle_response_name_records [where tail = "extra @ u" and ?c0.0 = c0 and ?c1.0 = c1])
      (auto simp: response_ok_def name_answers_ok_def response_def)
  with u show ?thesis by simp
qed

text \<open>The request side: from the datagram of the client to the call of \<open>send_data_to_dns\<close>.\<close>

lemma on_recv_request:
  assumes "upstream_works (up env)" and "query_ok hdr ls extra"
    and "client_datagram env = Some (client_query hdr ls extra, addr)"
  obtains b cd where "512 \<le> length (upstream_query hdr ls @ b)"
    and "on_recv env =
      bindO (receive_response (up env) (upstream_query hdr ls) (upstream_query hdr ls @ b))
        (on_recv_reply (udp_limit env) (Some cd) addr (Out_request_banner # message_report addr hdr ls))"
proof -
  let ?q = "client_query hdr ls extra"
  have hdr: "length hdr = 12" and ok: "name_ok ls" and W: "length (wire ls) \<le> 254"
    and qlen: "length ?q \<le> 510"
    using assms(2) by (simp_all add: query_ok_def)
  obtain blk where blk: "alloc (up env) 0 512 = Some blk" "512 \<le> length blk"
    using assms(1) by (auto simp: upstream_works_def elim: malloc_worksE)
  define b0 where "b0 = replicate 8 0 @ drop 8 blk"
  have b0: "wr_block blk 0 (replicate 8 0) = Inr b0" "512 \<le> length b0"
    using blk(2) by (simp_all add: wr_block_def b0_def)
  obtain b' t where recv: "recv_into b0 (Some ?q) = Inr (b', of_nat (length ?q))"
      "terminate_buffer b' (of_nat (length ?q)) = Inr (?q @ t)" and len: "length (?q @ t) = length b0"
    using receive_datagram [OF b0(2) qlen] by blast
  have nb: "unat (of_nat (length ?q) :: 32 word) = length ?q" using qlen by (intro unat_small) simp
  have buf: "?q @ t = hdr @ wire ls @ 0 # 0 # 1 # extra @ t" by (simp add: client_query_def)
  have nz: "0 \<notin> set (wire ls)" using ok zero_notin_wire by (auto simp: name_ok_def)
  have verify: "verify_dns_buffer (?q @ t) (of_nat (length ?q)) = Inr 0"
    unfolding buf using verify_dns_buffer_string [OF hdr nz, of "of_nat (length ?q)" 0 1] W nb
    by (simp add: T_A_def client_query_def)
  define cd where "cd = \<lparr>tid = uint (be16 (hdr ! 0) (hdr ! 1)),
    domain_name = hostname ls @ 0 # replicate (256 - length (wire ls)) 0, q_type = REQUEST\<rparr>"
  have report: "read_and_print_dns_header (Some (?q @ t)) (of_nat (length ?q)) (Some (stack_data env))
      (Some addr) = Inr (0, Some cd, message_report addr hdr ls)"
    unfolding buf cd_def message_report_def
    using read_and_print_dns_header_name [OF hdr ok, of "of_nat (length ?q)"] W nb
    by (simp add: client_query_def)
  define r where "r = 0 # 0 # 1 # extra @ t"
  have put: "put_hostname (?q @ t) cd = Inr (hdr @ hostname ls @ 0 # r)"
    unfolding buf cd_def r_def by (rule put_hostname_wire [OF hdr ok])
  have "length (hostname ls) + 1 = length (wire ls)"
    using dotted_hostname [OF name_ok_nonempty [OF ok]] length_dotted [of ls] by simp
  then have long: "512 \<le> length (hdr @ hostname ls @ 0 # r)"
    using len b0(2) by (simp add: client_query_def r_def)
  have "length (wire ls) \<le> unat (of_nat (length ?q) :: 32 word) + 2"
    using nb by (simp add: client_query_def)
  then obtain u where u: "length (upstream_query hdr ls @ u) = length (hdr @ hostname ls @ 0 # r)"
    "send_data_to_dns (up env) (hdr @ hostname ls @ 0 # r) (of_nat (length ?q))
      = receive_response (up env) (upstream_query hdr ls) (upstream_query hdr ls @ u)"
    using send_data_to_dns_sends [OF assms(1) hdr ok W _ long] by blast
  then show thesis
    using blk(1) b0(1) recv verify report put assms(3) long
    by (intro that [of u cd]) (simp_all add: on_recv_def MAX_BUF_LEN_def sizeof_ptr_def)
qed

text \<open>The case of an upstream server that does not answer in time.\<close>

lemma receive_response_timeout:
  assumes "malloc_works env" and "length hdr = 12" and "name_ok ls" and "length (wire ls) \<le> 254"
    and "be16 (hdr ! 6) (hdr ! 7) = 0" and "recvfrom_up env q = None"
    and hdr': "hdr' = 0 # take 7 (tl hdr) @ replicate 4 0"
  shows "receive_response env q (upstream_query hdr ls @ b) = Some (Inr (0,
      hdr' @ wire ls @ 0 # 0 # 1 # 0 # 1 # b, -1, Sendto_upstream q # response_events hdr' ls []))"
proof -
  obtain h t where ht: "hdr = h # t" "length t = 11" using assms(2) by (cases hdr) auto
  have query: "upstream_query hdr ls @ b = h # (take 7 t @ replicate 4 0 @ wire ls @ [0, 0, 1, 0, 1] @ b)"
    by (simp add: upstream_query_def ht(1))
  have fin: "terminate_buffer (upstream_query hdr ls @ b) (-1) = Inr (hdr' @ wire ls @ 0 # 0 # 1 # 0 # 1 # b)"
    unfolding query by (simp add: terminate_buffer_def wr_def hdr' ht(1))
  have len': "length hdr' = 12" using ht by (simp add: hdr')
  have "hdr' ! 6 = hdr ! 6" "hdr' ! 7 = hdr ! 7"
    using ht by (simp_all add: hdr' nth_Cons' nth_append)
  then have "unat (be16 (hdr' ! 6) (hdr' ! 7)) = 0" using assms(5) by simp
  then have "handle_response env (hdr' @ wire ls @ 0 # 0 # 1 # 0 # 1 # b) (-1)
    = Some (Inr (0, response_events hdr' ls []))"
    unfolding response_events_def using assms(1-4) len'
    by (intro handle_response_name_records [where tail = b and ?c0.0 = 0 and ?c1.0 = 1])
      (simp_all add: unsigned_minus_1_eq_mask mask_eq_exp_minus_1)
  then show ?thesis using fin assms(6) by (simp add: receive_response_def recv_into_def)
qed

lemma recv_datagram_prefix:
  assumes "malloc_works (up env)" and "client_datagram env = Some (q, addr)" and "length q \<le> 510"
  obtains blk b0 b' t where "alloc (up env) 0 512 = Some blk" and "wr_block blk 0 (replicate 8 0) = Inr b0"
    and "recv_into b0 (Some q) = Inr (b', of_nat (length q))"
    and "terminate_buffer b' (of_nat (length q)) = Inr (q @ t)"
    and "unat (of_nat (length q) :: 32 word) = length q"
proof -
  obtain blk where blk: "alloc (up env) 0 512 = Some blk" "512 \<le> length blk"
    using assms(1) by (elim malloc_worksE)
  then have "wr_block blk 0 (replicate 8 0) = Inr (replicate 8 0 @ drop 8 blk)"
    by (simp add: wr_block_def)
  moreover obtain b' t where "recv_into (replicate 8 0 @ drop 8 blk) (Some q) = Inr (b', of_nat (length q))"
      "terminate_buffer b' (of_nat (length q)) = Inr (q @ t)"
    using receive_datagram [OF _ assms(3), of "replicate 8 0 @ drop 8 blk"] blk(2) by auto
  ultimately show thesis using blk(1) assms(3) by (intro that) (auto intro: unat_small)
qed

section \<open>Properties\<close>

text \<open>
  C1. End to end: for a well-formed query for an A record and a well-formed response whose answers
  are up to twenty records of other types with names as data (aliases; none for a name without
  addresses), when memory is available, the socket calls succeed and the kernel takes 510 bytes
  in a datagram, one run of \<open>on_recv\<close> ends without undefined behaviour, sends upstream exactly
  the query with the client's transaction id, flags and name and cleared authority and additional
  counts, relays the response to the client byte for byte, reports both messages and frees the
  buffer.
\<close>

theorem on_recv_relays_response:
  assumes "upstream_works (up env)" and "query_ok hdr ls extra"
    and "client_datagram env = Some (client_query hdr ls extra, addr)"
    and "response_ok rhdr rls (concat (map name_record recs) @ rextra)" and "name_answers_ok rhdr recs"
    and "recvfrom_up (up env) (upstream_query hdr ls)
      = Some (response rhdr rls c0 c1 (concat (map name_record recs) @ rextra))"
    and "510 \<le> udp_limit env"
  shows "on_recv env = Some (Inr
      (Out_request_banner # message_report addr hdr ls
       @ Sendto_upstream (upstream_query hdr ls) # response_events rhdr rls recs
       @ message_report addr rhdr rls
       @ [Sendto_client (response rhdr rls c0 c1 (concat (map name_record recs) @ rextra)) addr, Free_buffer]))"
proof -
  let ?q = "upstream_query hdr ls" and ?resp = "response rhdr rls c0 c1 (concat (map name_record recs) @ rextra)"
  obtain b cd where b: "512 \<le> length (?q @ b)"
    and run: "on_recv env = bindO (receive_response (up env) ?q (?q @ b))
        (on_recv_reply (udp_limit env) (Some cd) addr (Out_request_banner # message_report addr hdr ls))"
    using on_recv_request [OF assms(1-3)] by blast
  have "malloc_works (up env)" using assms(1) by (simp add: upstream_works_def)
  then obtain t where recv: "receive_response (up env) ?q (?q @ b)
    = Some (Inr (0, ?resp @ t, of_nat (length ?resp), Sendto_upstream ?q # response_events rhdr rls recs))"
    using receive_response_name_records [OF _ assms(4,5) b assms(6)] by blast
  note ok = assms(4) [unfolded response_ok_def]
  have rlen: "length ?resp \<le> 510" using ok by (simp add: response_def)
  have rnb: "unat (of_nat (length ?resp) :: 32 word) = length ?resp"
    using rlen by (intro unat_small) simp
  have report: "\<exists>cd'. read_and_print_dns_header (Some (?resp @ t)) (of_nat (length ?resp)) (Some cd)
      (Some addr) = Inr (0, Some cd', message_report addr rhdr rls)"
    using read_and_print_dns_header_name [of rhdr rls "of_nat (length ?resp)" _ cd addr] ok rnb
    by (simp add: message_report_def response_def)
  have "sendto_client (udp_limit env) (?resp @ t) (of_nat (length ?resp)) addr = Inr (Sendto_client ?resp addr)"
    using rlen rnb assms(7) by (simp add: sendto_client_def rd_block_def)
  then show ?thesis using run recv report by (auto simp: on_recv_reply_def)
qed

text \<open>A concrete exchange: \<open>www.go\<close>, an alias for \<open>go\<close>; and one with an address.\<close>

definition demo_env :: "(byte list \<Rightarrow> byte list option) \<Rightarrow> (byte list \<times> ipv4) option \<Rightarrow> server_env" where
  "demo_env answer dgram = \<lparr>
     up = \<lparr>alloc = (\<lambda>k n. Some (replicate n 170)), setsockopt_reuse = 0,
           setsockopt_timeo = 0, sendto_up = (\<lambda>q. int (length q)), recvfrom_up = answer\<rparr>,
     client_datagram = dgram, stack_addr = 0,
     stack_data = \<lparr>tid = 0, domain_name = [], q_type = REQUEST\<rparr>, udp_limit = 65507\<rparr>"

definition demo_hdr :: "byte list" where
  "demo_hdr = [18, 52, 1, 0, 0, 1, 0, 0, 0, 0, 0, 0]"

definition demo_rhdr :: "byte list" where
  "demo_rhdr = [18, 52, 129, 128, 0, 1, 0, 1, 0, 0, 0, 0]"

definition demo_name :: "label list" where
  "demo_name = [[119, 119, 119], [103, 111]]"

definition demo_alias :: name_rr where
  "demo_alias = \<lparr>nr_type = [0, 5], nr_mid = [0, 1, 0, 0, 0, 60], nr_len = [0, 4], nr_name = [[103, 111]]\<rparr>"

definition demo_a :: a_rr where
  "demo_a = \<lparr>ar_mid = [0, 1, 0, 0, 0, 60], ar_addr = [93, 184, 216, 34]\<rparr>"

definition demo_rhdr2 :: "byte list" where
  "demo_rhdr2 = [18, 52, 129, 128, 0, 1, 0, 2, 0, 0, 0, 0]"

lemma demo_facts:
  "length demo_hdr = 12" "length demo_rhdr = 12" "malloc_works (up (demo_env f d))" "malloc_exact (up (demo_env f d))"
  "upstream_works (up (demo_env f d))" "client_datagram (demo_env f d) = d"
  "recvfrom_up (up (demo_env f d)) = f" "udp_limit (demo_env f d) = 65507"
  "query_ok demo_hdr demo_name [0, 1]" "name_ok demo_name"
  "be16 (demo_hdr ! 6) (demo_hdr ! 7) = 0"
proof -
  show n: "name_ok demo_name" by (simp add: demo_name_def name_ok_def label_ok_def)
  show "length demo_hdr = 12" "length demo_rhdr = 12" by (simp_all add: demo_hdr_def demo_rhdr_def)
  show "malloc_exact (up (demo_env f d))" by (simp add: demo_env_def malloc_exact_def)
  then show "malloc_works (up (demo_env f d))" by (rule malloc_exact_works)
  then show "upstream_works (up (demo_env f d))" by (simp add: demo_env_def upstream_works_def)
  show "client_datagram (demo_env f d) = d" "recvfrom_up (up (demo_env f d)) = f" "udp_limit (demo_env f d) = 65507"
    by (simp_all add: demo_env_def)
  show "be16 (demo_hdr ! 6) (demo_hdr ! 7) = 0"
    by (simp add: demo_hdr_def be16_def word_cat_eq)
  show "query_ok demo_hdr demo_name [0, 1]"
    using n by (simp add: query_ok_def client_query_def demo_hdr_def demo_name_def)
qed

lemma demo_responses:
  "response_ok demo_rhdr demo_name (concat (map name_record [demo_alias]) @ [])" "name_answers_ok demo_rhdr [demo_alias]"
  "response_ok demo_rhdr2 demo_name (concat (map name_record [demo_alias]) @ a_record demo_a @ [])"
  "name_record_ok demo_alias" "a_record_ok demo_a" "unat (be16 (demo_rhdr2 ! 6) (demo_rhdr2 ! 7)) = 2"
proof -
  show rec: "name_record_ok demo_alias"
    by (simp add: demo_alias_def name_record_ok_def name_ok_def label_ok_def plain_bytes_def be16_def
        word_cat_eq T_A_def)
  then show "name_answers_ok demo_rhdr [demo_alias]"
    by (simp add: name_answers_ok_def demo_rhdr_def RECORD_LEN_def)
  show "a_record_ok demo_a" by (simp add: demo_a_def a_record_ok_def)
  show "unat (be16 (demo_rhdr2 ! 6) (demo_rhdr2 ! 7)) = 2" by (simp add: demo_rhdr2_def be16_def word_cat_eq)
  show "response_ok demo_rhdr demo_name (concat (map name_record [demo_alias]) @ [])"
    "response_ok demo_rhdr2 demo_name (concat (map name_record [demo_alias]) @ a_record demo_a @ [])"
    using demo_facts(10) by (simp_all add: response_ok_def response_def demo_rhdr_def demo_rhdr2_def
        demo_name_def demo_alias_def demo_a_def name_record_def a_record_def plain_bytes_def)
qed

lemma on_recv_relays_response_witness:
  "on_recv (demo_env (\<lambda>q. Some (response demo_rhdr demo_name 0 1 (concat (map name_record [demo_alias]) @ [])))
      (Some (client_query demo_hdr demo_name [0, 1], 7)))
    = Some (Inr
      (Out_request_banner # message_report 7 demo_hdr demo_name
       @ Sendto_upstream (upstream_query demo_hdr demo_name)
         # response_events demo_rhdr demo_name [demo_alias]
       @ message_report 7 demo_rhdr demo_name
       @ [Sendto_client (response demo_rhdr demo_name 0 1 (concat (map name_record [demo_alias]) @ [])) 7,
          Free_buffer]))"
  by (rule on_recv_relays_response [where extra = "[0, 1]"]) (rule demo_facts demo_responses | simp add: demo_facts)+

text \<open>
  C31. An A record in the answers is fatal, for a well-formed query and response, when memory is
  available and the socket calls succeed: after up to nineteen records with names as data, the
  first A record makes the program write one byte past the block of \<open>malloc(data_len)\<close>, when
  the allocator gives exactly the bytes asked for, which is all that C promises; so no response with an address for the name,
  which is what the query is for, is relayed without undefined behaviour.
\<close>

theorem on_recv_a_answer_overflows:
  assumes "upstream_works (up env)" and "malloc_exact (up env)" and "query_ok hdr ls extra"
    and "client_datagram env = Some (client_query hdr ls extra, addr)"
    and "response_ok rhdr rls (concat (map name_record recs) @ a_record rec @ rextra)"
    and "\<forall>rec \<in> set recs. name_record_ok rec" and "length recs < RECORD_LEN" and "a_record_ok rec"
    and "length recs < unat (be16 (rhdr ! 6) (rhdr ! 7))"
    and "recvfrom_up (up env) (upstream_query hdr ls)
      = Some (response rhdr rls c0 c1 (concat (map name_record recs) @ a_record rec @ rextra))"
  shows "on_recv env = Some (Inl OutOfBounds)"
proof -
  let ?q = "upstream_query hdr ls"
  let ?resp = "response rhdr rls c0 c1 (concat (map name_record recs) @ a_record rec @ rextra)"
  let ?r = "length (rhdr @ wire rls @ 0 # [0, 1, c0, c1])"
  obtain b cd where b: "512 \<le> length (?q @ b)"
    and run: "on_recv env = bindO (receive_response (up env) ?q (?q @ b))
        (on_recv_reply (udp_limit env) (Some cd) addr (Out_request_banner # message_report addr hdr ls))"
    using on_recv_request [OF assms(1,3,4)] by blast
  obtain u where u: "receive_response (up env) ?q (?q @ b) =
      bindO (handle_response (up env) (?resp @ u) (of_nat (length ?resp))) (\<lambda>(status, evs).
        Some (Inr (status, ?resp @ u, of_nat (length ?resp), Sendto_upstream ?q # evs)))"
    and nb: "unat (of_nat (length ?resp) :: 32 word) = length ?resp"
    by (rule receive_response_question [OF assms(5) b assms(10)])
  have ok: "length rhdr = 12" "name_ok rls" "plain_bytes (wire rls)" "length (wire rls) < 256"
    using assms(5) by (simp_all add: response_ok_def)
  obtain n where n: "unat (be16 (rhdr ! 6) (rhdr ! 7)) = length recs + Suc n"
    using assms(9) by (auto dest: less_imp_Suc_add)
  have buf: "?resp @ u = rhdr @ wire rls @ 0 # [0, 1, c0, c1] @ concat (map name_record recs) @ (a_record rec @ rextra @ u)"
    by (simp add: response_def)
  have "0 + length recs \<le> RECORD_LEN" using assms(7) by simp
  then obtain as where "\<forall>n. parse_answers (up env) (?resp @ u) 0 (length recs + n) ?r []
      = parse_answers (up env) (?resp @ u) (0 + length recs) n (?r + length (concat (map name_record recs))) ([] @ as)"
    using parse_answers_name_records [OF malloc_exact_works [OF assms(2)] ok assms(6) _ buf refl, of 0 "[]"] by blast
  then have "parse_answers (up env) (?resp @ u) 0 (length recs + Suc n) ?r []
      = parse_answers (up env) (?resp @ u) (0 + length recs) (Suc n) (?r + length (concat (map name_record recs))) ([] @ as)"
    by blast
  also have "\<dots> = Some (Inl OutOfBounds)"
    using assms(7) by (intro parse_answers_a_record [OF assms(2) ok assms(8), of _ _ "[0, 1, c0, c1] @ concat (map name_record recs)"
          "rextra @ u"]) (simp_all add: response_def)
  finally have "handle_response (up env) (?resp @ u) (of_nat (length ?resp)) = Some (Inl OutOfBounds)"
    using handle_response_question [OF ok(1,2,4), of "of_nat (length ?resp)" "?resp @ u" c0 c1 _ "up env"] nb n
    by (simp add: response_def)
  with run u show ?thesis by simp
qed

lemma on_recv_a_answer_overflows_witness:
  "on_recv (demo_env (\<lambda>q. Some (response demo_rhdr2 demo_name 0 1
        (concat (map name_record [demo_alias]) @ a_record demo_a @ [])))
      (Some (client_query demo_hdr demo_name [0, 1], 7))) = Some (Inl OutOfBounds)"
  by (rule on_recv_a_answer_overflows [where extra = "[0, 1]"])
    (rule demo_facts demo_responses | simp add: demo_facts demo_responses RECORD_LEN_def)+

text \<open>
  C2. For a well-formed query that announces no answers, when the upstream server does not answer
  but memory is available and the other calls succeed: \<open>recvfrom\<close> returns -1, but the result is kept in
  an unsigned integer and the error branch is not taken: the terminator overwrites the first
  byte of the transaction id, the program takes its own query for the response, reports it, and
  ends with a send of 4294967295 bytes, which the kernel refuses for any smaller limit.
\<close>

theorem on_recv_upstream_timeout:
  assumes "upstream_works (up env)" and "query_ok hdr ls extra"
    and "client_datagram env = Some (client_query hdr ls extra, addr)"
    and "be16 (hdr ! 6) (hdr ! 7) = 0" and "recvfrom_up (up env) (upstream_query hdr ls) = None"
    and "hdr' = 0 # take 7 (tl hdr) @ replicate 4 0" and "udp_limit env < 2 ^ 32 - 1"
  shows "on_recv env = Some (Inr
      (Out_request_banner # message_report addr hdr ls
       @ Sendto_upstream (upstream_query hdr ls) # response_events hdr' ls []
       @ message_report addr hdr' ls @ [Sendto_client_toolong addr, Free_buffer]))"
proof -
  let ?q = "upstream_query hdr ls"
  have ok: "length hdr = 12" "name_ok ls" "length (wire ls) \<le> 254" and "malloc_works (up env)"
    using assms(1,2) by (simp_all add: query_ok_def upstream_works_def)
  obtain b cd where run: "on_recv env = bindO (receive_response (up env) ?q (?q @ b))
        (on_recv_reply (udp_limit env) (Some cd) addr (Out_request_banner # message_report addr hdr ls))"
    using on_recv_request [OF assms(1-3)] by blast
  have recv: "receive_response (up env) ?q (?q @ b) = Some (Inr (0,
      hdr' @ wire ls @ 0 # 0 # 1 # 0 # 1 # b, -1, Sendto_upstream ?q # response_events hdr' ls []))"
    by (rule receive_response_timeout) fact+
  have max: "unat (-1 :: 32 word) = 4294967295"
    by (simp add: unsigned_minus_1_eq_mask mask_eq_exp_minus_1)
  have "length hdr' = 12" using ok(1) assms(6) by simp
  then have "\<exists>cd'. read_and_print_dns_header (Some (hdr' @ wire ls @ 0 # 0 # 1 # 0 # 1 # b)) (-1)
      (Some cd) (Some addr) = Inr (0, Some cd', message_report addr hdr' ls)"
    using read_and_print_dns_header_name [of hdr' ls "-1" _ cd addr] ok max
    by (simp add: message_report_def)
  then show ?thesis
    using run recv max assms(7) by (auto simp: on_recv_reply_def sendto_client_def)
qed

lemma on_recv_upstream_timeout_witness:
  "on_recv (demo_env (\<lambda>q. None) (Some (client_query demo_hdr demo_name [0, 1], 7)))
    = Some (Inr
      (Out_request_banner # message_report 7 demo_hdr demo_name
       @ Sendto_upstream (upstream_query demo_hdr demo_name)
         # response_events (0 # take 7 (tl demo_hdr) @ replicate 4 0) demo_name []
       @ message_report 7 (0 # take 7 (tl demo_hdr) @ replicate 4 0) demo_name
       @ [Sendto_client_toolong 7, Free_buffer]))"
  by (rule on_recv_upstream_timeout [where extra = "[0, 1]"])
    (simp_all add: demo_facts)

text \<open>
  The branch of \<open>on_recv\<close> for a failed \<open>recvfrom\<close> (free the buffer, return) is never taken,
  whatever the environment answers.
\<close>

theorem on_recv_error_branch_dead: "on_recv env \<noteq> Some (Inr [Free_buffer])"
  by (auto simp: on_recv_def on_recv_reply_def Let_def bindO_eq_Some_Inr
      split: option.splits if_splits)

text \<open>
  C3. A datagram whose name part has 256 or more bytes without a terminator makes
  \<open>verify_dns_buffer\<close> write past the end of its local array of 256 bytes: the length test compares
  the index with the length of the datagram, not of the array.
\<close>

theorem on_recv_long_name_overflow:
  assumes "malloc_works (up env)" and "client_datagram env = Some (hdr @ s @ r, addr)"
    and "length hdr = 12" and "0 \<notin> set s" and "256 \<le> length s" and "length (hdr @ s @ r) \<le> 510"
  shows "on_recv env = Some (Inl OutOfBounds)"
proof -
  let ?q = "hdr @ s @ r"
  obtain blk b0 b' t where recv: "alloc (up env) 0 512 = Some blk" "wr_block blk 0 (replicate 8 0) = Inr b0"
      "recv_into b0 (Some ?q) = Inr (b', of_nat (length ?q))"
      "terminate_buffer b' (of_nat (length ?q)) = Inr (?q @ t)"
    and nb: "unat (of_nat (length ?q) :: 32 word) = length ?q"
    by (rule recv_datagram_prefix [OF assms(1,2,6)])
  have "verify_dns_buffer (?q @ t) (of_nat (length ?q)) = Inl OutOfBounds"
    using copy_qname_loop_overflow [OF assms(4), of "replicate 256 0" 0 "of_nat (length ?q)" hdr "r @ t"]
      assms(3,5) nb
    by (simp add: verify_dns_buffer_def dns_consts)
  then show ?thesis
    using recv assms(2) by (simp add: on_recv_def MAX_BUF_LEN_def sizeof_ptr_def)
qed

lemma on_recv_long_name_overflow_witness:
  "on_recv (demo_env (\<lambda>q. None) (Some (demo_hdr @ replicate 256 97 @ [], 7))) = Some (Inl OutOfBounds)"
  by (rule on_recv_long_name_overflow [where s = "replicate 256 97" and r = "[]" and hdr = demo_hdr])
    (simp_all only: demo_facts length_append length_replicate set_replicate_conv_if, simp_all)

text \<open>
  A query for the root name (an empty QNAME) of type A passes \<open>verify_dns_buffer\<close> and then
  makes \<open>read_and_print_dns_header\<close> write \<open>domain_name[-1]\<close>.
\<close>

theorem on_recv_root_query:
  assumes "malloc_works (up env)" and "client_datagram env = Some (hdr @ 0 # 0 # 1 # r, addr)"
    and "length hdr = 12" and "length (hdr @ 0 # 0 # 1 # r) \<le> 510"
  shows "on_recv env = Some (Inl OutOfBounds)"
proof -
  let ?q = "hdr @ 0 # 0 # 1 # r"
  obtain blk b0 b' t where recv: "alloc (up env) 0 512 = Some blk" "wr_block blk 0 (replicate 8 0) = Inr b0"
      "recv_into b0 (Some ?q) = Inr (b', of_nat (length ?q))"
      "terminate_buffer b' (of_nat (length ?q)) = Inr (?q @ t)"
    by (rule recv_datagram_prefix [OF assms(1,2,4)])
  have verify: "verify_dns_buffer (?q @ t) (of_nat (length ?q)) = Inr 0"
    using verify_dns_buffer_string [OF assms(3), of "[]" "of_nat (length ?q)" 0 1 "r @ t"]
    by (simp add: T_A_def)
  have copy: "copy_qname_loop (?q @ t) 12 (replicate MAX_NAME_LEN 0) 0 (of_nat (length ?q))
    = Inr (Some (0 # replicate 255 0))"
    using copy_to_cleared_name [of "[]" "of_nat (length ?q)" hdr "0 # 1 # r @ t"] assms(3) by simp
  obtain dns where "load_header (?q @ t) = Inr dns"
    using load_header_fields [of "?q @ t"] assms(3) by auto
  then have "read_and_print_dns_header (Some (?q @ t)) (of_nat (length ?q)) (Some (stack_data env))
      (Some addr) = Inl OutOfBounds"
    using copy
    by (simp add: read_and_print_dns_header_def verify_and_copy_qname_def to_dotted_empty
        sizeof_DNS_HEADER_def Let_def)
  then show ?thesis
    using recv verify assms(2) by (simp add: on_recv_def MAX_BUF_LEN_def sizeof_ptr_def)
qed

lemma on_recv_root_query_witness:
  "on_recv (demo_env (\<lambda>q. None) (Some (demo_hdr @ 0 # 0 # 1 # [0, 1], 7))) = Some (Inl OutOfBounds)"
  by (rule on_recv_root_query [where r = "[0, 1]" and hdr = demo_hdr])
    (simp_all add: demo_facts)

text \<open>
  C4. A response whose first answer record has a name that is a compression pointer to itself
  is never finished with: \<open>on_recv\<close> does not return, so the single-threaded server stops serving.
\<close>

theorem on_recv_pointer_loop_hangs:
  assumes "upstream_works (up env)" and "query_ok hdr ls extra"
    and "client_datagram env = Some (client_query hdr ls extra, addr)"
    and resp: "resp = rhdr @ wire rls @ 0 # 0 # 1 # c0 # c1 # p0 # p1 # rest" and "length resp \<le> 510"
    and "length rhdr = 12" and "name_ok rls" and "length (wire rls) < 256"
    and "be16 (rhdr ! 6) (rhdr ! 7) \<noteq> 0"
    and "192 \<le> unat p0" and "pointer_target p0 p1 = 17 + length (wire rls)"
    and "recvfrom_up (up env) (upstream_query hdr ls) = Some resp"
  shows "on_recv env = None"
proof -
  let ?q = "upstream_query hdr ls" and ?k = "17 + length (wire rls)"
  obtain b cd where b: "512 \<le> length (?q @ b)"
    and run: "on_recv env = bindO (receive_response (up env) ?q (?q @ b))
        (on_recv_reply (udp_limit env) (Some cd) addr (Out_request_banner # message_report addr hdr ls))"
    using on_recv_request [OF assms(1-3)] by blast
  obtain b' t where recv: "recv_into (?q @ b) (Some resp) = Inr (b', of_nat (length resp))"
      "terminate_buffer b' (of_nat (length resp)) = Inr (resp @ t)"
    using receive_datagram [OF b assms(5)] by auto
  have nb: "unat (of_nat (length resp) :: 32 word) = length resp"
    using assms(5) by (intro unat_small) simp
  have nz: "0 \<notin> set (wire rls)" using assms(7) zero_notin_wire by (auto simp: name_ok_def)
  have verify: "verify_dns_buffer (resp @ t) (of_nat (length resp)) = Inr 0"
    using verify_dns_buffer_string [OF assms(6) nz assms(8), of "of_nat (length resp)" 0 1] nb
    by (simp add: resp T_A_def)
  obtain dns where dns: "load_header (resp @ t) = Inr dns"
      "ntohs LittleE (h_ans_count dns) = be16 (rhdr ! 6) (rhdr ! 7)"
    using load_header_fields [of "resp @ t"] assms(6) by (auto simp: resp nth_append)
  obtain n where n: "unat (be16 (rhdr ! 6) (rhdr ! 7)) = Suc n"
    using assms(9) by (metis not0_implies_Suc unat_eq_zero)
  have at: "(resp @ t) ! ?k = p0" "(resp @ t) ! (?k + 1) = p1" "?k + 1 < length (resp @ t)"
    using assms(6) by (simp_all add: resp nth_append nth_Cons')
  then have "pointer_cycle (resp @ t) {?k}"
    using assms(10,11) by (simp add: pointer_cycle_def)
  then have loop: "uncompress_loop (resp @ t) ?k nm 0 False 1 = None" for nm
    by (rule uncompress_loop_cycle) simp
  have "malloc_works (up env)" using assms(1) by (simp add: upstream_works_def)
  then obtain blk where blk: "alloc (up env) 2 256 = Some blk" "256 \<le> length blk"
    by (elim malloc_worksE)
  then have "wr blk 0 0 = Inr (blk[0 := 0])" by (intro wr_in) linarith
  then have parse: "parse_answers (up env) (resp @ t) 0 (Suc n) ?k [] = None"
    using loop blk(1) by (simp add: uncompress_name_def MAX_NAME_LEN_def numeral_2_eq_2)
  have "strlen_at (resp @ t) sizeof_DNS_HEADER = Inr (length (wire rls))"
    using strlen_at_length [OF nz, of rhdr] assms(6) by (simp add: resp dns_consts)
  then have "handle_response (up env) (resp @ t) (of_nat (length resp)) = None"
    using verify dns parse n
    by (simp add: handle_response_def Let_def sizeof_DNS_HEADER_def sizeof_QUESTION_def)
  then show ?thesis using run recv assms(12) by (simp add: receive_response_def)
qed

lemma on_recv_pointer_loop_hangs_witness:
  "on_recv (demo_env (\<lambda>q. Some (demo_rhdr @ wire demo_name @ 0 # 0 # 1 # 0 # 1 # 192 # 24 # []))
      (Some (client_query demo_hdr demo_name [0, 1], 7))) = None"
  by (rule on_recv_pointer_loop_hangs [where extra = "[0, 1]" and rhdr = demo_rhdr and rls = demo_name
        and ?p0.0 = 192 and ?p1.0 = 24 and rest = "[]" and ?c0.0 = 0 and ?c1.0 = 1])
    (simp_all add: demo_facts, simp_all add: demo_rhdr_def demo_name_def pointer_target_def)


end
