(* ===== verification/Icmp_Checksum.thy ===== *)
theory Icmp_Checksum
  imports C_Prelude
begin

text \<open>
  The internet checksum of the ping programs: \<open>checksum\<close> of \<open>ICMP_ping/myping.c\<close> (the same
  text as in \<open>ICMP_ping/other_mypings/myping_synchronous.c\<close>), which folds the carries twice,
  and \<open>checksum\<close> of \<open>ICMP_ping/other_mypings/ping6_ll.c\<close>, which folds until no carry is left.
  The bytes are read as 16-bit integers of the host, so both take the byte order of the host as
  a parameter.  The locale \<open>internet_checksum\<close> is what a ping program relies on: the value is
  the complement of the one's complement sum.  From it follow, once for both implementations,
  that a receiver computes 0 over a packet that carries its checksum, and that the bytes of the
  checksum do not depend on the byte order of the host.
\<close>

section \<open>The code\<close>

text \<open>The summing loop over the \<open>len\<close> bytes at the pointer; a last single byte is added as it is.\<close>

fun sum_words :: "endian \<Rightarrow> byte list \<Rightarrow> 32 word \<Rightarrow> 32 word" where
  "sum_words en (a # b # bs) s = sum_words en bs (s + ucast (load16 en a b))"
| "sum_words en [a] s = s + ucast a"
| "sum_words en [] s = s"

text \<open>\<open>checksum\<close> of \<open>myping.c\<close> on the bytes it covers.\<close>

definition fold_twice :: "32 word \<Rightarrow> 16 word" where
  "fold_twice s =
     (let s1 = drop_bit 16 s + (s AND 0xFFFF);
          s2 = s1 + drop_bit 16 s1
      in NOT (ucast s2))"

definition checksum :: "endian \<Rightarrow> byte list \<Rightarrow> 16 word" where
  "checksum en bs = fold_twice (sum_words en bs 0)"

text \<open>The call with a pointer and a length: the bytes must be there.\<close>

definition checksum_at :: "endian \<Rightarrow> byte list \<Rightarrow> nat \<Rightarrow> 16 word cres" where
  "checksum_at en mem len = bindE (rd_block mem 0 len) (\<lambda>bs. Inr (checksum en bs))"

text \<open>The folding loop of \<open>ping6_ll.c\<close>.\<close>

lemma unat_fold_step:
  "unat ((s AND 0xFFFF) + drop_bit 16 s) = unat s mod 65536 + unat s div 65536" for s :: "32 word"
proof -
  have m: "s AND 0xFFFF = take_bit 16 s" by (simp add: take_bit_eq_mask mask_eq_exp_minus_1)
  have lo: "unat (s AND 0xFFFF) = unat s mod 65536"
    unfolding m by (simp add: take_bit_eq_mod unat_mod_distrib)
  have hi: "unat (drop_bit 16 s) = unat s div 65536"
    by (simp add: drop_bit_eq_div unat_div_distrib)
  have "unat s < 4294967296" using unsigned_less [of s, where ?'a = nat] by simp
  then have "unat s div 65536 < 65536" by (simp add: less_mult_imp_div_less)
  moreover have "unat s mod 65536 < 65536" by simp
  ultimately have "unat s mod 65536 + unat s div 65536 < 4294967296" by linarith
  then show ?thesis using lo hi by (simp add: unat_word_ariths)
qed

lemma drop_bit_16_eq_0: "drop_bit 16 s = 0 \<longleftrightarrow> unat s < 65536" for s :: "32 word"
proof -
  have "unat (drop_bit 16 s) = unat s div 65536"
    by (simp add: drop_bit_eq_div unat_div_distrib)
  then show ?thesis by (metis div_eq_0_iff unat_eq_zero zero_neq_numeral)
qed

function fold_carries :: "32 word \<Rightarrow> 32 word" where
  "fold_carries s =
     (if drop_bit 16 s \<noteq> 0 then fold_carries ((s AND 0xFFFF) + drop_bit 16 s) else s)"
  by pat_completeness auto
termination
proof (relation "measure unat", simp)
  fix s :: "32 word"
  assume "drop_bit 16 s \<noteq> 0"
  then have "65536 \<le> unat s" by (simp add: drop_bit_16_eq_0)
  then have "1 \<le> unat s div 65536" by (simp add: Suc_le_eq div_greater_zero_iff)
  moreover have "unat s = 65536 * (unat s div 65536) + unat s mod 65536" by simp
  ultimately have "unat s mod 65536 + unat s div 65536 < unat s" by linarith
  then show "((s AND 0xFFFF) + drop_bit 16 s, s) \<in> measure unat" by (simp only: in_measure unat_fold_step)
qed

declare fold_carries.simps [simp del]

definition checksum6 :: "endian \<Rightarrow> byte list \<Rightarrow> 16 word" where
  "checksum6 en bs = NOT (ucast (fold_carries (sum_words en bs 0)))"

section \<open>The one's complement sum\<close>

text \<open>The exact sum of the 16-bit integers, and its reduction modulo 65535 to 16 bits where a
  positive sum never becomes 0 (RFC 1071).\<close>

fun word_sum :: "endian \<Rightarrow> byte list \<Rightarrow> nat" where
  "word_sum en (a # b # bs) = unat (load16 en a b) + word_sum en bs"
| "word_sum en [a] = unat a"
| "word_sum en [] = 0"

definition oc_fold :: "nat \<Rightarrow> nat" where
  "oc_fold n = (if n = 0 then 0 else Suc ((n - 1) mod 65535))"

lemma oc_fold_le: "oc_fold n \<le> 65535"
proof -
  have "(n - 1) mod 65535 < 65535" by simp
  then show ?thesis unfolding oc_fold_def by (simp only: split: if_splits) linarith
qed

lemma oc_fold_eq_0 [simp]: "oc_fold n = 0 \<longleftrightarrow> n = 0"
  by (simp add: oc_fold_def)

lemma oc_fold_small: "n \<le> 65535 \<Longrightarrow> oc_fold n = n"
  by (auto simp: oc_fold_def)

lemma oc_fold_mod: "oc_fold n mod 65535 = n mod 65535"
  by (cases n) (simp_all add: oc_fold_def mod_Suc)

lemma oc_fold_unique:
  assumes "v \<le> 65535" and "v mod 65535 = n mod 65535" and "v = 0 \<longleftrightarrow> n = 0"
  shows "v = oc_fold n"
proof -
  have eq: "v mod 65535 = oc_fold n mod 65535" "oc_fold n \<le> 65535" "v = 0 \<longleftrightarrow> oc_fold n = 0"
    using assms oc_fold_mod [of n] oc_fold_le [of n] by simp_all
  then show ?thesis
    using assms(1) by (cases "v = 65535"; cases "oc_fold n = 65535") auto
qed

lemma oc_fold_step: "oc_fold (n mod 65536 + n div 65536) = oc_fold n"
proof (rule oc_fold_unique)
  show "oc_fold (n mod 65536 + n div 65536) \<le> 65535" by (rule oc_fold_le)
  have "n = (n mod 65536 + n div 65536) + 65535 * (n div 65536)"
    using div_mult_mod_eq [of n 65536] by linarith
  then show "oc_fold (n mod 65536 + n div 65536) mod 65535 = n mod 65535"
    unfolding oc_fold_mod by (metis mod_mult_self2)
  show "oc_fold (n mod 65536 + n div 65536) = 0 \<longleftrightarrow> n = 0"
    using div_mult_mod_eq [of n 65536] by auto
qed

lemma word_sum_append: "even (length p) \<Longrightarrow> word_sum en (p @ q) = word_sum en p + word_sum en q"
  by (induction en p rule: word_sum.induct) auto

lemma word_sum_bound: "2 * word_sum en bs \<le> (length bs + 1) * 65535"
proof (induction en bs rule: word_sum.induct)
  case (1 en a b bs)
  have "unat (load16 en a b) < 65536" using unsigned_less [of "load16 en a b", where ?'a = nat] by simp
  with 1 show ?case by simp
next
  case (2 en a)
  have "unat a < 256" using unsigned_less [of a, where ?'a = nat] by simp
  then show ?case by simp
qed simp

lemma unat_sum_words: "unat (sum_words en bs s) = (unat s + word_sum en bs) mod 2 ^ 32"
proof (induction en bs s rule: sum_words.induct)
  case (1 en a b bs s)
  have "unat (ucast (load16 en a b) :: 32 word) = unat (load16 en a b)"
    using unsigned_less [of "load16 en a b", where ?'a = nat]
    by (simp add: unsigned_ucast_eq take_bit_nat_eq_self)
  with 1 show ?case by (simp add: unat_word_ariths mod_simps add.assoc)
next
  case (2 en a s)
  have "unat (ucast a :: 32 word) = unat a"
    using unsigned_less [of a, where ?'a = nat] by (simp add: unsigned_ucast_eq take_bit_nat_eq_self)
  then show ?case by (simp add: unat_word_ariths)
next
  case (3 en s)
  show ?case using unsigned_less [of s, where ?'a = nat] by simp
qed

lemma unat_sum_words_0: "length bs \<le> 131072 \<Longrightarrow> unat (sum_words en bs 0) = word_sum en bs"
  using unat_sum_words [of en bs 0] word_sum_bound [of en bs] by simp

lemma unat_fold_carries: "unat (fold_carries s) = oc_fold (unat s)"
proof (induction s rule: fold_carries.induct)
  case (1 s)
  show ?case
  proof (cases "drop_bit 16 s = 0")
    case True
    then have "unat s \<le> 65535" by (simp add: drop_bit_16_eq_0)
    with True show ?thesis by (simp add: fold_carries.simps [of s] oc_fold_small)
  next
    case False
    with 1 show ?thesis
      by (simp add: fold_carries.simps [of s] unat_fold_step oc_fold_step del: unat_plus_simple)
  qed
qed

lemma fold_twice_oc: "fold_twice s = NOT (of_nat (oc_fold (unat s)))"
proof -
  define t where "t = unat s mod 65536 + unat s div 65536"
  let ?s1 = "drop_bit 16 s + (s AND 0xFFFF)"
  have s1: "unat ?s1 = t" using unat_fold_step [of s] by (simp only: t_def add.commute)
  have "unat s < 4294967296" using unsigned_less [of s, where ?'a = nat] by simp
  then have "unat s div 65536 \<le> 65535" by (simp add: div_le_mono [of _ 4294967295 65536, simplified])
  moreover have "unat s mod 65536 < 65536" by simp
  ultimately have t: "t \<le> 131070" unfolding t_def by linarith
  have "unat (drop_bit 16 ?s1) = t div 65536"
    using s1 by (simp add: drop_bit_eq_div unat_div_distrib)
  then have s2: "unat (?s1 + drop_bit 16 ?s1) = t + t div 65536"
    using s1 t by (simp add: unat_word_ariths)
  have "oc_fold (unat s) = oc_fold t" unfolding t_def by (rule oc_fold_step [symmetric])
  also have "\<dots> = (t + t div 65536) mod 65536"
  proof (cases "t < 65536")
    case True
    then show ?thesis by (simp add: oc_fold_small)
  next
    case False
    define u where "u = t - 65536"
    with False t have u: "t = 65536 + u" "u \<le> 65534" by linarith+
    then have "t div 65536 = 1" by simp
    then have "(t + t div 65536) mod 65536 = (65536 + Suc u) mod 65536" by (simp add: u(1))
    also have "\<dots> = Suc u" using u(2) by (simp only: mod_add_self1 mod_less)
    finally show ?thesis using u by (simp add: oc_fold_def)
  qed
  finally have "oc_fold (unat s) = unat (?s1 + drop_bit 16 ?s1) mod 65536" by (simp only: s2)
  then have "of_nat (oc_fold (unat s)) = (of_nat (unat (?s1 + drop_bit 16 ?s1)) :: 16 word)"
    by (simp only: word_of_nat_eq_iff take_bit_eq_mod) simp
  then have "of_nat (oc_fold (unat s)) = (ucast (?s1 + drop_bit 16 ?s1) :: 16 word)" by simp
  then show ?thesis by (simp only: fold_twice_def Let_def)
qed

section \<open>The interface of a checksum\<close>

lemma unat_not16: "unat (NOT w) = 65535 - unat w" for w :: "16 word"
proof -
  have "NOT w = - 1 - w" by (simp add: not_eq_complement)
  moreover have "w \<le> - 1" by (rule word_order.extremum)
  ultimately have "unat (NOT w) = unat (- 1 :: 16 word) - unat w" by (simp only: unat_sub)
  then show ?thesis by (simp add: unsigned_minus_1_eq_mask mask_eq_exp_minus_1)
qed

lemma load16_swap: "load16 BigE a b = bswap16 (load16 LittleE a b)"
  by (simp add: load16_def)

lemma word_sum_store16: "word_sum en (store16 en w) = unat w"
  by (cases en) (simp_all add: store16_def load16_def)

lemma unat_bswap16: "unat (bswap16 w) mod 65535 = 256 * unat w mod 65535"
proof -
  have "256 * unat w = unat (bswap16 w) + 65535 * unat (hi8 w)"
    using unat_be16 [of "hi8 w" "lo8 w"] unat_be16 [of "lo8 w" "hi8 w"] by (simp add: bswap16_def)
  then show ?thesis by (metis mod_mult_self2)
qed

lemma unat_bswap16_eq_0: "unat (bswap16 w) = 0 \<longleftrightarrow> unat w = 0"
  using unat_be16 [of "hi8 w" "lo8 w"] unat_be16 [of "lo8 w" "hi8 w"] by (auto simp: bswap16_def)

lemma bswap16_not: "bswap16 (NOT w) = NOT (bswap16 w)"
  by (auto simp: bswap16_def be16_def hi8_def lo8_def bit_eq_iff bit_simps)

lemma word_sum_swap:
  "even (length bs) \<Longrightarrow> word_sum BigE bs mod 65535 = 256 * word_sum LittleE bs mod 65535
     \<and> (word_sum BigE bs = 0 \<longleftrightarrow> word_sum LittleE bs = 0)"
proof (induction LittleE bs rule: word_sum.induct)
  case (1 a b bs)
  let ?l = "load16 LittleE a b"
  have "(unat (bswap16 ?l) + word_sum BigE bs) mod 65535
      = (256 * unat ?l + 256 * word_sum LittleE bs) mod 65535"
    using 1 unat_bswap16 [of ?l] by (intro mod_add_cong) simp_all
  with 1 unat_bswap16_eq_0 [of ?l] show ?case by (simp add: load16_swap algebra_simps)
qed auto

lemma ucast_unat_16: "of_nat (unat w) = (ucast w :: 16 word)" for w :: "32 word"
  by simp

locale internet_checksum =
  fixes cks :: "endian \<Rightarrow> byte list \<Rightarrow> 16 word"
  assumes cks_oc: "length bs \<le> 131072 \<Longrightarrow> cks en bs = NOT (of_nat (oc_fold (word_sum en bs)))"
begin

lemma unat_cks:
  assumes "length bs \<le> 131072"
  shows "unat (cks en bs) = 65535 - oc_fold (word_sum en bs)"
  using oc_fold_le [of "word_sum en bs"]
  by (simp add: cks_oc [OF assms] unat_not16 unat_of_nat)

lemma receiver_zero:
  assumes even: "even (length p)" and len: "length p + 2 + length q \<le> 131072"
  shows "cks en (p @ store16 en (cks en (p @ [0, 0] @ q)) @ q) = 0"
proof -
  let ?S = "word_sum en p + word_sum en q"
  let ?c = "cks en (p @ [0, 0] @ q)"
  have zero: "word_sum en (p @ [0, 0] @ q) = ?S"
    using even by (simp add: word_sum_append) (simp add: load16_def be16_def split: endian.split)
  have c: "unat ?c = 65535 - oc_fold ?S"
    using unat_cks [of "p @ [0, 0] @ q" en] len unfolding zero by simp
  have "word_sum en (store16 en ?c @ q) = unat ?c + word_sum en q"
    by (simp add: word_sum_append word_sum_store16)
  then have total: "word_sum en (p @ store16 en ?c @ q) = ?S + (65535 - oc_fold ?S)"
    using even c by (simp add: word_sum_append)
  have le: "oc_fold ?S \<le> 65535" by (rule oc_fold_le)
  have "(?S + (65535 - oc_fold ?S)) mod 65535 = (oc_fold ?S + (65535 - oc_fold ?S)) mod 65535"
    by (rule mod_add_cong) (simp_all only: oc_fold_mod)
  also have "\<dots> = 0" using le by simp
  finally have "65535 = oc_fold (?S + (65535 - oc_fold ?S))"
    using le by (intro oc_fold_unique) (auto simp: oc_fold_def)
  then have "unat (cks en (p @ store16 en ?c @ q)) = 0"
    using unat_cks [of "p @ store16 en ?c @ q" en] len unfolding total by simp
  then show ?thesis by (simp only: unat_eq_zero)
qed

lemma cks_swap:
  assumes even: "even (length bs)" and len: "length bs \<le> 131072"
  shows "cks BigE bs = bswap16 (cks LittleE bs)"
proof -
  let ?L = "of_nat (oc_fold (word_sum LittleE bs)) :: 16 word"
  have unatL: "unat ?L = oc_fold (word_sum LittleE bs)"
    using oc_fold_le [of "word_sum LittleE bs"] by (simp add: unat_of_nat)
  have "unat (bswap16 ?L) = oc_fold (word_sum BigE bs)"
  proof (rule oc_fold_unique)
    show "unat (bswap16 ?L) \<le> 65535"
      using unsigned_less [of "bswap16 ?L", where ?'a = nat] by simp
    show "unat (bswap16 ?L) mod 65535 = word_sum BigE bs mod 65535"
      using word_sum_swap [OF even] oc_fold_mod [of "word_sum LittleE bs"]
      by (simp only: unat_bswap16 unatL) (metis mod_mult_right_eq)
    show "(unat (bswap16 ?L) = 0) = (word_sum BigE bs = 0)"
      using word_sum_swap [OF even] by (simp only: unat_bswap16_eq_0 unatL oc_fold_eq_0)
  qed
  then have "of_nat (oc_fold (word_sum BigE bs)) = bswap16 ?L"
    by (simp flip: \<open>unat (bswap16 ?L) = oc_fold (word_sum BigE bs)\<close>)
  then show ?thesis by (simp only: cks_oc [OF len] bswap16_not)
qed

lemma byte_order_free:
  assumes "even (length bs)" and "length bs \<le> 131072"
  shows "store16 BigE (cks BigE bs) = store16 LittleE (cks LittleE bs)"
  by (simp add: cks_swap [OF assms] store16_def bswap16_def)

end

interpretation ck4: internet_checksum checksum
  by unfold_locales (simp add: checksum_def fold_twice_oc unat_sum_words_0)

interpretation ck6: internet_checksum checksum6
proof
  fix bs en
  assume "length (bs :: byte list) \<le> 131072"
  then have "unat (fold_carries (sum_words en bs 0)) = oc_fold (word_sum en bs)"
    by (simp add: unat_fold_carries unat_sum_words_0)
  then show "checksum6 en bs = NOT (of_nat (oc_fold (word_sum en bs)))"
    by (metis checksum6_def ucast_unat_16)
qed

section \<open>Properties\<close>

text \<open>C13. Stored at an even offset of a packet of at most 131072 bytes, over the zeroed field
  it was computed with, the checksum of \<open>myping.c\<close> makes the sum of the packet as a receiver
  computes it 0.\<close>

theorem checksum_receiver_zero:
  assumes "even (length p)" and "length p + 2 + length q \<le> 131072"
  shows "checksum en (p @ store16 en (checksum en (p @ [0, 0] @ q)) @ q) = 0"
  using assms by (rule ck4.receiver_zero)

theorem checksum_receiver_zero_witness:
  "checksum LittleE ([8, 0] @ store16 LittleE (checksum LittleE ([8, 0] @ [0, 0] @ [7, 1, 255]))
     @ [7, 1, 255]) = 0"
  by (rule checksum_receiver_zero) simp_all

text \<open>The bytes of the checksum in the packet are the same on a little-endian and on a
  big-endian host, although the code sums host integers and stores the result without
  \<open>htons\<close>.  (Only for an even length: a last odd byte is added as a low byte on both hosts.)\<close>

theorem checksum_byte_order_free:
  assumes "even (length bs)" and "length bs \<le> 131072"
  shows "store16 BigE (checksum BigE bs) = store16 LittleE (checksum LittleE bs)"
  using assms by (rule ck4.byte_order_free)

theorem checksum_byte_order_free_witness:
  "store16 BigE (checksum BigE [8, 0, 0, 0, 255, 255, 1, 0])
     = store16 LittleE (checksum LittleE [8, 0, 0, 0, 255, 255, 1, 0])"
  by (rule checksum_byte_order_free) simp_all

text \<open>C14. For all data: folding the carries twice (\<open>myping.c\<close>) gives the same checksum as
  folding them until none is left (\<open>ping6_ll.c\<close>).\<close>

theorem checksum_two_folds_suffice: "checksum en bs = checksum6 en bs"
  by (simp only: checksum_def checksum6_def fold_twice_oc ucast_unat_16 flip: unat_fold_carries)

end
