(* ===== verification/Icmp_Ping.thy ===== *)
theory Icmp_Ping
  imports Icmp_Checksum
begin

text \<open>
  The IPv4 ping programs: \<open>ICMP_ping/myping.c\<close> (libevent listener) and its earlier form
  \<open>ICMP_ping/other_mypings/myping_synchronous.c\<close>.  Packets are records that are laid out as
  bytes in the byte order of the host; a run of a process is the list of what it prints and
  sends.  The answers of the operating system (sockets, \<open>fork\<close>, \<open>gethostbyname\<close>, received
  datagrams) and of libevent (which callback flags \<open>event_base_dispatch\<close> delivers, if any) are
  parameters.  \<open>_DISPLAY_RAW_\<close> is not defined by the Makefile, so the hex dump belongs to the
  synchronous program only.
\<close>

section \<open>Data\<close>

definition PACKETSIZE :: nat where "PACKETSIZE = 64"
definition PING_ATTEMPTS :: nat where "PING_ATTEMPTS = 5"
definition SYNC_PING_ATTEMPTS :: nat where "SYNC_PING_ATTEMPTS = 4"

abbreviation (input) "ICMP_ECHOREPLY \<equiv> 0 :: byte"
abbreviation (input) "ICMP_ECHO \<equiv> 8 :: byte"
abbreviation (input) "sizeof_icmphdr \<equiv> 8 :: nat"
abbreviation (input) "sizeof_iphdr \<equiv> 20 :: nat"

record icmphdr =
  icmp_type :: byte
  icmp_code :: byte
  icmp_checksum :: "16 word"
  echo_id :: "16 word"
  echo_sequence :: "16 word"

record icmp_packet =
  hdr :: icmphdr
  msg :: "byte list"

definition packet_bytes :: "endian \<Rightarrow> icmp_packet \<Rightarrow> byte list" where
  "packet_bytes en p =
     [icmp_type (hdr p), icmp_code (hdr p)] @ store16 en (icmp_checksum (hdr p))
     @ store16 en (echo_id (hdr p)) @ store16 en (echo_sequence (hdr p)) @ msg p"

datatype ping_event =
    Printf string
  | Perror string
  | Echo_msg nat
  | Sendto "byte list"
  | Sleep
  | Hex_dump "byte list"
  | Ip_line nat nat nat nat nat "byte list" "byte list"
      \<comment> \<open>version, header size, packet size, protocol, TTL, source, destination\<close>
  | Icmp_line nat nat nat nat nat
      \<comment> \<open>type, code, checksum, id, sequence\<close>
  | Exit

section \<open>Receiving: \<open>myping.c\<close>\<close>

text \<open>\<open>ip->ihl\<close> and \<open>ip->version\<close> are the low and the high four bits of the first byte.\<close>

definition ihl :: "byte \<Rightarrow> nat" where "ihl b = unat b mod 16"
definition version :: "byte \<Rightarrow> nat" where "version b = unat b div 16"

definition verify_echo_reply :: "byte list \<Rightarrow> int cres" where
  "verify_echo_reply buf =
     bindE (rd buf 0) (\<lambda>b0.
     bindE (rd buf (ihl b0 * 4)) (\<lambda>t.
     Inr (if t = ICMP_ECHOREPLY then 0 else - 1)))"

text \<open>The two parts of \<open>display\<close>: the line for the IP header, and the one for the ICMP header
  at \<open>off\<close>.  The 16-bit id is compared with the \<open>int\<close> \<open>pid\<close> after promotion.\<close>

definition display_ip :: "endian \<Rightarrow> byte list \<Rightarrow> ping_event list cres" where
  "display_ip en buf =
     bindE (rd buf 0) (\<lambda>b0. bindE (rd buf 2) (\<lambda>l0. bindE (rd buf 3) (\<lambda>l1.
     bindE (rd buf 9) (\<lambda>protocol. bindE (rd buf 8) (\<lambda>ttl.
     bindE (rd_block buf 12 4) (\<lambda>saddr. bindE (rd_block buf 16 4) (\<lambda>daddr.
     Inr [Ip_line (version b0) (ihl b0 * 4) (unat (ntohs en (load16 en l0 l1))) (unat protocol)
            (unat ttl) saddr daddr])))))))"

definition display_icmp :: "endian \<Rightarrow> int \<Rightarrow> byte list \<Rightarrow> nat \<Rightarrow> ping_event list cres" where
  "display_icmp en pid buf off =
     bindE (rd buf (off + 4)) (\<lambda>i0. bindE (rd buf (off + 5)) (\<lambda>i1.
     let ident = load16 en i0 i1 in
     if int (unat ident) = pid then
       bindE (rd buf off) (\<lambda>ty. bindE (rd buf (off + 1)) (\<lambda>co.
       bindE (rd buf (off + 2)) (\<lambda>c0. bindE (rd buf (off + 3)) (\<lambda>c1.
       bindE (rd buf (off + 6)) (\<lambda>s0. bindE (rd buf (off + 7)) (\<lambda>s1.
       Inr [Icmp_line (unat ty) (unat co) (unat (ntohs en (load16 en c0 c1))) (unat ident)
              (unat (load16 en s0 s1))]))))))
     else Inr []))"

definition display :: "endian \<Rightarrow> int \<Rightarrow> byte list \<Rightarrow> ping_event list cres" where
  "display en pid buf =
     bindE (rd buf 0) (\<lambda>b0.
     bindE (display_ip en buf) (\<lambda>ip.
     bindE (display_icmp en pid buf (ihl b0 * 4)) (\<lambda>icmp.
     Inr (Printf ''----------------'' # ip @ icmp))))"

text \<open>\<open>recvfrom\<close> into the zeroed buffer of 1024 bytes: \<open>None\<close> is a failure (-1), a longer
  datagram is cut.\<close>

definition recv_buf :: "byte list option \<Rightarrow> byte list \<times> int" where
  "recv_buf r = (case r of
      None \<Rightarrow> (replicate 1024 0, - 1)
    | Some d \<Rightarrow> (take 1024 d @ replicate (1024 - length d) 0, int (length (take 1024 d))))"

definition listen_step :: "endian \<Rightarrow> int \<Rightarrow> byte list \<Rightarrow> int \<Rightarrow> ping_event list cres" where
  "listen_step en pid buf bytes =
     bindE (verify_echo_reply buf) (\<lambda>v.
     if v < 0 then Inr [Printf ''Not an echo response'']
     else if 0 < bytes \<and> bytes \<le> int (PACKETSIZE + sizeof_iphdr) then display en pid buf
     else Inr [Perror ''recvfrom''])"

function listen_loop :: "endian \<Rightarrow> int \<Rightarrow> (nat \<Rightarrow> byte list option) \<Rightarrow> nat \<Rightarrow> ping_event list cres" where
  "listen_loop en pid recvs i =
     (if i < PING_ATTEMPTS then
        case recv_buf (recvs i) of (buf, bytes) \<Rightarrow>
        bindE (listen_step en pid buf bytes) (\<lambda>out.
        bindE (listen_loop en pid recvs (i + 1)) (\<lambda>rest. Inr (out @ rest)))
      else Inr [])"
  by pat_completeness auto
termination by (relation "measure (\<lambda>(en, pid, recvs, i). PING_ATTEMPTS - i)") auto

declare listen_loop.simps [simp del]

definition listen_ev_thread ::
    "endian \<Rightarrow> int \<Rightarrow> bool \<Rightarrow> (nat \<Rightarrow> byte list option) \<Rightarrow> ping_event list cres" where
  "listen_ev_thread en pid ev_timeout recvs =
     (if ev_timeout then Inr [Printf ''Timeout: Destination Host Unreachable'', Exit]
      else bindE (listen_loop en pid recvs 1) (\<lambda>out. Inr (out @ [Exit])))"

text \<open>The operating system and libevent as the listener sees them: \<open>dispatch\<close> is \<open>None\<close>
  when \<open>event_base_dispatch\<close> returns without having run the callback.\<close>

record listen_env =
  l_proto :: "int option"
  l_socket :: int
  l_setsockopt :: int
  dispatch :: "bool option"
  l_recvs :: "nat \<Rightarrow> byte list option"

definition listener :: "endian \<Rightarrow> int \<Rightarrow> listen_env \<Rightarrow> ping_event list cres" where
  "listener en pid env =
     (case l_proto env of None \<Rightarrow> Inl NullDeref | Some _ \<Rightarrow>
      if l_socket env < 0 then Inr [Perror ''socket'', Exit]
      else if l_setsockopt env < 0 then Inr [Printf ''Failed to set timeout'', Exit]
      else (case dispatch env of
          Some ev_timeout \<Rightarrow> listen_ev_thread en pid ev_timeout (l_recvs env)
        | None \<Rightarrow> Inr []))"

section \<open>Sending: \<open>myping.c\<close>\<close>

text \<open>The loop that fills the payload, and the terminator after it.\<close>

function fill_msg :: "nat \<Rightarrow> byte list \<Rightarrow> byte list cres" where
  "fill_msg i m =
     (if i < PACKETSIZE - sizeof_icmphdr - 1
      then bindE (wr m i (of_nat (i + 48))) (fill_msg (i + 1))
      else wr m i 0)"
  by pat_completeness auto
termination by (relation "measure (\<lambda>(i, m). PACKETSIZE - i)") auto

declare fill_msg.simps [simp del]

definition echo_request :: "endian \<Rightarrow> int \<Rightarrow> nat \<Rightarrow> icmp_packet cres" where
  "echo_request en pid cnt =
     (let pckt = \<lparr> hdr = \<lparr> icmp_type = 0, icmp_code = 0, icmp_checksum = 0, echo_id = 0,
                            echo_sequence = 0 \<rparr>,
                   msg = replicate (PACKETSIZE - sizeof_icmphdr) 0 \<rparr>;
          pckt = pckt\<lparr>hdr := (hdr pckt)\<lparr>icmp_type := ICMP_ECHO, echo_id := of_int pid\<rparr>\<rparr>
      in bindE (fill_msg 0 (msg pckt)) (\<lambda>m.
         let pckt = pckt\<lparr>msg := m, hdr := (hdr pckt)\<lparr>echo_sequence := of_nat cnt\<rparr>\<rparr>
         in bindE (checksum_at en (packet_bytes en pckt) PACKETSIZE) (\<lambda>c.
            Inr (pckt\<lparr>hdr := (hdr pckt)\<lparr>icmp_checksum := c\<rparr>\<rparr>))))"

text \<open>\<open>sends j\<close> is what \<open>sendto\<close> returns in round \<open>j\<close>.\<close>

function ping_loop :: "endian \<Rightarrow> int \<Rightarrow> (nat \<Rightarrow> int) \<Rightarrow> nat \<Rightarrow> nat \<Rightarrow> ping_event list cres" where
  "ping_loop en pid sends j cnt =
     (if j < PING_ATTEMPTS then
        bindE (echo_request en pid cnt) (\<lambda>pckt.
        bindE (ping_loop en pid sends (j + 1) (cnt + 1)) (\<lambda>rest.
        Inr ([Echo_msg j, Sendto (packet_bytes en pckt)]
             @ (if sends j \<le> 0 then [Perror ''sendto''] else []) @ [Sleep] @ rest)))
      else Inr [])"
  by pat_completeness auto
termination by (relation "measure (\<lambda>(en, pid, sends, j, cnt). PING_ATTEMPTS - j)") auto

declare ping_loop.simps [simp del]

record ping_env =
  p_proto :: "int option"
  p_socket :: int
  p_setsockopt :: int
  p_fcntl :: int
  p_recvs :: "nat \<Rightarrow> byte list option"
  p_sends :: "nat \<Rightarrow> int"

definition ping :: "endian \<Rightarrow> int \<Rightarrow> ping_env \<Rightarrow> ping_event list cres" where
  "ping en pid env =
     (case p_proto env of None \<Rightarrow> Inl NullDeref | Some _ \<Rightarrow>
      if p_socket env < 0 then Inr [Perror ''socket'']
      else bindE (ping_loop en pid (p_sends env) 1 1) (\<lambda>out.
        Inr ((if p_fcntl env \<noteq> 0 then [Perror ''Request nonblocking I/O''] else []) @ out)))"

text \<open>\<open>*(long * )hname->h_addr\<close> reads eight bytes; \<open>s_addr\<close> keeps the low 32 bits of them, which
  are the first four bytes on a little-endian host and the last four on a big-endian one.\<close>

record hostent =
  h_addrtype :: int
  h_addr :: "byte list"   \<comment> \<open>the bytes that can be read at the pointer\<close>

definition s_addr_bytes :: "endian \<Rightarrow> hostent \<Rightarrow> byte list cres" where
  "s_addr_bytes en h = bindE (rd_block (h_addr h) 0 8) (\<lambda>bs.
     Inr (case en of LittleE \<Rightarrow> take 4 bs | BigE \<Rightarrow> drop 4 bs))"

text \<open>The runs of a program after \<open>main\<close>: what the parent and, after a successful \<open>fork\<close>,
  the child print and send, and the address the packets go to.\<close>

record run =
  to_addr :: "byte list"
  parent :: "ping_event list cres"
  child :: "ping_event list cres option"

record main_env =
  getpid :: int
  gethostbyname :: "string \<Rightarrow> hostent option"
  fork :: int             \<comment> \<open>as returned in the parent: -1 or the pid of the child\<close>
  ping1_env :: ping_env   \<comment> \<open>the first call of \<open>ping\<close> (synchronous program)\<close>
  ping2_env :: ping_env
  child_env :: listen_env

definition myping_main :: "endian \<Rightarrow> main_env \<Rightarrow> string list \<Rightarrow> (ping_event list + run) cres" where
  "myping_main en env argv =
     (case argv of
        [prog, host] \<Rightarrow>
          (case gethostbyname env host of
             None \<Rightarrow> Inr (Inl [Printf (''Failed to lookup host: '' @ host), Exit])
           | Some h \<Rightarrow>
               bindE (s_addr_bytes en h) (\<lambda>a.
               Inr (Inr \<lparr> to_addr = a, parent = ping en (getpid env) (ping2_env env),
                 child = (if 0 \<le> fork env then Some (listener en (getpid env) (child_env env))
                          else None) \<rparr>)))
      | prog # _ \<Rightarrow> Inr (Inl [Printf (''usage: '' @ prog @ '' <addr>''), Exit])
      | [] \<Rightarrow> Inl NullDeref)"

section \<open>The synchronous program\<close>

definition sync_display :: "endian \<Rightarrow> int \<Rightarrow> byte list \<Rightarrow> nat \<Rightarrow> ping_event list cres" where
  "sync_display en pid buf bytes =
     bindE (rd buf 0) (\<lambda>b0.
     bindE (rd_block buf 0 bytes) (\<lambda>dump.
     bindE (display_ip en buf) (\<lambda>ip.
     bindE (display_icmp en pid buf (ihl b0 * 4)) (\<lambda>icmp.
     Inr ([Printf ''----------------'', Hex_dump dump] @ ip @ icmp)))))"

function sync_listen_loop ::
    "endian \<Rightarrow> int \<Rightarrow> (nat \<Rightarrow> byte list option) \<Rightarrow> nat \<Rightarrow> ping_event list cres" where
  "sync_listen_loop en pid recvs i =
     (if i < SYNC_PING_ATTEMPTS then
        case recv_buf (recvs i) of (buf, bytes) \<Rightarrow>
        bindE (if 0 < bytes then sync_display en pid buf (nat bytes) else Inr [Perror ''recvfrom'']) (\<lambda>out.
        bindE (sync_listen_loop en pid recvs (i + 1)) (\<lambda>rest. Inr (out @ rest)))
      else Inr [])"
  by pat_completeness auto
termination by (relation "measure (\<lambda>(en, pid, recvs, i). SYNC_PING_ATTEMPTS - i)") auto

declare sync_listen_loop.simps [simp del]

definition sync_listener :: "endian \<Rightarrow> int \<Rightarrow> listen_env \<Rightarrow> ping_event list cres" where
  "sync_listener en pid env =
     (case l_proto env of None \<Rightarrow> Inl NullDeref | Some _ \<Rightarrow>
      if l_socket env < 0 then Inr [Perror ''socket'', Exit]
      else bindE (sync_listen_loop en pid (l_recvs env) 0) (\<lambda>out. Inr (out @ [Exit])))"

text \<open>The building of the packet has the same text in both programs.  The datagram received
  before it lands in \<open>pckt\<close> and is overwritten.\<close>

function sync_ping_loop ::
    "endian \<Rightarrow> int \<Rightarrow> (nat \<Rightarrow> byte list option) \<Rightarrow> (nat \<Rightarrow> int) \<Rightarrow> nat \<Rightarrow> nat \<Rightarrow> ping_event list cres" where
  "sync_ping_loop en pid recvs sends j cnt =
     (if j < SYNC_PING_ATTEMPTS then
        bindE (echo_request en pid cnt) (\<lambda>pckt.
        bindE (sync_ping_loop en pid recvs sends (j + 1) (cnt + 1)) (\<lambda>rest.
        Inr ((case recvs j of Some d \<Rightarrow> (if d \<noteq> [] then [Printf ''***Got message!***''] else [])
                            | None \<Rightarrow> [])
             @ [Sendto (packet_bytes en pckt)]
             @ (if sends j \<le> 0 then [Perror ''sendto''] else []) @ [Sleep] @ rest)))
      else Inr [])"
  by pat_completeness auto
termination by (relation "measure (\<lambda>(en, pid, recvs, sends, j, cnt). SYNC_PING_ATTEMPTS - j)") auto

declare sync_ping_loop.simps [simp del]

definition sync_ping :: "endian \<Rightarrow> int \<Rightarrow> ping_env \<Rightarrow> ping_event list cres" where
  "sync_ping en pid env =
     (case p_proto env of None \<Rightarrow> Inl NullDeref | Some _ \<Rightarrow>
      if p_socket env < 0 then Inr [Perror ''socket'']
      else bindE (sync_ping_loop en pid (p_recvs env) (p_sends env) 0 1) (\<lambda>out.
        Inr ((if p_setsockopt env \<noteq> 0 then [Perror ''Set TTL option''] else [])
             @ (if p_fcntl env \<noteq> 0 then [Perror ''Request nonblocking I/O''] else []) @ out)))"

text \<open>\<open>main\<close> uses the result of \<open>gethostbyname\<close> without a test, and calls \<open>ping\<close> once before
  the \<open>fork\<close> and once after it in the parent.\<close>

definition sync_main :: "endian \<Rightarrow> main_env \<Rightarrow> string list \<Rightarrow> (ping_event list + run) cres" where
  "sync_main en env argv =
     (case argv of
        [prog, host] \<Rightarrow>
          (case gethostbyname env host of
             None \<Rightarrow> Inl NullDeref
           | Some h \<Rightarrow>
               bindE (s_addr_bytes en h) (\<lambda>a.
               bindE (sync_ping en (getpid env) (ping1_env env)) (\<lambda>out1.
               Inr (Inr \<lparr> to_addr = a,
                 parent = bindE (sync_ping en (getpid env) (ping2_env env)) (\<lambda>out2. Inr (out1 @ out2)),
                 child = (if 0 \<le> fork env then Some (sync_listener en (getpid env) (child_env env))
                          else None) \<rparr>))))
      | prog # _ \<Rightarrow> Inr (Inl [Printf (''usage: '' @ prog @ '' <addr>''), Exit])
      | [] \<Rightarrow> Inl NullDeref)"

section \<open>What is sent\<close>

lemmas ping_sizes = PACKETSIZE_def PING_ATTEMPTS_def SYNC_PING_ATTEMPTS_def

definition payload :: "byte list" where
  "payload = map (\<lambda>i. of_nat (i + 48)) [0..<55] @ [0]"

text \<open>The request with sequence number \<open>n\<close>, with \<open>c\<close> in the checksum field.\<close>

definition request_bytes :: "endian \<Rightarrow> int \<Rightarrow> nat \<Rightarrow> byte list \<Rightarrow> byte list" where
  "request_bytes en pid n c =
     [ICMP_ECHO, 0] @ c @ store16 en (of_int pid) @ store16 en (of_nat n) @ payload"

definition request_packet :: "endian \<Rightarrow> int \<Rightarrow> nat \<Rightarrow> byte list" where
  "request_packet en pid n =
     request_bytes en pid n (store16 en (checksum en (request_bytes en pid n [0, 0])))"

lemma length_payload [simp]: "length payload = 56"
  by (simp add: payload_def)

lemma fill_msg_from:
  assumes "length m = 56" and "i \<le> 55"
  shows "fill_msg i m = Inr (take i m @ map (\<lambda>i. of_nat (i + 48)) [i..<55] @ [0])"
  using assms
proof (induction "55 - i" arbitrary: i m)
  case 0
  then show ?case
    by (simp add: fill_msg.simps ping_sizes c_array upd_conv_take_nth_drop)
next
  case (Suc k)
  then have "i < 55" by simp
  have "fill_msg i m = fill_msg (i + 1) (m[i := of_nat (i + 48)])"
    using Suc \<open>i < 55\<close> by (subst fill_msg.simps) (simp add: ping_sizes c_array)
  also have "\<dots> = Inr (take (i + 1) (m[i := of_nat (i + 48)])
      @ map (\<lambda>i. of_nat (i + 48)) [i + 1..<55] @ [0])"
    using Suc by (intro Suc.hyps(1)) simp_all
  also have "take (i + 1) (m[i := of_nat (i + 48)]) = take i m @ [of_nat (i + 48)]"
    using Suc.prems by (simp add: take_Suc_conv_app_nth)
  finally show ?case using Suc(2) by (simp add: upt_conv_Cons)
qed

lemma fill_msg_payload: "length m = 56 \<Longrightarrow> fill_msg 0 m = Inr payload"
  using fill_msg_from [of m 0] by (simp add: payload_def)

lemma store16_0: "store16 en 0 = [0, 0]"
  by (cases en) (simp_all add: store16_def hi8_def lo8_def)

lemma echo_request_bytes:
  "\<exists>p. echo_request en pid n = Inr p \<and> packet_bytes en p = request_packet en pid n"
  by (simp add: echo_request_def Let_def fill_msg_payload checksum_at_def rd_block_def
      packet_bytes_def request_packet_def request_bytes_def store16_0 ping_sizes)

fun sent_packets :: "ping_event list \<Rightarrow> byte list list" where
  "sent_packets [] = []"
| "sent_packets (Sendto p # t) = p # sent_packets t"
| "sent_packets (_ # t) = sent_packets t"

lemma sent_packets_append [simp]: "sent_packets (s @ t) = sent_packets s @ sent_packets t"
  by (induction s rule: sent_packets.induct) simp_all

lemma ping_loop_sends:
  assumes "j \<le> PING_ATTEMPTS"
  shows "\<exists>out. ping_loop en pid sends j cnt = Inr out
    \<and> sent_packets out = map (request_packet en pid) [cnt..<cnt + (PING_ATTEMPTS - j)]"
  using assms
proof (induction "PING_ATTEMPTS - j" arbitrary: j cnt)
  case 0
  then show ?case by (simp add: ping_loop.simps)
next
  case (Suc k)
  then have less: "j < PING_ATTEMPTS" and k: "k = PING_ATTEMPTS - (j + 1)" by arith+
  from Suc.hyps(1) [OF k, of "cnt + 1"] less obtain rest where rest:
    "ping_loop en pid sends (j + 1) (cnt + 1) = Inr rest"
    "sent_packets rest = map (request_packet en pid) [cnt + 1..<cnt + 1 + (PING_ATTEMPTS - (j + 1))]"
    by (auto simp del: upt_Suc)
  obtain p where "echo_request en pid cnt = Inr p" "packet_bytes en p = request_packet en pid cnt"
    using echo_request_bytes by blast
  then show ?case
    unfolding upt_round [OF less] using less rest by (subst ping_loop.simps) (simp del: upt_Suc)
qed

lemma sync_ping_loop_sends:
  assumes "j \<le> SYNC_PING_ATTEMPTS"
  shows "\<exists>out. sync_ping_loop en pid recvs sends j cnt = Inr out
    \<and> sent_packets out = map (request_packet en pid) [cnt..<cnt + (SYNC_PING_ATTEMPTS - j)]"
  using assms
proof (induction "SYNC_PING_ATTEMPTS - j" arbitrary: j cnt)
  case 0
  then show ?case by (simp add: sync_ping_loop.simps)
next
  case (Suc k)
  then have less: "j < SYNC_PING_ATTEMPTS" and k: "k = SYNC_PING_ATTEMPTS - (j + 1)" by arith+
  from Suc.hyps(1) [OF k, of "cnt + 1"] less obtain rest where rest:
    "sync_ping_loop en pid recvs sends (j + 1) (cnt + 1) = Inr rest"
    "sent_packets rest
       = map (request_packet en pid) [cnt + 1..<cnt + 1 + (SYNC_PING_ATTEMPTS - (j + 1))]"
    by (auto simp del: upt_Suc)
  obtain p where "echo_request en pid cnt = Inr p" "packet_bytes en p = request_packet en pid cnt"
    using echo_request_bytes by blast
  then show ?case
    unfolding upt_round [OF less] using less rest
    by (subst sync_ping_loop.simps) (simp del: upt_Suc split: option.split)
qed

text \<open>What a request is (RFC 792), with the id and the sequence number as host integers.\<close>

definition well_formed_request :: "endian \<Rightarrow> int \<Rightarrow> nat \<Rightarrow> byte list \<Rightarrow> bool" where
  "well_formed_request en pid n p \<longleftrightarrow>
     length p = 64 \<and> take 2 p = [8, 0] \<and> checksum en p = 0
     \<and> take 2 (drop 4 p) = store16 en (of_int pid) \<and> take 2 (drop 6 p) = store16 en (of_nat n)"

lemma well_formed_request_packet: "well_formed_request en pid n (request_packet en pid n)"
proof -
  let ?q = "store16 en (of_int pid) @ store16 en (of_nat n) @ payload"
  have "checksum en ([8, 0] @ store16 en (checksum en ([8, 0] @ [0, 0] @ ?q)) @ ?q) = 0"
    by (rule ck4.receiver_zero) simp_all
  then show ?thesis
    by (simp add: well_formed_request_def request_packet_def request_bytes_def numeral_eq_Suc)
qed

definition four_requests :: "endian \<Rightarrow> int \<Rightarrow> byte list list" where
  "four_requests en pid = map (request_packet en pid) [1, 2, 3, 4]"

lemma four_requests_ok: "list_all2 (well_formed_request en pid) [1, 2, 3, 4] (four_requests en pid)"
  by (simp add: four_requests_def well_formed_request_packet)

lemma four_requests_upt: "map (request_packet en pid) [Suc 0..<5] = four_requests en pid"
  by (simp add: four_requests_def upt_conv_Cons numeral_eq_Suc)

lemma ping_sends:
  assumes "p_proto env = Some pr" and "0 \<le> p_socket env"
  shows "\<exists>out. ping en pid env = Inr out \<and> sent_packets out = four_requests en pid"
  using assms ping_loop_sends [of 1 en pid "p_sends env" 1]
  by (auto simp: ping_def ping_sizes four_requests_upt simp del: upt_Suc)

lemma sync_ping_sends:
  assumes "p_proto env = Some pr" and "0 \<le> p_socket env"
  shows "\<exists>out. sync_ping en pid env = Inr out \<and> sent_packets out = four_requests en pid"
  using assms sync_ping_loop_sends [of 0 en pid "p_recvs env" "p_sends env" 1]
  by (auto simp: sync_ping_def ping_sizes four_requests_upt simp del: upt_Suc)

section \<open>What the listener shows\<close>

lemma length_recv_buf: "length (fst (recv_buf r)) = 1024"
  by (cases r) (simp_all add: recv_buf_def)

lemma ihl_le: "ihl b \<le> 15"
  unfolding ihl_def by (simp add: less_Suc_eq_le [symmetric])

lemma verify_echo_reply_1024:
  assumes "length buf = 1024"
  shows "verify_echo_reply buf = Inr (if buf ! (ihl (buf ! 0) * 4) = 0 then 0 else - 1)"
  using assms ihl_le [of "buf ! 0"] by (simp add: verify_echo_reply_def c_array)

lemma display_ip_1024:
  assumes "length buf = 1024"
  obtains l where "display_ip en buf = Inr [l]" and "\<And>a b c d e. l \<noteq> Icmp_line a b c d e"
    and "\<And>p. l \<noteq> Sendto p"
  using assms by (simp add: display_ip_def c_array rd_block_def)

definition icmp_line_at :: "endian \<Rightarrow> byte list \<Rightarrow> nat \<Rightarrow> ping_event" where
  "icmp_line_at en buf off =
     Icmp_line (unat (buf ! off)) (unat (buf ! (off + 1)))
       (unat (be16 (buf ! (off + 2)) (buf ! (off + 3))))
       (unat (load16 en (buf ! (off + 4)) (buf ! (off + 5))))
       (unat (load16 en (buf ! (off + 6)) (buf ! (off + 7))))"

lemma display_icmp_1024:
  assumes "length buf = 1024" and "off \<le> 60"
  shows "display_icmp en pid buf off =
    Inr (if int (unat (load16 en (buf ! (off + 4)) (buf ! (off + 5)))) = pid
         then [icmp_line_at en buf off] else [])"
  using assms by (simp add: display_icmp_def c_array icmp_line_at_def Let_def)

fun icmp_lines :: "ping_event list \<Rightarrow> ping_event list" where
  "icmp_lines [] = []"
| "icmp_lines (Icmp_line a b c d e # t) = Icmp_line a b c d e # icmp_lines t"
| "icmp_lines (_ # t) = icmp_lines t"

lemma icmp_lines_append [simp]: "icmp_lines (s @ t) = icmp_lines s @ icmp_lines t"
  by (induction s rule: icmp_lines.induct) simp_all

text \<open>The ICMP line for one received datagram, if there is one: an echo reply of at most 84 bytes
  with the id of this process.\<close>

definition own_reply :: "endian \<Rightarrow> int \<Rightarrow> byte list \<Rightarrow> bool" where
  "own_reply en pid buf \<longleftrightarrow>
     (let off = ihl (buf ! 0) * 4
      in buf ! off = 0 \<and> int (unat (load16 en (buf ! (off + 4)) (buf ! (off + 5)))) = pid)"

definition shown :: "endian \<Rightarrow> int \<Rightarrow> byte list option \<Rightarrow> ping_event list" where
  "shown en pid r =
     (case recv_buf r of (buf, bytes) \<Rightarrow>
        if own_reply en pid buf \<and> 0 < bytes \<and> bytes \<le> 84
        then [icmp_line_at en buf (ihl (buf ! 0) * 4)] else [])"

lemma display_lines:
  assumes "length buf = 1024"
  obtains out where "display en pid buf = Inr out"
    and "icmp_lines out =
      (if int (unat (load16 en (buf ! (ihl (buf ! 0) * 4 + 4)) (buf ! (ihl (buf ! 0) * 4 + 5)))) = pid
       then [icmp_line_at en buf (ihl (buf ! 0) * 4)] else [])"
proof -
  obtain l where "display_ip en buf = Inr [l]" and "icmp_lines [l] = []"
    using assms by (simp add: display_ip_def c_array rd_block_def)
  moreover have "ihl (buf ! 0) * 4 \<le> 60" using ihl_le [of "buf ! 0"] by simp
  ultimately show ?thesis
    using that assms icmp_lines_append [of "[l]"]
    by (simp add: display_def display_icmp_1024 c_array icmp_line_at_def split: if_splits)
qed

lemma listen_step_lines:
  assumes "recv_buf r = (buf, bytes)"
  shows "\<exists>out. listen_step en pid buf bytes = Inr out \<and> icmp_lines out = shown en pid r"
proof -
  have len: "length buf = 1024" using length_recv_buf [of r] assms by simp
  obtain out where "display en pid buf = Inr out" and "icmp_lines out =
      (if int (unat (load16 en (buf ! (ihl (buf ! 0) * 4 + 4)) (buf ! (ihl (buf ! 0) * 4 + 5)))) = pid
       then [icmp_line_at en buf (ihl (buf ! 0) * 4)] else [])"
    using display_lines [OF len] by blast
  then show ?thesis
    by (simp add: assms listen_step_def verify_echo_reply_1024 [OF len] shown_def own_reply_def
        Let_def ping_sizes)
qed

lemma listen_loop_lines:
  assumes "i \<le> PING_ATTEMPTS"
  shows "\<exists>out. listen_loop en pid recvs i = Inr out
    \<and> icmp_lines out = concat (map (\<lambda>i. shown en pid (recvs i)) [i..<PING_ATTEMPTS])"
  using assms
proof (induction "PING_ATTEMPTS - i" arbitrary: i)
  case 0
  then show ?case by (simp add: listen_loop.simps)
next
  case (Suc k)
  then have less: "i < PING_ATTEMPTS" and k: "k = PING_ATTEMPTS - (i + 1)" by arith+
  from Suc.hyps(1) [OF k] less obtain rest where rest:
    "listen_loop en pid recvs (i + 1) = Inr rest"
    "icmp_lines rest = concat (map (\<lambda>i. shown en pid (recvs i)) [i + 1..<PING_ATTEMPTS])"
    by (auto simp del: upt_Suc)
  obtain buf bytes where b: "recv_buf (recvs i) = (buf, bytes)" by fastforce
  obtain out where "listen_step en pid buf bytes = Inr out"
    and "icmp_lines out = shown en pid (recvs i)"
    using listen_step_lines [OF b] by blast
  with less rest b show ?case
    by (subst listen_loop.simps) (simp add: upt_conv_Cons [of i] del: upt_Suc)
qed

lemma icmp_lines_subset: "set (icmp_lines out) \<subseteq> set out"
  by (induction out rule: icmp_lines.induct) auto

lemma load16_store16: "load16 en (store16 en w ! 0) (store16 en w ! Suc 0) = w"
  by (cases en) (simp_all add: load16_def store16_def)

text \<open>The answer of the peer to request \<open>n\<close>: type and checksum are replaced, the rest is kept.\<close>

definition echo_reply :: "endian \<Rightarrow> int \<Rightarrow> nat \<Rightarrow> byte \<Rightarrow> byte \<Rightarrow> byte list" where
  "echo_reply en pid n c0 c1 = [ICMP_ECHOREPLY, 0, c0, c1] @ drop 4 (request_packet en pid n)"

lemma echo_reply_bytes:
  "echo_reply en pid n c0 c1 =
     [0, 0, c0, c1] @ store16 en (of_int pid) @ store16 en (of_nat n) @ payload"
  by (simp add: echo_reply_def request_packet_def request_bytes_def)

lemma shown_own_reply:
  assumes "length h = 20" and "h ! 0 = 0x45" and "0 \<le> pid" and "pid < 65536" and "n < 65536"
  shows "shown en pid (Some (h @ echo_reply en pid n c0 c1))
    = [Icmp_line 0 0 (unat (be16 c0 c1)) (nat pid) n]"
proof -
  let ?buf = "h @ echo_reply en pid n c0 c1 @ replicate 940 0"
  have buf: "recv_buf (Some (h @ echo_reply en pid n c0 c1)) = (?buf, 84)"
    using assms(1) by (simp add: recv_buf_def echo_reply_bytes)
  have off: "ihl (?buf ! 0) * 4 = 20"
    using assms(1, 2) by (simp add: nth_append ihl_def)
  have nth: "?buf ! (20 + k) = (echo_reply en pid n c0 c1 @ replicate 940 0) ! k" for k
    using assms(1) by (simp add: nth_append)
  have ident: "load16 en (?buf ! 24) (?buf ! 25) = of_int pid"
    using nth [of 4] nth [of 5] by (simp add: echo_reply_bytes nth_append load16_store16)
  have sequence: "load16 en (?buf ! 26) (?buf ! 27) = of_nat n"
    using nth [of 6] nth [of 7] by (simp add: echo_reply_bytes nth_append load16_store16)
  have rest: "?buf ! 20 = 0" "?buf ! 21 = 0" "?buf ! 22 = c0" "?buf ! 23 = c1"
    using nth [of 0] nth [of 1] nth [of 2] nth [of 3] by (simp_all add: echo_reply_bytes)
  have "unat (of_int pid :: 16 word) = nat pid" "unat (of_nat n :: 16 word) = n"
    "uint (of_int pid :: 16 word) = pid"
    using assms(3-5) by (simp_all add: unat_of_nat unsigned_of_int take_bit_int_eq_self)
  then show ?thesis
    unfolding shown_def buf own_reply_def icmp_line_at_def
    using assms(3, 4) ident sequence rest by (simp add: off del: append_assoc)
qed

lemma shown_large_pid: "65536 \<le> pid \<Longrightarrow> shown en pid r = []"
proof -
  assume pid: "65536 \<le> pid"
  have "int (unat w) < 65536" for w :: "16 word"
    using unsigned_less [of w, where ?'a = int] by simp
  then have "int (unat w) \<noteq> pid" for w :: "16 word" using pid by (metis linorder_not_less)
  then show ?thesis by (simp only: shown_def own_reply_def Let_def) (simp split: prod.split)
qed

section \<open>Properties\<close>

text \<open>C10. When the protocol is known and the socket opens, \<open>ping\<close> of \<open>myping.c\<close> sends
  exactly four packets, well-formed echo requests with the sequence numbers 1 to 4 and a valid
  checksum, whatever \<open>sendto\<close> and \<open>fcntl\<close> return.\<close>

theorem ping_sends_requests:
  assumes "p_proto env = Some pr" and "0 \<le> p_socket env"
  shows "\<exists>out. ping en pid env = Inr out
    \<and> list_all2 (well_formed_request en pid) [1, 2, 3, 4] (sent_packets out)"
  using ping_sends [OF assms] four_requests_ok by metis

definition demo_ping :: ping_env where
  "demo_ping = \<lparr> p_proto = Some 1, p_socket = 3, p_setsockopt = 0, p_fcntl = 0,
     p_recvs = (\<lambda>_. None), p_sends = (\<lambda>_. 64) \<rparr>"

theorem ping_sends_requests_witness:
  "\<exists>out. ping LittleE 4711 demo_ping = Inr out
    \<and> list_all2 (well_formed_request LittleE 4711) [1, 2, 3, 4] (sent_packets out)"
  by (rule ping_sends_requests) (simp_all add: demo_ping_def)

text \<open>C18. \<open>main\<close> of the two programs, when the host is found, the protocol is known and the
  sockets open.  Both read eight bytes at \<open>h_addr\<close>: where \<open>gethostbyname\<close> gives the four bytes
  of an IPv4 address this is undefined before anything is sent.  Only where eight bytes can be
  read, which nothing promises, both go on to the same address, the parent of \<open>myping.c\<close> sends
  the four requests, and the parent of the synchronous program sends the same four requests
  twice.\<close>

theorem sync_main_versus_myping:
  assumes "gethostbyname env host = Some h"
    and "p_proto (ping1_env env) = Some pr" and "0 \<le> p_socket (ping1_env env)"
    and "p_proto (ping2_env env) = Some pr" and "0 \<le> p_socket (ping2_env env)"
  shows "if length (h_addr h) < 8
    then sync_main en env [prog, host] = Inl OutOfBounds \<and> myping_main en env [prog, host] = Inl OutOfBounds
    else \<exists>r r4 out out4. sync_main en env [prog, host] = Inr (Inr r) \<and> parent r = Inr out
      \<and> myping_main en env [prog, host] = Inr (Inr r4) \<and> parent r4 = Inr out4 \<and> to_addr r = to_addr r4
      \<and> sent_packets out = sent_packets out4 @ sent_packets out4
      \<and> list_all2 (well_formed_request en (getpid env)) [1, 2, 3, 4] (sent_packets out4)"
proof (cases "length (h_addr h) < 8")
  case True
  with assms(1) show ?thesis by (simp add: sync_main_def myping_main_def s_addr_bytes_def rd_block_def)
next
  case False
  obtain o1 where "sync_ping en (getpid env) (ping1_env env) = Inr o1"
    "sent_packets o1 = four_requests en (getpid env)"
    using sync_ping_sends [OF assms(2, 3)] by blast
  moreover obtain o2 where "sync_ping en (getpid env) (ping2_env env) = Inr o2"
    "sent_packets o2 = four_requests en (getpid env)"
    using sync_ping_sends [OF assms(4, 5)] by blast
  moreover obtain o4 where "ping en (getpid env) (ping2_env env) = Inr o4"
    "sent_packets o4 = four_requests en (getpid env)"
    using ping_sends [OF assms(4, 5)] by blast
  ultimately show ?thesis
    using assms(1) False four_requests_ok [of en "getpid env"]
    by (simp add: sync_main_def myping_main_def s_addr_bytes_def rd_block_def)
qed

definition demo_listen :: listen_env where
  "demo_listen = \<lparr> l_proto = Some 1, l_socket = 4, l_setsockopt = 0, dispatch = Some False,
     l_recvs = (\<lambda>i. if i = 1
       then Some ([0x45, 0, 0, 84, 0, 0, 0, 0, 64, 1, 0, 0, 127, 0, 0, 1, 127, 0, 0, 1]
                  @ [0, 0, 1, 2] @ drop 4 (request_packet LittleE 4711 1))
       else None) \<rparr>"

text \<open>A host with the given bytes at \<open>h_addr\<close>.\<close>

definition demo_main :: "byte list \<Rightarrow> main_env" where
  "demo_main bytes = \<lparr> getpid = 4711, gethostbyname = (\<lambda>_. Some \<lparr> h_addrtype = 2, h_addr = bytes \<rparr>),
     fork = 4712, ping1_env = demo_ping, ping2_env = demo_ping, child_env = demo_listen \<rparr>"

theorem sync_main_versus_myping_witness:
  "sync_main LittleE (demo_main [127, 0, 0, 1]) [''myping'', ''localhost''] = Inl OutOfBounds
    \<and> (\<exists>r out out4. sync_main LittleE (demo_main [127, 0, 0, 1, 0, 0, 0, 0]) [''myping'', ''localhost''] = Inr (Inr r)
        \<and> parent r = Inr out \<and> sent_packets out = sent_packets out4 @ sent_packets out4
        \<and> list_all2 (well_formed_request LittleE 4711) [1, 2, 3, 4] (sent_packets out4))"
proof -
  have env: "gethostbyname (demo_main b) h = Some \<lparr> h_addrtype = 2, h_addr = b \<rparr>" "getpid (demo_main b) = 4711"
    "p_proto (ping1_env (demo_main b)) = Some 1" "0 \<le> p_socket (ping1_env (demo_main b))"
    "p_proto (ping2_env (demo_main b)) = Some 1" "0 \<le> p_socket (ping2_env (demo_main b))" for b h
    by (simp_all add: demo_main_def demo_ping_def)
  from sync_main_versus_myping [where env = "demo_main [127, 0, 0, 1]" and host = "''localhost''" and prog = "''myping''"
      and en = LittleE, OF env(1, 3-6)]
    sync_main_versus_myping [where env = "demo_main [127, 0, 0, 1, 0, 0, 0, 0]" and host = "''localhost''" and prog = "''myping''"
      and en = LittleE, OF env(1, 3-6)]
  show ?thesis by (auto simp: env(2))
qed

text \<open>C11. \<open>listener\<close> returns after four receives without undefined behaviour, whatever arrives,
  and prints the ICMP line of exactly those datagrams that are echo replies of at most 84 bytes
  with the id of the process.\<close>

theorem listener_shows:
  assumes "l_proto env = Some pr" and "0 \<le> l_socket env" and "0 \<le> l_setsockopt env"
    and "dispatch env = Some False"
  shows "\<exists>out. listener en pid env = Inr (out @ [Exit])
    \<and> icmp_lines out = concat (map (\<lambda>i. shown en pid (l_recvs env i)) [1, 2, 3, 4])"
proof -
  obtain out where "listen_loop en pid (l_recvs env) 1 = Inr out"
    and "icmp_lines out = concat (map (\<lambda>i. shown en pid (l_recvs env i)) [1..<5])"
    using listen_loop_lines [of 1 en pid "l_recvs env"] by (auto simp: ping_sizes simp del: upt_Suc)
  moreover have "[1..<5] = [1, 2, 3, 4 :: nat]" by (simp add: upt_conv_Cons)
  ultimately show ?thesis
    using assms by (simp add: listener_def listen_ev_thread_def del: upt_Suc)
qed

theorem listener_shows_witness:
  "\<exists>out. listener LittleE 4711 demo_listen = Inr (out @ [Exit])
    \<and> icmp_lines out = concat (map (\<lambda>i. shown LittleE 4711 (l_recvs demo_listen i)) [1, 2, 3, 4])"
  by (rule listener_shows) (simp_all add: demo_listen_def)

text \<open>C12. The reply to a request of this process, received in any of the four rounds behind an IP
  header without options, is recognised: the listener prints its id and its sequence number, for
  a pid below 65536.\<close>

theorem listener_shows_own_reply:
  assumes "l_proto env = Some pr" and "0 \<le> l_socket env" and "0 \<le> l_setsockopt env"
    and "dispatch env = Some False" and "i \<in> {1..4}"
    and "l_recvs env i = Some (h @ echo_reply en pid n c0 c1)"
    and "length h = 20" and "h ! 0 = 0x45" and "0 \<le> pid" and "pid < 65536" and "n < 65536"
  shows "\<exists>out. listener en pid env = Inr out
    \<and> Icmp_line 0 0 (unat (be16 c0 c1)) (nat pid) n \<in> set out"
proof -
  obtain out where "listen_loop en pid (l_recvs env) 1 = Inr out"
    and lines: "icmp_lines out = concat (map (\<lambda>i. shown en pid (l_recvs env i)) [1..<5])"
    using listen_loop_lines [of 1 en pid "l_recvs env"] by (auto simp: ping_sizes simp del: upt_Suc)
  then have "listener en pid env = Inr (out @ [Exit])"
    using assms(1-4) by (simp add: listener_def listen_ev_thread_def)
  moreover have "i \<in> set [1..<5]" using assms(5) by simp
  then have "Icmp_line 0 0 (unat (be16 c0 c1)) (nat pid) n \<in> set (icmp_lines out)"
    using assms(6) shown_own_reply [OF assms(7-11), of en c0 c1] unfolding lines
    by (auto simp del: upt_Suc intro!: bexI [of _ i])
  ultimately show ?thesis using icmp_lines_subset by fastforce
qed

theorem listener_shows_own_reply_witness:
  "\<exists>out. listener LittleE 4711 demo_listen = Inr out
    \<and> Icmp_line 0 0 (unat (be16 1 2)) (nat 4711) 1 \<in> set out"
  by (rule listener_shows_own_reply [where i = 1 and pr = 1
        and h = "[0x45, 0, 0, 84, 0, 0, 0, 0, 64, 1, 0, 0, 127, 0, 0, 1, 127, 0, 0, 1]"])
    (simp_all add: demo_listen_def echo_reply_def)

text \<open>With a pid of 65536 or more (Linux allows pids up to 4194304) no reply is ever
  recognised, although the requests carry the low 16 bits of the pid.\<close>

theorem listener_large_pid_blind:
  assumes "65536 \<le> pid" and "listener en pid env = Inr out"
  shows "icmp_lines out = []"
proof -
  have "\<exists>out. listen_loop en pid (l_recvs env) 1 = Inr out \<and> icmp_lines out = []"
    using listen_loop_lines [of 1 en pid "l_recvs env"]
    by (simp add: ping_sizes shown_large_pid [OF assms(1)] map_replicate_const)
  then show ?thesis
    using assms(2)
    by (auto simp: listener_def listen_ev_thread_def split: option.splits if_splits)
qed

theorem listener_large_pid_blind_witness:
  "\<exists>out. listener LittleE 70000 demo_listen = Inr out \<and> icmp_lines out = []"
proof -
  obtain out where "listener LittleE 70000 demo_listen = Inr out"
    using listen_loop_lines [of 1 LittleE 70000 "l_recvs demo_listen"]
    by (auto simp: listener_def listen_ev_thread_def ping_sizes demo_listen_def simp del: upt_Suc)
  then show ?thesis using listener_large_pid_blind [of 70000 LittleE demo_listen out] by simp
qed

text \<open>The synchronous program dereferences the null result of a failed lookup, where
  \<open>myping.c\<close> prints a message and exits.\<close>

lemma sync_main_unknown_host:
  assumes "gethostbyname env host = None"
  shows "sync_main en env [prog, host] = Inl NullDeref
    \<and> myping_main en env [prog, host]
        = Inr (Inl [Printf (''Failed to lookup host: '' @ host), Exit])"
  using assms by (simp add: sync_main_def myping_main_def)

end
