(* ===== verification/Ping6.thy ===== *)
theory Ping6
  imports Icmp_Checksum
begin

text \<open>
  The IPv6 ping over Ethernet, \<open>ICMP_ping/other_mypings/ping6_ll.c\<close>: the allocation helpers,
  the checksum over the pseudo-header, the construction of the frame, and the loop that sends it
  and waits for the reply.  The operating system (\<open>malloc\<close>, sockets, name resolution, address
  conversion, received frames) is the record \<open>env6\<close>.  A run is the list of what the program
  prints and sends, or a stop: \<open>exit(EXIT_FAILURE)\<close> or undefined behaviour.  The receive
  loop has no bound, so it is an option, \<open>None\<close> for a loop that does not end.
\<close>

section \<open>Data\<close>

definition ETH_HDRLEN :: nat where "ETH_HDRLEN = 14"
definition IP6_HDRLEN :: nat where "IP6_HDRLEN = 40"
definition ICMP_HDRLEN :: nat where "ICMP_HDRLEN = 8"

abbreviation (input) "IP_MAXPACKET \<equiv> 65535 :: nat"
abbreviation (input) "INET6_ADDRSTRLEN \<equiv> 46 :: nat"
abbreviation (input) "IPPROTO_ICMPV6 \<equiv> 58 :: byte"
abbreviation (input) "ICMP6_ECHO_REQUEST \<equiv> 128 :: byte"
abbreviation (input) "ICMP6_ECHO_REPLY \<equiv> 129 :: byte"
abbreviation (input) "ETH_P_IPV6 \<equiv> 0x86DD :: nat"

lemmas ping6_sizes = ETH_HDRLEN_def IP6_HDRLEN_def ICMP_HDRLEN_def

record ip6_hdr =
  ip6_flow :: "32 word"
  ip6_plen :: "16 word"
  ip6_nxt :: byte
  ip6_hops :: byte
  ip6_src :: "byte list"
  ip6_dst :: "byte list"

record icmp6_hdr =
  icmp6_type :: byte
  icmp6_code :: byte
  icmp6_cksum :: "16 word"
  icmp6_id :: "16 word"
  icmp6_seq :: "16 word"

definition ip6_bytes :: "endian \<Rightarrow> ip6_hdr \<Rightarrow> byte list" where
  "ip6_bytes en h = store32 en (ip6_flow h) @ store16 en (ip6_plen h) @ [ip6_nxt h, ip6_hops h]
     @ ip6_src h @ ip6_dst h"

definition icmp6_bytes :: "endian \<Rightarrow> icmp6_hdr \<Rightarrow> byte list" where
  "icmp6_bytes en h = [icmp6_type h, icmp6_code h] @ store16 en (icmp6_cksum h)
     @ store16 en (icmp6_id h) @ store16 en (icmp6_seq h)"

datatype event6 =
    Stdout string
  | Stderr string
  | Perror6 string
  | Index_line string nat
  | Mac_line "byte list"
  | Send_frame "byte list" "byte list" \<comment> \<open>the frame and \<open>device.sll_addr\<close>\<close>
  | No_reply
  | Got_reply string nat
  | Gave_up nat
  | Close6 int
  | Free6 nat

datatype stop6 = Crash c_err | Exit_failure "event6 list"

type_synonym 'a run6 = "stop6 + 'a"

definition crash :: "'a cres \<Rightarrow> 'a run6" where
  "crash m = (case m of Inl e \<Rightarrow> Inl (Crash e) | Inr x \<Rightarrow> Inr x)"

definition fail6 :: "event6 list \<Rightarrow> 'a run6" where
  "fail6 out = Inl (Exit_failure out)"

definition prefix6 :: "event6 list \<Rightarrow> event6 list run6 \<Rightarrow> event6 list run6" where
  "prefix6 out r = (case r of
      Inl (Exit_failure out') \<Rightarrow> fail6 (out @ out')
    | Inl (Crash e) \<Rightarrow> Inl (Crash e)
    | Inr out' \<Rightarrow> Inr (out @ out'))"

lemma crash_simps [simp]: "crash (Inl e) = Inl (Crash e)" "crash (Inr x) = Inr x"
  by (simp_all add: crash_def)

section \<open>Allocation\<close>

text \<open>\<open>ok\<close>: whether this call of \<open>malloc\<close> succeeds.\<close>

definition allocate_strmem :: "bool \<Rightarrow> int \<Rightarrow> byte list run6" where
  "allocate_strmem ok len =
     (if len \<le> 0 then fail6 [Stderr ''ERROR: Cannot allocate memory because len <= 0'']
      else if ok then Inr (replicate (nat len) 0)
      else fail6 [Stderr ''ERROR: Cannot allocate memory for array allocate_strmem()''])"

definition allocate_ustrmem :: "bool \<Rightarrow> int \<Rightarrow> byte list run6" where
  "allocate_ustrmem ok len =
     (if len \<le> 0 then fail6 [Stderr ''ERROR: Cannot allocate memory because len <= 0'']
      else if ok then Inr (replicate (nat len) 0)
      else fail6 [Stderr ''ERROR: Cannot allocate memory for array allocate_ustrmem()''])"

section \<open>The checksum over the pseudo-header\<close>

text \<open>Each step writes at \<open>ptr\<close>, which stands after what is written; \<open>buf\<close> has
  \<open>IP_MAXPACKET\<close> bytes.\<close>

definition put6 :: "byte list \<Rightarrow> byte list \<Rightarrow> byte list cres" where
  "put6 buf bs = (if length buf + length bs \<le> IP_MAXPACKET then Inr (buf @ bs) else Inl OutOfBounds)"

definition icmp6_checksum ::
    "endian \<Rightarrow> ip6_hdr \<Rightarrow> icmp6_hdr \<Rightarrow> byte list \<Rightarrow> nat \<Rightarrow> 16 word cres" where
  "icmp6_checksum en iphdr icmp6hdr payload payloadlen =
     bindE (put6 [] (ip6_src iphdr)) (\<lambda>b.
     bindE (put6 b (ip6_dst iphdr)) (\<lambda>b.
     bindE (put6 b [0, 0]) (\<lambda>b.
     bindE (put6 b [of_nat ((ICMP_HDRLEN + payloadlen) div 256)]) (\<lambda>b.
     bindE (put6 b [of_nat ((ICMP_HDRLEN + payloadlen) mod 256)]) (\<lambda>b.
     bindE (put6 b [0, 0, 0]) (\<lambda>b.
     bindE (put6 b [ip6_nxt iphdr]) (\<lambda>b.
     bindE (put6 b [icmp6_type icmp6hdr]) (\<lambda>b.
     bindE (put6 b [icmp6_code icmp6hdr]) (\<lambda>b.
     bindE (put6 b (store16 en (icmp6_id icmp6hdr))) (\<lambda>b.
     bindE (put6 b (store16 en (icmp6_seq icmp6hdr))) (\<lambda>b.
     bindE (put6 b [0, 0]) (\<lambda>b.
     bindE (rd_block payload 0 payloadlen) (\<lambda>p.
     bindE (put6 b p) (\<lambda>b.
     bindE (put6 b (replicate (payloadlen mod 2) 0)) (\<lambda>b.
     Inr (checksum6 en b))))))))))))))))"

section \<open>The frame\<close>

text \<open>\<open>LITTLE_ENDIAN\<close> is a macro that \<open>endian.h\<close> defines on every host, so the first branch
  of each \<open>#ifdef\<close> is the one that is compiled.\<close>

definition set_src_mac :: "byte list \<Rightarrow> byte list cres" where
  "set_src_mac m =
     bindE (wr m 0 0x77) (\<lambda>m. bindE (wr m 1 0x75) (\<lambda>m. bindE (wr m 2 0x66) (\<lambda>m.
     bindE (wr m 3 0x27) (\<lambda>m. bindE (wr m 4 0x00) (\<lambda>m. wr m 5 0x08)))))"

definition set_dst_mac :: "byte list \<Rightarrow> byte list cres" where
  "set_dst_mac m =
     bindE (wr m 0 0xff) (\<lambda>m. bindE (wr m 1 0xff) (\<lambda>m. bindE (wr m 2 0xff) (\<lambda>m.
     bindE (wr m 3 0xff) (\<lambda>m. bindE (wr m 4 0xff) (\<lambda>m. wr m 5 0xff)))))"

definition set_data :: "byte list \<Rightarrow> byte list cres" where
  "set_data d =
     bindE (wr d 0 84) (\<lambda>d. bindE (wr d 1 101) (\<lambda>d. bindE (wr d 2 115) (\<lambda>d. wr d 3 116)))"

definition send_headers ::
    "endian \<Rightarrow> byte list \<Rightarrow> byte list \<Rightarrow> byte list \<Rightarrow> nat \<Rightarrow> (ip6_hdr \<times> icmp6_hdr) cres" where
  "send_headers en src dst data datalen =
     (let iphdr = \<lparr> ip6_flow = ntohl en (push_bit 28 6 OR push_bit 20 0 OR 0),
            ip6_plen = htons en (of_nat (ICMP_HDRLEN + datalen)), ip6_nxt = IPPROTO_ICMPV6,
            ip6_hops = 255, ip6_src = src, ip6_dst = dst \<rparr>;
          icmphdr = \<lparr> icmp6_type = ICMP6_ECHO_REQUEST, icmp6_code = 0, icmp6_cksum = 0,
            icmp6_id = htons en 1000, icmp6_seq = htons en 0 \<rparr>
      in bindE (icmp6_checksum en iphdr icmphdr data datalen) (\<lambda>c.
         Inr (iphdr, icmphdr\<lparr>icmp6_cksum := c\<rparr>)))"

definition build_frame ::
    "endian \<Rightarrow> byte list \<Rightarrow> byte list \<Rightarrow> byte list \<Rightarrow> ip6_hdr \<Rightarrow> icmp6_hdr \<Rightarrow> byte list \<Rightarrow> nat
     \<Rightarrow> byte list cres" where
  "build_frame en frame dst_mac src_mac iphdr icmphdr data datalen =
     bindE (rd_block dst_mac 0 6) (\<lambda>dm. bindE (wr_block frame 0 dm) (\<lambda>frame.
     bindE (rd_block src_mac 0 6) (\<lambda>sm. bindE (wr_block frame 6 sm) (\<lambda>frame.
     bindE (wr frame 12 (of_nat (ETH_P_IPV6 div 256))) (\<lambda>frame.
     bindE (wr frame 13 (of_nat (ETH_P_IPV6 mod 256))) (\<lambda>frame.
     bindE (wr_block frame ETH_HDRLEN (ip6_bytes en iphdr)) (\<lambda>frame.
     bindE (wr_block frame (ETH_HDRLEN + IP6_HDRLEN) (icmp6_bytes en icmphdr)) (\<lambda>frame.
     bindE (rd_block data 0 datalen) (\<lambda>d.
     wr_block frame (ETH_HDRLEN + IP6_HDRLEN + ICMP_HDRLEN) d)))))))))"

section \<open>Sending and receiving\<close>

datatype recv6 = Frame "byte list" | Errno_EAGAIN | Errno_EINTR | Errno_other

datatype outcome6 = Timed_out | Failed | Reply "byte list" nat

text \<open>A byte of the receive buffer, which is zeroed before each \<open>recvfrom\<close> and keeps at most
  \<open>IP_MAXPACKET\<close> bytes of the frame.\<close>

definition frame_byte :: "byte list \<Rightarrow> nat \<Rightarrow> byte" where
  "frame_byte f i = (if i < length f then f ! i else 0)"

definition is_reply :: "byte list \<Rightarrow> bool" where
  "is_reply f \<longleftrightarrow>
     unat (frame_byte f 12) * 256 + unat (frame_byte f 13) = ETH_P_IPV6
     \<and> frame_byte f (ETH_HDRLEN + 6) = IPPROTO_ICMPV6
     \<and> frame_byte f (ETH_HDRLEN + IP6_HDRLEN) = ICMP6_ECHO_REPLY
     \<and> frame_byte f (ETH_HDRLEN + IP6_HDRLEN + 1) = 0"

partial_function (option) recv_loop :: "(nat \<Rightarrow> recv6) \<Rightarrow> nat \<Rightarrow> (outcome6 \<times> nat) option" where
  "recv_loop recvs k =
     (case recvs k of
        Errno_EAGAIN \<Rightarrow> Some (Timed_out, k + 1)
      | Errno_EINTR \<Rightarrow> recv_loop recvs (k + 1)
      | Errno_other \<Rightarrow> Some (Failed, k + 1)
      | Frame f \<Rightarrow>
          if is_reply (take IP_MAXPACKET f)
          then Some (Reply (map (frame_byte f) [ETH_HDRLEN + 8..<ETH_HDRLEN + 24])
                       (length (take IP_MAXPACKET f)), k + 1)
          else recv_loop recvs (k + 1))"

record env6 =
  malloc_ok :: "nat \<Rightarrow> bool"
  sendsd :: int
  if_nametoindex :: "string \<Rightarrow> nat"
  getaddrinfo :: "string \<Rightarrow> int + byte list"   \<comment> \<open>status, or the 16 bytes of \<open>sin6_addr\<close>\<close>
  inet_ntop :: "byte list \<Rightarrow> string option"
  inet_pton :: "string \<Rightarrow> byte list option"
  recvsd :: int
  sends6 :: "nat \<Rightarrow> int"
  recvs6 :: "nat \<Rightarrow> recv6"

abbreviation (input) "trylim \<equiv> 3 :: nat"

text \<open>\<open>i\<close> counts the calls of \<open>sendto\<close>, \<open>k\<close> those of \<open>recvfrom\<close>.\<close>

partial_function (option) send_loop ::
    "env6 \<Rightarrow> byte list \<Rightarrow> byte list \<Rightarrow> nat \<Rightarrow> nat \<Rightarrow> nat \<Rightarrow> event6 list run6 option" where
  "send_loop env frame sll i k trycount =
     (if sends6 env i \<le> 0
      then Some (fail6 [Send_frame frame sll, Perror6 ''sendto() failed ''])
      else Option.bind (recv_loop (recvs6 env) k) (\<lambda>(oc, k').
        case oc of
          Failed \<Rightarrow> Some (fail6 [Send_frame frame sll, Perror6 ''recvfrom() failed ''])
        | Reply src n \<Rightarrow>
            (case inet_ntop env src of
               None \<Rightarrow> Some (fail6 [Send_frame frame sll, Stderr ''inet_ntop() failed.''])
             | Some s \<Rightarrow> Some (Inr [Send_frame frame sll, Got_reply s n]))
        | Timed_out \<Rightarrow>
            if trycount + 1 = trylim
            then Some (Inr [Send_frame frame sll, No_reply, Gave_up trylim])
            else Option.bind (send_loop env frame sll (i + 1) k' (trycount + 1)) (\<lambda>r.
              Some (prefix6 [Send_frame frame sll, No_reply] r))))"

section \<open>\<open>main\<close>\<close>

definition strcpy6 :: "byte list \<Rightarrow> string \<Rightarrow> byte list cres" where
  "strcpy6 buf s = wr_block buf 0 (map of_char s @ [0])"

text \<open>The ten buffers, in the order of their allocation.\<close>

definition alloc_buffers :: "env6 \<Rightarrow> (byte list list) run6" where
  "alloc_buffers env =
     bindE (allocate_ustrmem (malloc_ok env 0) 6) (\<lambda>src_mac.
     bindE (allocate_ustrmem (malloc_ok env 1) 6) (\<lambda>dst_mac.
     bindE (allocate_ustrmem (malloc_ok env 2) (int IP_MAXPACKET)) (\<lambda>data.
     bindE (allocate_ustrmem (malloc_ok env 3) (int IP_MAXPACKET)) (\<lambda>send_frame.
     bindE (allocate_ustrmem (malloc_ok env 4) (int IP_MAXPACKET)) (\<lambda>recv_frame.
     bindE (allocate_strmem (malloc_ok env 5) 40) (\<lambda>interface.
     bindE (allocate_strmem (malloc_ok env 6) (int INET6_ADDRSTRLEN)) (\<lambda>target.
     bindE (allocate_strmem (malloc_ok env 7) (int INET6_ADDRSTRLEN)) (\<lambda>src_ip.
     bindE (allocate_strmem (malloc_ok env 8) (int INET6_ADDRSTRLEN)) (\<lambda>dst_ip.
     bindE (allocate_strmem (malloc_ok env 9) (int INET6_ADDRSTRLEN)) (\<lambda>rec_ip.
     Inr [src_mac, dst_mac, data, send_frame, recv_frame, interface, target, src_ip, dst_ip, rec_ip]))))))))))"

text \<open>Interface, addresses, headers and frame; the result is the frame as it is sent, the link
  address of the device and what was printed.\<close>

definition prepare6 ::
    "endian \<Rightarrow> env6 \<Rightarrow> byte list list \<Rightarrow> (byte list \<times> byte list \<times> event6 list) run6" where
  "prepare6 en env bufs =
     bindE (crash (strcpy6 (bufs ! 5) ''enp0s3'')) (\<lambda>interface.
     if sendsd env < 0
     then fail6 [Perror6 ''socket() failed to get socket descriptor for using ioctl() ''] else
     bindE (crash (set_src_mac (bufs ! 0))) (\<lambda>src_mac.
     let out = [Mac_line src_mac]; ifindex = if_nametoindex env ''enp0s3'' in
     if ifindex = 0
     then fail6 (out @ [Perror6 ''if_nametoindex() failed to obtain interface index '']) else
     let out = out @ [Index_line ''enp0s3'' ifindex] in
     bindE (crash (set_dst_mac (bufs ! 1))) (\<lambda>dst_mac.
     bindE (crash (strcpy6 (bufs ! 7) ''2001:db8::214:51ff:fe2f:1556'')) (\<lambda>src_ip.
     bindE (crash (strcpy6 (bufs ! 6) ''ipv6.google.com'')) (\<lambda>target.
     case getaddrinfo env ''ipv6.google.com'' of
       Inl status \<Rightarrow> fail6 (out @ [Stderr ''getaddrinfo() failed''])
     | Inr addr \<Rightarrow>
     (case inet_ntop env addr of
       None \<Rightarrow> fail6 (out @ [Stderr ''inet_ntop() failed.''])
     | Some dst_ip \<Rightarrow>
     bindE (crash (rd_block (map of_char ''08:00:27:66:75:77'') 0 6)) (\<lambda>sll_addr.
     bindE (crash (set_data (bufs ! 2))) (\<lambda>data.
     (case inet_pton env ''2001:db8::214:51ff:fe2f:1556'' of
       None \<Rightarrow> fail6 (out @ [Stderr ''inet_pton() failed.''])
     | Some src \<Rightarrow>
     (case inet_pton env dst_ip of
       None \<Rightarrow> fail6 (out @ [Stderr ''inet_pton() failed.''])
     | Some dst \<Rightarrow>
     bindE (crash (send_headers en src dst data 4)) (\<lambda>(iphdr, icmphdr).
     bindE (crash (build_frame en (bufs ! 3) dst_mac src_mac iphdr icmphdr data 4)) (\<lambda>frame.
     bindE (crash (rd_block frame 0 (6 + 6 + 2 + IP6_HDRLEN + ICMP_HDRLEN + 4))) (\<lambda>sent.
     if recvsd env < 0 then fail6 (out @ [Perror6 ''socket() failed ''])
     else Inr (sent, sll_addr, out))))))))))))))"

definition ping6_main :: "endian \<Rightarrow> env6 \<Rightarrow> event6 list run6 option" where
  "ping6_main en env =
     bindO (Some (alloc_buffers env)) (\<lambda>bufs.
     bindO (Some (prepare6 en env bufs)) (\<lambda>(frame, sll, out).
     Option.bind (send_loop env frame sll 0 0 0) (\<lambda>r.
     bindO (Some (prefix6 out r)) (\<lambda>out.
     Some (Inr (out @ [Close6 (sendsd env), Close6 (recvsd env)] @ map Free6 [0..<10]))))))"

section \<open>The checksum of the message\<close>

definition pseudo_header :: "byte list \<Rightarrow> byte list \<Rightarrow> nat \<Rightarrow> byte \<Rightarrow> byte list" where
  "pseudo_header src dst n nxt =
     src @ dst @ [0, 0, of_nat (n div 256), of_nat (n mod 256)] @ [0, 0, 0, nxt]"

lemma put6_ok: "length buf + length bs \<le> 65535 \<Longrightarrow> put6 buf bs = Inr (buf @ bs)"
  by (simp add: put6_def)

text \<open>The code sums the checksum field after the sequence number, the packet has it before the
  id: the sum is the same.\<close>

lemma icmp6_checksum_value:
  assumes "length (ip6_src ip) = 16" and "length (ip6_dst ip) = 16" and "n \<le> length payload"
    and "48 + n + n mod 2 \<le> 65535"
  shows "icmp6_checksum en ip ic payload n = Inr (checksum6 en
    ((pseudo_header (ip6_src ip) (ip6_dst ip) (8 + n) (ip6_nxt ip) @ [icmp6_type ic, icmp6_code ic])
     @ [0, 0] @ store16 en (icmp6_id ic) @ store16 en (icmp6_seq ic) @ take n payload
     @ replicate (n mod 2) 0))"
proof -
  let ?ps = "pseudo_header (ip6_src ip) (ip6_dst ip) (8 + n) (ip6_nxt ip) @ [icmp6_type ic, icmp6_code ic]"
  let ?is = "store16 en (icmp6_id ic) @ store16 en (icmp6_seq ic)"
  let ?pl = "take n payload @ replicate (n mod 2) 0"
  have "icmp6_checksum en ip ic payload n = Inr (checksum6 en (?ps @ ?is @ [0, 0] @ ?pl))"
    using assms by (simp add: icmp6_checksum_def put6_ok rd_block_def pseudo_header_def ping6_sizes)
  moreover have "even (length ?ps)" "even (length ?is)"
    using assms(1, 2) by (simp_all add: pseudo_header_def)
  then have "word_sum en (?ps @ ?is @ [0, 0] @ ?pl) = word_sum en (?ps @ [0, 0] @ ?is @ ?pl)"
    by (simp only: word_sum_append) (simp add: word_sum_append)
  moreover have "length (?ps @ ?is @ [0, 0] @ ?pl) \<le> 131072" "length (?ps @ [0, 0] @ ?is @ ?pl) \<le> 131072"
    using assms by (simp_all add: pseudo_header_def)
  ultimately show ?thesis by (simp add: ck6.cks_oc)
qed

section \<open>The frame that is sent\<close>

lemma wr_eq_wr_block: "wr a i v = wr_block a i [v]"
  by (simp add: wr_def wr_block_def upd_conv_take_nth_drop)

lemma set_src_mac_6: "length m = 6 \<Longrightarrow> set_src_mac m = Inr [0x77, 0x75, 0x66, 0x27, 0x00, 0x08]"
  by (auto simp: set_src_mac_def wr_def length_Suc_conv numeral_eq_Suc)

lemma set_dst_mac_6: "length m = 6 \<Longrightarrow> set_dst_mac m = Inr (replicate 6 0xff)"
  by (auto simp: set_dst_mac_def wr_def length_Suc_conv numeral_eq_Suc)

lemma set_data_4: "4 \<le> length d \<Longrightarrow> set_data d = Inr ([84, 101, 115, 116] @ drop 4 d)"
  by (auto simp: set_data_def wr_def Suc_le_length_iff numeral_eq_Suc)

lemma build_frame_ok:
  assumes "length dm = 6" and "length sm = 6" and "length (ip6_bytes en ip) = 40"
    and "length (icmp6_bytes en ic) = 8" and "n \<le> length data" and "62 + n \<le> length f"
  shows "build_frame en f dm sm ip ic data n =
    Inr (dm @ sm @ [0x86, 0xDD] @ ip6_bytes en ip @ icmp6_bytes en ic @ take n data @ drop (62 + n) f)"
proof -
  obtain m where f: "length f = 62 + n + m" using assms(6) le_iff_add by blast
  have "drop (n + 50) (134 # 221 # ip6_bytes en ip @ icmp6_bytes en ic @ drop 62 f) = drop (n + 62) f"
    using assms(3, 4) by (simp add: drop_Cons')
  then show ?thesis
    using assms(1-5) f
    by (simp add: build_frame_def wr_eq_wr_block wr_block_def rd_block_def ping6_sizes add.commute)
qed

definition message6 :: "endian \<Rightarrow> byte list \<Rightarrow> byte list \<Rightarrow> byte list" where
  "message6 en src dst =
     (let tail = [3, 232, 0, 0] @ [84, 101, 115, 116]
      in [128, 0] @ store16 en (checksum6 en ((pseudo_header src dst 12 58 @ [128, 0]) @ [0, 0] @ tail)) @ tail)"

definition frame6 :: "endian \<Rightarrow> byte list \<Rightarrow> byte list \<Rightarrow> byte list" where
  "frame6 en src dst =
     replicate 6 0xff @ [0x77, 0x75, 0x66, 0x27, 0x00, 0x08] @ [0x86, 0xDD]
     @ [0x60, 0, 0, 0, 0, 12, 58, 255] @ src @ dst @ message6 en src dst"

lemma store16_id_seq:
  "store16 en (htons en 1000) = [3, 232]" "store16 en (htons en 12) = [0, 12]"
  "store16 en (htons en 0) = [0, 0]"
  by (simp_all add: store16_htons hi8_def lo8_def drop_bit_eq_div)

lemma store32_flow: "store32 en (ntohl en 0x60000000) = [0x60, 0, 0, 0]"
proof -
  have *: "(0x60000000 :: 32 word) = be32 0x60 0 0 0"
    by (simp add: be32_def be16_def word_cat_eq push_bit_eq_mult)
  show ?thesis unfolding * by (cases en) (simp_all add: store32_def ntohl_def)
qed

lemma send_headers_ok:
  assumes "length src = 16" and "length dst = 16" and "take 4 data = [84, 101, 115, 116]"
  obtains ip ic where "send_headers en src dst data 4 = Inr (ip, ic)"
    and "ip6_bytes en ip = [0x60, 0, 0, 0, 0, 12, 58, 255] @ src @ dst"
    and "icmp6_bytes en ic @ take 4 data = message6 en src dst"
proof -
  have "4 \<le> length data" using arg_cong [OF assms(3), of length] by simp
  then show ?thesis
    using assms that
    by (simp add: send_headers_def icmp6_checksum_value ip6_bytes_def icmp6_bytes_def message6_def
        store32_flow store16_id_seq ping6_sizes Let_def)
qed

text \<open>The set-up succeeds: memory, sockets, interface and name resolution are there, and the
  address conversions give 16 bytes, as their manual says.\<close>

definition set_up :: "env6 \<Rightarrow> byte list \<Rightarrow> byte list \<Rightarrow> bool" where
  "set_up env src dst \<longleftrightarrow>
     list_all (malloc_ok env) [0..<10] \<and> 0 \<le> sendsd env \<and> 0 \<le> recvsd env
     \<and> if_nametoindex env ''enp0s3'' \<noteq> 0 \<and> length src = 16 \<and> length dst = 16
     \<and> inet_pton env ''2001:db8::214:51ff:fe2f:1556'' = Some src
     \<and> (case getaddrinfo env ''ipv6.google.com'' of Inl _ \<Rightarrow> False | Inr a \<Rightarrow>
         (case inet_ntop env a of None \<Rightarrow> False | Some s \<Rightarrow> inet_pton env s = Some dst))"

lemma strcpy6_ok: "length s < length buf \<Longrightarrow> \<exists>b. strcpy6 buf s = Inr b"
  by (simp add: strcpy6_def wr_block_def)

lemma alloc_buffers_ok:
  assumes "list_all (malloc_ok env) [0..<10]"
  shows "alloc_buffers env = Inr ([replicate 6 0, replicate 6 0] @ replicate 3 (replicate 65535 0)
    @ [replicate 40 0] @ replicate 4 (replicate 46 0))"
proof -
  have ok: "malloc_ok env i" if "i < 10" for i using assms that by (simp add: list_all_iff)
  have "replicate 3 x = [x, x, x]" "replicate 4 x = [x, x, x, x]" for x :: "byte list"
    by (simp_all add: numeral_eq_Suc)
  then show ?thesis
    by (simp only: alloc_buffers_def allocate_ustrmem_def allocate_strmem_def) (simp add: ok)
qed

lemma prepare6_ok:
  assumes "set_up env src dst" and "length bufs = 10" and "length (bufs ! 0) = 6" and "length (bufs ! 1) = 6"
    and "length (bufs ! 2) = 65535" and "length (bufs ! 3) = 65535" and "length (bufs ! 5) = 40"
    and "length (bufs ! 6) = 46" and "length (bufs ! 7) = 46"
  shows "prepare6 en env bufs = Inr (frame6 en src dst, map of_char ''08:00:'',
    [Mac_line [0x77, 0x75, 0x66, 0x27, 0x00, 0x08], Index_line ''enp0s3'' (if_nametoindex env ''enp0s3'')])"
proof -
  obtain b5 b6 b7 where "strcpy6 (bufs ! 5) ''enp0s3'' = Inr b5" "strcpy6 (bufs ! 6) ''ipv6.google.com'' = Inr b6"
    "strcpy6 (bufs ! 7) ''2001:db8::214:51ff:fe2f:1556'' = Inr b7"
    using assms strcpy6_ok [of "''enp0s3''" "bufs ! 5"] strcpy6_ok [of "''ipv6.google.com''" "bufs ! 6"]
      strcpy6_ok [of "''2001:db8::214:51ff:fe2f:1556''" "bufs ! 7"] by auto
  moreover define data where "data = [84, 101, 115, 116] @ drop 4 (bufs ! 2)"
  then have data: "set_data (bufs ! 2) = Inr data" "take 4 data = [84, 101, 115, 116]" "4 \<le> length data"
    using assms by (simp_all add: set_data_4)
  have len: "length src = 16" "length dst = 16" using assms(1) by (simp_all add: set_up_def)
  obtain ip ic where h: "send_headers en src dst data 4 = Inr (ip, ic)"
    "ip6_bytes en ip = [0x60, 0, 0, 0, 0, 12, 58, 255] @ src @ dst"
    "icmp6_bytes en ic @ take 4 data = message6 en src dst"
    using send_headers_ok [OF len data(2)] .
  have msg: "message6 en src dst = icmp6_bytes en ic @ [84, 101, 115, 116]"
    using h(3) data(2) by simp
  have "length (ip6_bytes en ip) = 40" "length (icmp6_bytes en ic) = 8"
    using h len by (simp_all add: icmp6_bytes_def)
  then have "build_frame en (bufs ! 3) (replicate 6 0xff) [0x77, 0x75, 0x66, 0x27, 0x00, 0x08] ip ic data 4
      = Inr (frame6 en src dst @ drop 66 (bufs ! 3))"
    using assms h data by (simp add: build_frame_ok frame6_def msg)
  moreover have "length (frame6 en src dst) = 66"
    using len by (simp add: frame6_def message6_def Let_def)
  ultimately show ?thesis
    using assms(1, 3, 4) data h
    by (auto simp: prepare6_def set_src_mac_6 set_dst_mac_6 set_up_def rd_block_def ping6_sizes
        split: sum.splits option.splits)
qed

definition close_and_free :: "env6 \<Rightarrow> event6 list" where
  "close_and_free env = [Close6 (sendsd env), Close6 (recvsd env)] @ map Free6 [0..<10]"

lemma ping6_main_loop:
  assumes "set_up env src dst"
  obtains out where "ping6_main en env =
    Option.bind (send_loop env (frame6 en src dst) (map of_char ''08:00:'') 0 0 0) (\<lambda>r.
      bindO (Some (prefix6 out r)) (\<lambda>out. Some (Inr (out @ close_and_free env))))"
    and "\<And>f a. Send_frame f a \<notin> set out"
proof -
  let ?bufs = "[replicate 6 0, replicate 6 0] @ replicate 3 (replicate 65535 0)
    @ [replicate 40 0] @ replicate 4 (replicate 46 0)"
  have "list_all (malloc_ok env) [0..<10]" using assms by (simp add: set_up_def)
  note alloc_buffers_ok [OF this]
  moreover note prepare6_ok [OF assms, of ?bufs en]
  ultimately show ?thesis
    by (intro that [of "[Mac_line [0x77, 0x75, 0x66, 0x27, 0x00, 0x08],
          Index_line ''enp0s3'' (if_nametoindex env ''enp0s3'')]"])
      (simp_all add: ping6_main_def close_and_free_def nth_append)
qed

section \<open>The loops\<close>

text \<open>A receive after which the inner loop goes on.\<close>

definition keeps :: "recv6 \<Rightarrow> bool" where
  "keeps r = (case r of
      Errno_EINTR \<Rightarrow> True
    | Frame f \<Rightarrow> \<not> is_reply (take IP_MAXPACKET f)
    | _ \<Rightarrow> False)"

lemma recv_loop_step:
  "keeps (recvs k) \<Longrightarrow> recv_loop recvs k = recv_loop recvs (k + 1)"
  "\<not> keeps (recvs k) \<Longrightarrow> \<exists>oc. recv_loop recvs k = Some (oc, k + 1)"
  by (simp_all add: recv_loop.simps [of recvs k] keeps_def split: recv6.splits)

lemma recv_loop_ends:
  assumes "k \<le> j" and "\<not> keeps (recvs j)"
  shows "\<exists>oc k'. recv_loop recvs k = Some (oc, k')"
  using assms(1)
proof (induction rule: inc_induct)
  case base
  then show ?case using recv_loop_step(2) [of recvs j] assms(2) by blast
next
  case (step n)
  then show ?case using recv_loop_step [of recvs n] by (cases "keeps (recvs n)") auto
qed

lemma recv_loop_some:
  assumes ret: "recv_loop recvs k = Some y"
  shows "\<exists>j\<ge>k. \<not> keeps (recvs j)"
proof (rule recv_loop.raw_induct [where P = "\<lambda>recvs k y. \<exists>j\<ge>k. \<not> keeps (recvs j)", OF _ ret])
  fix f :: "(nat \<Rightarrow> recv6) \<Rightarrow> nat \<Rightarrow> (outcome6 \<times> nat) option" and recvs k y
  assume IH: "\<And>recvs k y. f recvs k = Some y \<Longrightarrow> \<exists>j\<ge>k. \<not> keeps (recvs j)"
    and eq: "(case recvs k of
        Frame fr \<Rightarrow>
          if is_reply (take IP_MAXPACKET fr)
          then Some (Reply (map (frame_byte fr) [ETH_HDRLEN + 8..<ETH_HDRLEN + 24])
                       (length (take IP_MAXPACKET fr)), k + 1)
          else f recvs (k + 1)
      | Errno_EAGAIN \<Rightarrow> Some (Timed_out, k + 1)
      | Errno_EINTR \<Rightarrow> f recvs (k + 1)
      | Errno_other \<Rightarrow> Some (Failed, k + 1)) = Some y"
  show "\<exists>j\<ge>k. \<not> keeps (recvs j)"
  proof (cases "keeps (recvs k)")
    case True
    with eq have "f recvs (k + 1) = Some y" by (simp add: keeps_def split: recv6.splits if_splits)
    from IH [OF this] obtain j where "k + 1 \<le> j" "\<not> keeps (recvs j)" by blast
    then show ?thesis by (intro exI [of _ j]) simp
  qed auto
qed

lemma recv_loop_hangs: "(\<And>j. keeps (recvs j)) \<Longrightarrow> recv_loop recvs k = None"
  using recv_loop_some [of recvs k] by (cases "recv_loop recvs k") auto

fun frames_in :: "event6 list \<Rightarrow> byte list list" where
  "frames_in [] = []"
| "frames_in (Send_frame f a # t) = f # frames_in t"
| "frames_in (_ # t) = frames_in t"

lemma frames_in_append [simp]: "frames_in (s @ t) = frames_in s @ frames_in t"
  by (induction s rule: frames_in.induct) simp_all

lemma frames_in_none: "(\<And>f a. Send_frame f a \<notin> set out) \<Longrightarrow> frames_in out = []"
  by (induction out rule: frames_in.induct) auto

definition frames_sent :: "event6 list run6 \<Rightarrow> byte list list" where
  "frames_sent r = (case r of
      Inl (Exit_failure out) \<Rightarrow> frames_in out | Inl (Crash e) \<Rightarrow> [] | Inr out \<Rightarrow> frames_in out)"

definition not_crash :: "event6 list run6 \<Rightarrow> bool" where
  "not_crash r = (case r of Inl (Crash e) \<Rightarrow> False | _ \<Rightarrow> True)"

lemma frames_sent_prefix:
  "not_crash r \<Longrightarrow> frames_sent (prefix6 out r) = frames_in out @ frames_sent r"
  "not_crash r \<Longrightarrow> not_crash (prefix6 out r)"
  by (auto simp: not_crash_def frames_sent_def prefix6_def fail6_def split: sum.splits stop6.splits)

lemma send_loop_ends:
  assumes "\<And>k. \<exists>j\<ge>k. \<not> keeps (recvs6 env j)" and "t < 3"
  shows "\<exists>r n. send_loop env f sll i k t = Some r \<and> not_crash r
    \<and> frames_sent r = replicate n f \<and> 1 \<le> n \<and> n \<le> 3 - t"
  using assms(2)
proof (induction "3 - t" arbitrary: i k t)
  case (Suc m)
  obtain oc k' where rl: "recv_loop (recvs6 env) k = Some (oc, k')"
    using assms(1) recv_loop_ends by metis
  show ?case
  proof (cases "0 < sends6 env i \<and> oc = Timed_out \<and> t + 1 < 3")
    case True
    then have "m = 3 - (t + 1)" using Suc.hyps(2) by simp
    from Suc.hyps(1) [OF this, of "i + 1" k'] True obtain r n where
      "send_loop env f sll (i + 1) k' (t + 1) = Some r" "not_crash r"
      "frames_sent r = replicate n f" "1 \<le> n" "n \<le> 3 - (t + 1)" by auto
    then show ?thesis
      using True rl
      by (intro exI [of _ "prefix6 [Send_frame f sll, No_reply] r"] exI [of _ "Suc n"])
        (simp add: send_loop.simps [of env f sll i k] frames_sent_prefix)
  next
    case False
    with rl have "\<exists>r0. send_loop env f sll i k t = Some r0 \<and> not_crash r0 \<and> frames_sent r0 = [f]"
      using Suc.prems
      by (simp add: send_loop.simps [of env f sll i k] not_crash_def frames_sent_def fail6_def
          split: outcome6.splits option.splits) linarith
    then obtain r0 where "send_loop env f sll i k t = Some r0" "not_crash r0" "frames_sent r0 = [f]"
      by blast
    then show ?thesis using Suc.prems by (intro exI [of _ r0] exI [of _ 1]) simp
  qed
qed simp

section \<open>Properties\<close>

lemma even_pseudo_header:
  "length src = 16 \<Longrightarrow> length dst = 16 \<Longrightarrow> even (length (pseudo_header src dst n nxt))"
  by (simp add: pseudo_header_def)

text \<open>C16. For every payload that fits the buffer, odd lengths included, \<open>icmp6_checksum\<close> returns
  without undefined behaviour the value that makes the checksum of the pseudo-header and the
  (padded) ICMPv6 message 0 at the receiver, although it sums the fields in another order than
  they have in the packet.\<close>

theorem icmp6_checksum_receiver_zero:
  assumes "length (ip6_src ip) = 16" and "length (ip6_dst ip) = 16" and "n \<le> length payload"
    and "48 + n + n mod 2 \<le> 65535"
  shows "\<exists>c. icmp6_checksum en ip ic payload n = Inr c
    \<and> checksum6 en (pseudo_header (ip6_src ip) (ip6_dst ip) (8 + n) (ip6_nxt ip)
        @ icmp6_bytes en (ic\<lparr>icmp6_cksum := c\<rparr>) @ take n payload @ replicate (n mod 2) 0) = 0"
proof -
  let ?p = "pseudo_header (ip6_src ip) (ip6_dst ip) (8 + n) (ip6_nxt ip) @ [icmp6_type ic, icmp6_code ic]"
  let ?q = "store16 en (icmp6_id ic) @ store16 en (icmp6_seq ic) @ take n payload @ replicate (n mod 2) 0"
  have "checksum6 en (?p @ store16 en (checksum6 en (?p @ [0, 0] @ ?q)) @ ?q) = 0"
    using assms by (intro ck6.receiver_zero) (simp_all add: pseudo_header_def)
  then show ?thesis using icmp6_checksum_value [OF assms] by (simp add: icmp6_bytes_def)
qed

theorem icmp6_checksum_receiver_zero_witness:
  "\<exists>c. icmp6_checksum LittleE \<lparr> ip6_flow = 0, ip6_plen = 0, ip6_nxt = 58, ip6_hops = 255,
        ip6_src = replicate 16 1, ip6_dst = replicate 16 2 \<rparr> \<lparr> icmp6_type = 128, icmp6_code = 0,
        icmp6_cksum = 0, icmp6_id = 5, icmp6_seq = 6 \<rparr> [9, 8, 7] 3 = Inr c
    \<and> checksum6 LittleE (pseudo_header (replicate 16 1) (replicate 16 2) 11 58
        @ icmp6_bytes LittleE \<lparr> icmp6_type = 128, icmp6_code = 0, icmp6_cksum = c, icmp6_id = 5,
            icmp6_seq = 6 \<rparr> @ [9, 8, 7] @ [0]) = 0"
  using icmp6_checksum_receiver_zero
    [of "\<lparr> ip6_flow = 0, ip6_plen = 0, ip6_nxt = 58, ip6_hops = 255,
        ip6_src = replicate 16 1, ip6_dst = replicate 16 2 \<rparr>" 3 "[9, 8, 7]" LittleE
      "\<lparr> icmp6_type = 128, icmp6_code = 0, icmp6_cksum = 0, icmp6_id = 5, icmp6_seq = 6 \<rparr>"]
  by simp

text \<open>What the program should put on the wire: an Ethernet frame of type IPv6 to the broadcast
  address with an IPv6 header for 12 bytes of ICMPv6 and an echo request with a valid checksum.\<close>

definition valid_frame6 :: "endian \<Rightarrow> byte list \<Rightarrow> byte list \<Rightarrow> byte list \<Rightarrow> bool" where
  "valid_frame6 en src dst f \<longleftrightarrow>
     length f = 66 \<and> take 6 f = replicate 6 0xff \<and> take 2 (drop 12 f) = [0x86, 0xDD]
     \<and> take 40 (drop 14 f) = [0x60, 0, 0, 0, 0, 12, 58, 255] @ src @ dst
     \<and> take 2 (drop 54 f) = [128, 0] \<and> drop 58 f = [3, 232, 0, 0, 84, 101, 115, 116]
     \<and> checksum6 en (pseudo_header src dst 12 58 @ drop 54 f) = 0"

lemma valid_frame6_frame6:
  assumes "length src = 16" and "length dst = 16"
  shows "valid_frame6 en src dst (frame6 en src dst)"
proof -
  let ?q = "[3, 232, 0, 0] @ [84, 101, 115, 116]" and ?p = "pseudo_header src dst 12 58 @ [128, 0]"
  have "checksum6 en (?p @ store16 en (checksum6 en (?p @ [0, 0] @ ?q)) @ ?q) = 0"
    using assms by (intro ck6.receiver_zero) (simp_all add: pseudo_header_def)
  then show ?thesis
    using assms by (simp add: valid_frame6_def frame6_def message6_def Let_def)
qed

text \<open>C15. When the set-up succeeds and every wait ends at some time (with a timeout, an error or a
  reply), the program ends without undefined behaviour; it has sent between one and three frames,
  each a valid echo request.\<close>

theorem ping6_sends_at_most_three:
  assumes "set_up env src dst" and "\<And>k. \<exists>j\<ge>k. \<not> keeps (recvs6 env j)"
  shows "\<exists>r. ping6_main en env = Some r \<and> not_crash r
    \<and> length (frames_sent r) \<in> {1..3} \<and> list_all (valid_frame6 en src dst) (frames_sent r)"
proof -
  obtain out where main: "ping6_main en env =
      Option.bind (send_loop env (frame6 en src dst) (map of_char ''08:00:'') 0 0 0) (\<lambda>r.
        bindO (Some (prefix6 out r)) (\<lambda>out. Some (Inr (out @ close_and_free env))))"
    and "\<And>f a. Send_frame f a \<notin> set out"
    using ping6_main_loop [OF assms(1)] by blast
  then have out: "frames_in out = []" by (intro frames_in_none)
  obtain r n where r: "send_loop env (frame6 en src dst) (map of_char ''08:00:'') 0 0 0 = Some r"
    "not_crash r" "frames_sent r = replicate n (frame6 en src dst)" "1 \<le> n" "n \<le> 3"
    using send_loop_ends [OF assms(2), of 0] by fastforce
  have "frames_in (close_and_free env) = []" by (auto simp only: close_and_free_def intro!: frames_in_none) auto
  then have "\<exists>r'. ping6_main en env = Some r' \<and> not_crash r' \<and> frames_sent r' = frames_sent r"
    using main r(1, 2) out
    by (auto simp: not_crash_def frames_sent_def prefix6_def fail6_def split: sum.splits stop6.splits)
  moreover have "valid_frame6 en src dst (frame6 en src dst)"
    using assms(1) by (intro valid_frame6_frame6) (simp_all add: set_up_def)
  ultimately show ?thesis using r(3-5) by (auto simp: list_all_iff)
qed

definition demo6 :: env6 where
  "demo6 = \<lparr> malloc_ok = (\<lambda>_. True), sendsd = 3, if_nametoindex = (\<lambda>_. 2),
     getaddrinfo = (\<lambda>_. Inr (replicate 16 7)), inet_ntop = (\<lambda>_. Some ''::7''),
     inet_pton = (\<lambda>_. Some (replicate 16 7)), recvsd = 4, sends6 = (\<lambda>_. 66),
     recvs6 = (\<lambda>k. if even k then Errno_EINTR else Errno_EAGAIN) \<rparr>"

lemma set_up_demo6: "set_up demo6 (replicate 16 7) (replicate 16 7)"
  by (simp add: set_up_def demo6_def list_all_iff)

theorem ping6_sends_at_most_three_witness:
  "\<exists>r. ping6_main LittleE demo6 = Some r \<and> not_crash r \<and> length (frames_sent r) \<in> {1..3}
    \<and> list_all (valid_frame6 LittleE (replicate 16 7) (replicate 16 7)) (frames_sent r)"
proof (rule ping6_sends_at_most_three [OF set_up_demo6])
  fix k
  have "k \<le> 2 * k + 1" and "\<not> keeps (recvs6 demo6 (2 * k + 1))" by (simp_all add: demo6_def keeps_def)
  then show "\<exists>j\<ge>k. \<not> keeps (recvs6 demo6 j)" by blast
qed

text \<open>C17. The timeout of 2 seconds is per \<open>recvfrom\<close>, not per try: on an interface where other
  frames keep arriving the program never gives up, although the comment says it listens for
  \<open>timeout\<close> seconds.\<close>

theorem ping6_hangs_on_traffic:
  assumes "set_up env src dst" and "0 < sends6 env 0" and "\<And>k. keeps (recvs6 env k)"
  shows "ping6_main en env = None"
proof -
  have "send_loop env f sll 0 0 0 = None" for f sll
    using assms(2) recv_loop_hangs [OF assms(3)] by (simp add: send_loop.simps [of env f sll 0 0])
  then show ?thesis using ping6_main_loop [OF assms(1), of en] by (metis bind.bind_lzero)
qed

theorem ping6_hangs_on_traffic_witness:
  "ping6_main LittleE (demo6\<lparr>recvs6 := \<lambda>_. Frame [1, 2, 3]\<rparr>) = None"
proof (rule ping6_hangs_on_traffic)
  show "set_up (demo6\<lparr>recvs6 := \<lambda>_. Frame [1, 2, 3]\<rparr>) (replicate 16 7) (replicate 16 7)"
    by (simp add: set_up_def demo6_def list_all_iff)
qed (simp_all add: demo6_def keeps_def is_reply_def frame_byte_def)

end
