(* ===== verification/C_Heap.thy ===== *)
theory C_Heap
  imports C_Prelude
begin

text \<open>
  The heap of the linked list programs.  A heap is a partial map from addresses to nodes; address
  0 is \<open>NULL\<close>, an address outside the domain was never allocated or is freed.  \<open>malloc\<close>
  is a parameter of the programs: a function that picks an address for a heap, 0 when it fails.
  All that is assumed of it is what the C standard says, that a new block does not overlap a live
  one (\<open>fresh_alloc\<close>); it may fail at any time and may hand out freed addresses again.
\<close>

type_synonym addr = nat

abbreviation (input) NULL :: addr where "NULL \<equiv> 0"

type_synonym 'n heap = "addr \<rightharpoonup> 'n"

definition deref :: "'n heap \<Rightarrow> addr \<Rightarrow> 'n cres" where
  "deref h p = (if p = NULL then Inl NullDeref else
     case h p of None \<Rightarrow> Inl BadPointer | Some n \<Rightarrow> Inr n)"

text \<open>\<open>free\<close> of an allocated block; the programs never call it with \<open>NULL\<close>.\<close>

definition free_block :: "'n heap \<Rightarrow> addr \<Rightarrow> 'n heap cres" where
  "free_block h p = bindE (deref h p) (\<lambda>_. Inr (h(p := None)))"

type_synonym 'n allocator = "'n heap \<Rightarrow> addr"

definition fresh_alloc :: "'n allocator \<Rightarrow> bool" where
  "fresh_alloc alloc \<longleftrightarrow> (\<forall>h. alloc h \<noteq> NULL \<longrightarrow> h (alloc h) = None)"

lemma fresh_allocD: "fresh_alloc alloc \<Longrightarrow> alloc h \<noteq> NULL \<Longrightarrow> h (alloc h) = None"
  by (simp add: fresh_alloc_def)

text \<open>An allocator for concrete runs: the first free address below 100.\<close>

definition first_fit :: "'n allocator" where
  "first_fit h = (case List.find (\<lambda>a. h a = None) [1..<100] of Some a \<Rightarrow> a | None \<Rightarrow> NULL)"

text \<open>Enough memory for \<open>k\<close> live blocks.\<close>

definition roomy :: "'n allocator \<Rightarrow> nat \<Rightarrow> bool" where
  "roomy alloc k \<longleftrightarrow> (\<forall>h. finite (dom h) \<longrightarrow> card (dom h) < k \<longrightarrow> alloc h \<noteq> NULL)"

lemma roomy_mono: "roomy alloc k \<Longrightarrow> j \<le> k \<Longrightarrow> roomy alloc j"
  by (auto simp: roomy_def)

lemma roomy_first_fit: "roomy first_fit 99"
proof -
  have "first_fit h \<noteq> NULL" if "finite (dom h)" "card (dom h) < 99" for h :: "'a heap"
  proof -
    have "\<not> {1..<100} \<subseteq> dom h" using card_mono [OF that(1), of "{1..<100}"] that(2) by auto
    then obtain a where "a \<in> set [1..<100]" "h a = None" by (metis domIff set_upt subsetI)
    then have "List.find (\<lambda>a. h a = None) [1..<100] \<noteq> None" by (auto simp only: find_None_iff)
    then obtain b where "List.find (\<lambda>a. h a = None) [1..<100] = Some b" by blast
    moreover from this have "b \<noteq> NULL" by (auto simp: find_Some_iff)
    ultimately show ?thesis by (simp only: first_fit_def option.case not_False_eq_True)
  qed
  then show ?thesis by (simp add: roomy_def)
qed

lemma fresh_first_fit: "fresh_alloc first_fit"
  by (auto simp: fresh_alloc_def first_fit_def find_Some_iff split: option.splits)

lemma deref_some [simp]: "p \<noteq> NULL \<Longrightarrow> h p = Some n \<Longrightarrow> deref h p = Inr n"
  by (simp add: deref_def)

lemma deref_NULL [simp]: "deref h 0 = Inl NullDeref"
  by (simp add: deref_def)

lemma deref_eq_Inr: "deref h p = Inr n \<longleftrightarrow> p \<noteq> NULL \<and> h p = Some n"
  by (auto simp: deref_def split: option.splits)

section \<open>Singly linked nodes\<close>

record node =
  data :: int
  nxt :: addr

type_synonym list_heap = "node heap"

text \<open>The nodes at the addresses \<open>as\<close> lead from \<open>p\<close> to \<open>q\<close>.  A list is a path to \<open>NULL\<close>.\<close>

fun path :: "list_heap \<Rightarrow> addr \<Rightarrow> addr list \<Rightarrow> addr \<Rightarrow> bool" where
  "path h p [] q \<longleftrightarrow> p = q"
| "path h p (a # as) q \<longleftrightarrow>
     p = a \<and> a \<noteq> NULL \<and> (case h a of None \<Rightarrow> False | Some n \<Rightarrow> path h (nxt n) as q)"

definition vals :: "list_heap \<Rightarrow> addr list \<Rightarrow> int list" where
  "vals h as = map (\<lambda>a. case h a of Some n \<Rightarrow> data n | None \<Rightarrow> 0) as"

text \<open>The list at \<open>p\<close> holds the values \<open>xs\<close>.\<close>

definition holds :: "list_heap \<Rightarrow> addr \<Rightarrow> int list \<Rightarrow> bool" where
  "holds h p xs \<longleftrightarrow> (\<exists>as. path h p as NULL \<and> vals h as = xs)"

declare path.simps(2) [simp del]

lemma path_Cons [simp]:
  "path h p (a # as) q \<longleftrightarrow> p = a \<and> a \<noteq> NULL \<and> (\<exists>n. h a = Some n \<and> path h (nxt n) as q)"
  by (simp add: path.simps(2) split: option.splits)

lemma path_ConsE [elim]:
  assumes "path h p (a # as) q"
  obtains n where "p = a" and "a \<noteq> NULL" and "h a = Some n" and "path h (nxt n) as q"
  using assms by (auto split: option.splits)

lemma path_append: "path h p (as @ bs) q \<longleftrightarrow> (\<exists>r. path h p as r \<and> path h r bs q)"
  by (induction as arbitrary: p) (auto split: option.splits)

lemma path_NULL [simp]: "path h 0 as q \<longleftrightarrow> as = [] \<and> q = 0"
  by (cases as) auto

lemma path_alloc: "path h p as q \<Longrightarrow> a \<in> set as \<Longrightarrow> a \<noteq> NULL \<and> h a \<noteq> None"
  by (induction as arbitrary: p) (auto split: option.splits)

lemma path_cong:
  "(\<And>a. a \<in> set as \<Longrightarrow> map_option nxt (h a) = map_option nxt (g a)) \<Longrightarrow> path h p as q = path g p as q"
proof (induction as arbitrary: p)
  case (Cons a as)
  then have "map_option nxt (h a) = map_option nxt (g a)" by simp
  with Cons show ?case by (cases "h a"; cases "g a") auto
qed simp

lemma vals_cong: "(\<And>a. a \<in> set as \<Longrightarrow> h a = g a) \<Longrightarrow> vals h as = vals g as"
  by (simp add: vals_def)

lemma vals_simps [simp]:
  "vals h [] = []" "h a = Some n \<Longrightarrow> vals h (a # as) = data n # vals h as"
  "vals h (as @ bs) = vals h as @ vals h bs" "length (vals h as) = length as"
  by (simp_all add: vals_def)

lemma path_det: "path h p as NULL \<Longrightarrow> path h p bs NULL \<Longrightarrow> as = bs"
proof (induction as arbitrary: p bs)
  case (Cons a as)
  then obtain n where "p = a" "a \<noteq> NULL" "h a = Some n" "path h (nxt n) as NULL" by auto
  with Cons show ?case by (cases bs) auto
qed auto

lemma path_distinct: "path h p as NULL \<Longrightarrow> distinct as"
proof (induction as arbitrary: p)
  case (Cons a as)
  then obtain n where n: "h a = Some n" "path h (nxt n) as NULL" "a \<noteq> NULL" by auto
  have "a \<notin> set as"
  proof
    assume "a \<in> set as"
    then obtain us vs where "as = us @ a # vs" by (auto simp: in_set_conv_decomp)
    with n have "path h (nxt n) vs NULL" by (auto simp: path_append)
    from path_det [OF this n(2)] \<open>as = us @ a # vs\<close> show False by simp
  qed
  with Cons n show ?case by auto
qed simp

lemma path_upd [simp]: "a \<notin> set as \<Longrightarrow> path (h(a := x)) p as q = path h p as q"
  by (rule path_cong) auto

lemma vals_upd [simp]: "a \<notin> set as \<Longrightarrow> vals (h(a := x)) as = vals h as"
  by (rule vals_cong) auto

section \<open>Appending to a list\<close>

text \<open>\<open>while (t->next != NULL) t = t->next;\<close> has the same text in the three list programs.\<close>

partial_function (option) tail_loop :: "list_heap \<Rightarrow> addr \<Rightarrow> addr cres option" where
  "tail_loop h t =
     (case deref h t of
        Inl e \<Rightarrow> Some (Inl e)
      | Inr n \<Rightarrow> if nxt n \<noteq> NULL then tail_loop h (nxt n) else Some (Inr t))"

lemma tail_loop_path:
  assumes "path h p (as @ [l]) NULL"
  shows "tail_loop h p = Some (Inr l)"
  using assms
proof (induction as arbitrary: p)
  case Nil
  then show ?case by (auto simp: tail_loop.simps)
next
  case (Cons a as)
  then obtain n where n: "p = a" "a \<noteq> NULL" "h a = Some n" "path h (nxt n) (as @ [l]) NULL" by auto
  then have "nxt n \<noteq> NULL" by (metis append_is_Nil_conv list.distinct(1) path_NULL)
  with n Cons.IH [OF n(4)] show ?case by (simp add: tail_loop.simps [of h a])
qed

definition set_next :: "list_heap \<Rightarrow> addr \<Rightarrow> addr \<Rightarrow> list_heap cres" where
  "set_next h p q = bindE (deref h p) (\<lambda>n. Inr (h(p \<mapsto> n\<lparr>nxt := q\<rparr>)))"

text \<open>What the programs rely on: \<open>ins\<close> appends a value, keeps every other live block and fails
  only if \<open>malloc\<close> does.  \<open>ins\<close> takes the heap and the head pointer and returns both.\<close>

locale list_insert =
  fixes ins :: "node allocator \<Rightarrow> list_heap \<Rightarrow> addr \<Rightarrow> int \<Rightarrow> (list_heap \<times> addr) cres option"
  assumes ins_appends:
    "fresh_alloc alloc \<Longrightarrow> alloc h \<noteq> NULL \<Longrightarrow> path h p as NULL \<Longrightarrow>
     \<exists>h' p'. ins alloc h p x = Some (Inr (h', p')) \<and> path h' p' (as @ [alloc h]) NULL
       \<and> vals h' (as @ [alloc h]) = vals h as @ [x]
       \<and> (\<forall>a. a \<notin> set as \<union> {alloc h} \<longrightarrow> h' a = h a)"
    and ins_no_memory: "alloc h = NULL \<Longrightarrow> ins alloc h p x = Some (Inl NullDeref)"
begin

text \<open>Inserting a sequence of values one after the other.\<close>

fun ins_all :: "node allocator \<Rightarrow> list_heap \<Rightarrow> addr \<Rightarrow> int list \<Rightarrow> (list_heap \<times> addr) cres option" where
  "ins_all alloc h p [] = Some (Inr (h, p))"
| "ins_all alloc h p (x # xs) = bindO (ins alloc h p x) (\<lambda>(h', p'). ins_all alloc h' p' xs)"

lemma holds_ins:
  assumes "fresh_alloc alloc" and "alloc h \<noteq> NULL" and "holds h p xs"
  obtains h' p' where "ins alloc h p x = Some (Inr (h', p'))" and "holds h' p' (xs @ [x])"
  using assms ins_appends unfolding holds_def by meson

lemma ins_all_holds:
  assumes "fresh_alloc alloc" and "roomy alloc k"
    and "holds h p xs" and "finite (dom h)" and "card (dom h) + length ys \<le> k"
  shows "\<exists>h' p'. ins_all alloc h p ys = Some (Inr (h', p')) \<and> holds h' p' (xs @ ys)"
  using assms(3-5)
proof (induction ys arbitrary: h p xs)
  case (Cons y ys)
  then have new: "alloc h \<noteq> NULL" using assms(2) by (simp add: roomy_def)
  then have fresh: "h (alloc h) = None" using assms(1) by (simp add: fresh_alloc_def)
  obtain as where as: "path h p as NULL" "vals h as = xs" using Cons.prems(1) by (auto simp: holds_def)
  obtain h' p' where h': "ins alloc h p y = Some (Inr (h', p'))" "path h' p' (as @ [alloc h]) NULL"
    "vals h' (as @ [alloc h]) = xs @ [y]" "\<forall>a. a \<notin> set as \<union> {alloc h} \<longrightarrow> h' a = h a"
    using ins_appends [OF assms(1) new as(1), of y] as(2) by blast
  have "dom h' = insert (alloc h) (dom h)"
    using h'(4) path_alloc [OF h'(2)] path_alloc [OF as(1)] by (auto simp: dom_def) metis+
  moreover have "alloc h \<notin> dom h" using fresh by auto
  ultimately have "finite (dom h')" "card (dom h') + length ys \<le> k" using Cons.prems by simp_all
  moreover have "holds h' p' (xs @ [y])" using h' unfolding holds_def by blast
  ultimately show ?case using Cons.IH [of h' p' "xs @ [y]"] h'(1) by simp
qed auto

end

end
