(* ===== verification/Linked_Lists.thy ===== *)
theory Linked_Lists
  imports C_Heap "HOL-Library.Multiset"
begin

text \<open>
  The singly linked lists: \<open>data_struct/linked_list/mylist.c\<close> with its driver \<open>list.c\<close>
  (insert, print, delete all occurrences), and \<open>Interview_Questions/PS/PS_3.c\<close> (insert, print,
  bubble sort on the data fields).  Functions that receive \<open>mylist **head\<close> take the head and
  return the new one.  The loops are options, \<open>None\<close> for a loop that does not end, which
  happens on cyclic lists only: on every list that ends the theorems give a result.
\<close>

section \<open>\<open>mylist.c\<close>\<close>

definition insert :: "node allocator \<Rightarrow> list_heap \<Rightarrow> addr \<Rightarrow> int \<Rightarrow> (list_heap \<times> addr) cres option" where
  "insert alloc h head d =
     (let temp = alloc h in
      if temp = NULL then Some (Inl NullDeref) else
      let h = h(temp \<mapsto> \<lparr> data = d, nxt = NULL \<rparr>) in
      if head = NULL then Some (Inr (h, temp)) else
      bindO (tail_loop h head) (\<lambda>temp1.
      bindO (Some (set_next h temp1 temp)) (\<lambda>h.
      Some (Inr (h, head)))))"

partial_function (option) printlist :: "list_heap \<Rightarrow> addr \<Rightarrow> int list cres option" where
  "printlist h head =
     (if head = NULL then Some (Inr [])
      else case deref h head of
          Inl e \<Rightarrow> Some (Inl e)
        | Inr n \<Rightarrow> Option.bind (printlist h (nxt n)) (\<lambda>r.
            Some (bindE r (\<lambda>out. Inr (data n # out)))))"

text \<open>The loop over the heads that hold the key; \<open>temp\<close> is \<open>*head_ref\<close> all the time.\<close>

partial_function (option) delete_heads ::
    "list_heap \<Rightarrow> addr \<Rightarrow> int \<Rightarrow> (list_heap \<times> addr) cres option" where
  "delete_heads h head key =
     (if head = NULL then Some (Inr (h, head))
      else case deref h head of
          Inl e \<Rightarrow> Some (Inl e)
        | Inr n \<Rightarrow>
            if data n = key then
              (case free_block h head of
                 Inl e \<Rightarrow> Some (Inl e)
               | Inr h' \<Rightarrow> delete_heads h' (nxt n) key)
            else Some (Inr (h, head)))"

text \<open>The inner loop: \<open>prev\<close> is \<open>None\<close> as long as it is not assigned.\<close>

partial_function (option) search_key ::
    "list_heap \<Rightarrow> addr \<Rightarrow> addr option \<Rightarrow> int \<Rightarrow> (addr \<times> addr option) cres option" where
  "search_key h temp prev key =
     (if temp = NULL then Some (Inr (temp, prev))
      else case deref h temp of
          Inl e \<Rightarrow> Some (Inl e)
        | Inr n \<Rightarrow>
            if data n \<noteq> key then search_key h (nxt n) (Some temp) key
            else Some (Inr (temp, prev)))"

definition unlink :: "list_heap \<Rightarrow> addr \<Rightarrow> addr option \<Rightarrow> (list_heap \<times> addr) cres" where
  "unlink h temp prev =
     (case prev of None \<Rightarrow> Inl Uninit | Some p \<Rightarrow>
      bindE (deref h temp) (\<lambda>n.
      bindE (set_next h p (nxt n)) (\<lambda>h.
      bindE (free_block h temp) (\<lambda>h.
      bindE (deref h p) (\<lambda>m. Inr (h, nxt m))))))"

partial_function (option) delete_rest ::
    "list_heap \<Rightarrow> addr \<Rightarrow> addr option \<Rightarrow> int \<Rightarrow> list_heap cres option" where
  "delete_rest h temp prev key =
     (if temp = NULL then Some (Inr h)
      else case search_key h temp prev key of
          None \<Rightarrow> None
        | Some (Inl e) \<Rightarrow> Some (Inl e)
        | Some (Inr (temp', prev')) \<Rightarrow>
            if temp' = NULL then Some (Inr h)
            else (case unlink h temp' prev' of
                Inl e \<Rightarrow> Some (Inl e)
              | Inr (h', temp'') \<Rightarrow> delete_rest h' temp'' prev' key))"

definition deletenode :: "list_heap \<Rightarrow> addr \<Rightarrow> int \<Rightarrow> (list_heap \<times> addr) cres option" where
  "deletenode h head key =
     bindO (delete_heads h head key) (\<lambda>(h, head).
     bindO (delete_rest h head None key) (\<lambda>h.
     Some (Inr (h, head))))"

section \<open>\<open>list.c\<close>\<close>

text \<open>\<open>scanf("%d", &v)\<close> on an input of numbers: at its end \<open>v\<close> keeps its value, which is
  \<open>None\<close> while it is indeterminate.\<close>

fun scan :: "int list \<Rightarrow> int option \<Rightarrow> int option \<times> int list" where
  "scan (v # input) old = (Some v, input)"
| "scan [] old = (old, [])"

definition use :: "int option \<Rightarrow> int cres" where
  "use v = (case v of None \<Rightarrow> Inl Uninit | Some x \<Rightarrow> Inr x)"

text \<open>The loop counts down to 0; a negative count would run into a signed overflow.\<close>

partial_function (option) read_loop ::
    "node allocator \<Rightarrow> list_heap \<Rightarrow> addr \<Rightarrow> int \<Rightarrow> int option \<Rightarrow> int list
     \<Rightarrow> (list_heap \<times> addr \<times> int option \<times> int list) cres option" where
  "read_loop alloc h head cnt num input =
     (if cnt = 0 then Some (Inr (h, head, num, input)) else
      case scan input num of (num, input) \<Rightarrow>
      (case use num of Inl e \<Rightarrow> Some (Inl e) | Inr x \<Rightarrow>
      (case insert alloc h head x of
         None \<Rightarrow> None
       | Some (Inl e) \<Rightarrow> Some (Inl e)
       | Some (Inr (h, head)) \<Rightarrow>
           if cnt = - (2 ^ 31) then Some (Inl IntOverflow)
           else read_loop alloc h head (cnt - 1) num input)))"

definition list_main :: "node allocator \<Rightarrow> int list \<Rightarrow> (int list \<times> int list) cres option" where
  "list_main alloc input =
     (case scan input None of (cnt, input) \<Rightarrow>
      bindO (Some (use cnt)) (\<lambda>cnt.
      bindO (read_loop alloc Map.empty NULL cnt None input) (\<lambda>(h, head, num, input).
      bindO (printlist h head) (\<lambda>out1.
      case scan input num of (num, input) \<Rightarrow>
      bindO (Some (use num)) (\<lambda>key.
      bindO (deletenode h head key) (\<lambda>(h, head).
      bindO (printlist h head) (\<lambda>out2.
      Some (Inr (out1, out2)))))))))"

section \<open>Correctness of the operations of \<open>mylist.c\<close>\<close>

lemma append_node:
  assumes "t \<noteq> NULL" and "h t = None" and "path h p as NULL" and "as \<noteq> []"
  shows "\<exists>l h'. tail_loop (h(t \<mapsto> n)) p = Some (Inr l)
    \<and> set_next (h(t \<mapsto> n)) l t = Inr h'
    \<and> (nxt n = NULL \<longrightarrow> path h' p (as @ [t]) NULL) \<and> vals h' (as @ [t]) = vals h as @ [data n]
    \<and> (\<forall>a. a \<notin> set as \<union> {t} \<longrightarrow> h' a = h a)"
proof -
  obtain bs l where as: "as = bs @ [l]" using assms(4) by (metis append_butlast_last_id)
  have t: "t \<notin> set as" using path_alloc [OF assms(3), of t] assms(2) by auto
  have p: "path (h(t \<mapsto> n)) p (bs @ [l]) NULL" using t as assms(3) by simp
  obtain m where m: "h l = Some m" "l \<noteq> NULL" "path h p bs l" "nxt m = NULL"
    using assms(3) as by (auto simp: path_append)
  have l: "l \<notin> set bs" "l \<noteq> t" using path_distinct [OF assms(3)] t by (auto simp: as)
  define h' where "h' = (h(t \<mapsto> n))(l \<mapsto> m\<lparr>nxt := t\<rparr>)"
  have "set_next (h(t \<mapsto> n)) l t = Inr h'" using m l by (simp add: set_next_def h'_def)
  moreover have "nxt n = NULL \<longrightarrow> path h' p (as @ [t]) NULL"
    using m l t assms(1) by (simp add: as path_append h'_def)
  moreover have "vals h' (as @ [t]) = vals h as @ [data n]"
    using m l t by (simp add: as h'_def)
  ultimately show ?thesis
    using tail_loop_path [OF p] as by (auto simp: h'_def)
qed

interpretation mylist: list_insert insert
proof
  fix alloc :: "node allocator" and h p as x
  assume "fresh_alloc alloc" and "alloc h \<noteq> NULL" and "path h p as NULL"
  then have *: "h (alloc h) = None" by (simp add: fresh_alloc_def)
  show "\<exists>h' p'. insert alloc h p x = Some (Inr (h', p')) \<and> path h' p' (as @ [alloc h]) NULL
       \<and> vals h' (as @ [alloc h]) = vals h as @ [x]
       \<and> (\<forall>a. a \<notin> set as \<union> {alloc h} \<longrightarrow> h' a = h a)"
  proof (cases "as = []")
    case True
    with \<open>path h p as NULL\<close> \<open>alloc h \<noteq> NULL\<close> show ?thesis by (simp add: insert_def Let_def)
  next
    case False
    then have "p \<noteq> NULL" using \<open>path h p as NULL\<close> by (metis path_NULL)
    then show ?thesis
      using append_node [OF \<open>alloc h \<noteq> NULL\<close> * \<open>path h p as NULL\<close> False, of "\<lparr> data = x, nxt = NULL \<rparr>"]
        \<open>alloc h \<noteq> NULL\<close> by (auto simp: insert_def Let_def)
  qed
qed (simp add: insert_def)

lemma printlist_path: "path h p as NULL \<Longrightarrow> printlist h p = Some (Inr (vals h as))"
  by (induction as arbitrary: p) (auto simp: printlist.simps [of h])

lemma printlist_holds: "holds h p xs \<Longrightarrow> printlist h p = Some (Inr xs)"
  by (auto simp: holds_def printlist_path)

lemma delete_heads_step:
  assumes "p \<noteq> NULL" and "h p = Some n"
  shows "delete_heads h p key =
    (if data n = key then delete_heads (h(p := None)) (nxt n) key else Some (Inr (h, p)))"
  using assms by (simp add: delete_heads.simps [of h p] free_block_def)

text \<open>What a deletion leaves: the nodes with the key are freed, all other blocks are kept but for
  the links of the list.\<close>

definition removed :: "list_heap \<Rightarrow> list_heap \<Rightarrow> addr list \<Rightarrow> addr list \<Rightarrow> int \<Rightarrow> bool" where
  "removed h h' as bs key \<longleftrightarrow>
     set bs \<subseteq> set as \<and> vals h' bs = filter (\<lambda>x. x \<noteq> key) (vals h as)
     \<and> (\<forall>a \<in> set as - set bs. h' a = None)"

lemma removed_hit:
  assumes "a \<notin> set as" and "h a = Some n" and "data n = key" and "h' a = None"
    and "vals h as = vals g as" and "removed g h' as bs key"
  shows "removed h h' (a # as) bs key"
  using assms by (auto simp: removed_def)

lemma removed_skip:
  assumes "h a = Some n" and "data n \<noteq> key" and "map_option data (h' a) = Some (data n)"
    and "removed h h' as bs key"
  shows "removed h h' (a # as) (a # bs) key"
  using assms by (auto simp: removed_def)

lemma delete_heads_path:
  assumes "path h p as NULL"
  shows "\<exists>h' p' bs ds. delete_heads h p key = Some (Inr (h', p')) \<and> path h' p' bs NULL
    \<and> as = ds @ bs \<and> filter (\<lambda>x. x \<noteq> key) (vals h' bs) = filter (\<lambda>x. x \<noteq> key) (vals h as)
    \<and> (\<forall>a \<in> set ds. h' a = None) \<and> (\<forall>a. a \<notin> set ds \<longrightarrow> h' a = h a)
    \<and> (bs = [] \<or> hd (vals h' bs) \<noteq> key)"
  using assms
proof (induction as arbitrary: h p)
  case Nil
  then show ?case by (simp add: delete_heads.simps [of h])
next
  case (Cons a as)
  then obtain n where n: "p = a" "a \<noteq> NULL" "h a = Some n" "path h (nxt n) as NULL" by auto
  have a: "a \<notin> set as" using path_distinct [OF Cons.prems] by simp
  show ?case
  proof (cases "data n = key")
    case True
    have "path (h(a := None)) (nxt n) as NULL" using n a by simp
    from Cons.IH [OF this] obtain h' p' bs ds where *:
      "delete_heads (h(a := None)) (nxt n) key = Some (Inr (h', p'))" "path h' p' bs NULL" "as = ds @ bs"
      "filter (\<lambda>x. x \<noteq> key) (vals h' bs) = filter (\<lambda>x. x \<noteq> key) (vals (h(a := None)) as)"
      "\<forall>x \<in> set ds. h' x = None" "\<forall>x. x \<notin> set ds \<longrightarrow> h' x = (h(a := None)) x"
      "bs = [] \<or> hd (vals h' bs) \<noteq> key" by blast
    then show ?thesis
      using n a True
      by (intro exI [of _ h'] exI [of _ p'] exI [of _ bs] exI [of _ "a # ds"])
        (auto simp: delete_heads_step)
  next
    case False
    then show ?thesis
      using n Cons.prems
      by (intro exI [of _ h] exI [of _ p] exI [of _ "a # as"] exI [of _ "[]"])
        (simp add: delete_heads_step)
  qed
qed

lemma delete_rest_skip:
  assumes "t \<noteq> NULL" and "h t = Some n" and "data n \<noteq> key"
  shows "delete_rest h t prev key = delete_rest h (nxt n) (Some t) key"
proof -
  have "search_key h t prev key = search_key h (nxt n) (Some t) key"
    using assms by (simp add: search_key.simps [of h t])
  moreover have "search_key h 0 (Some t) key = Some (Inr (0, Some t))"
    by (simp add: search_key.simps)
  ultimately show ?thesis
    using assms(1) by (cases "nxt n = NULL") (simp_all add: delete_rest.simps [of h])
qed

lemma delete_rest_hit:
  assumes "t \<noteq> NULL" and "h t = Some n" and "data n = key" and "unlink h t prev = Inr (h', t')"
  shows "delete_rest h t prev key = delete_rest h' t' prev key"
proof -
  have "search_key h t prev key = Some (Inr (t, prev))"
    using assms by (simp add: search_key.simps [of h t])
  then show ?thesis using assms by (simp add: delete_rest.simps [of h t])
qed

lemma delete_rest_path:
  assumes "path h q (q # as) NULL"
  shows "\<exists>h' bs. delete_rest h (nxt (the (h q))) (Some q) key = Some (Inr h')
    \<and> path h' q (q # bs) NULL \<and> removed h h' as bs key
    \<and> map_option data (h' q) = map_option data (h q)
    \<and> (\<forall>a. a \<notin> set (q # as) \<longrightarrow> h' a = h a)"
  using assms
proof (induction as arbitrary: h q)
  case Nil
  then show ?case by (auto simp: delete_rest.simps [of h] removed_def)
next
  case (Cons a as)
  then obtain m n where m: "q \<noteq> NULL" "h q = Some m" "nxt m = a" "a \<noteq> NULL" "h a = Some n"
    "path h (nxt n) as NULL" by auto
  have d: "q \<noteq> a" "q \<notin> set as" "a \<notin> set as" using path_distinct [OF Cons.prems] by auto
  show ?case
  proof (cases "data n = key")
    case True
    define g where "g = (h(q \<mapsto> m\<lparr>nxt := nxt n\<rparr>))(a := None)"
    have "unlink h a (Some q) = Inr (g, nxt n)"
      using m d by (simp add: unlink_def set_next_def free_block_def g_def)
    moreover have "path g q (q # as) NULL" using m d by (simp add: g_def)
    from Cons.IH [OF this] obtain h' bs where *:
      "delete_rest g (nxt (the (g q))) (Some q) key = Some (Inr h')" "path h' q (q # bs) NULL"
      "removed g h' as bs key" "map_option data (h' q) = map_option data (g q)"
      "\<forall>x. x \<notin> set (q # as) \<longrightarrow> h' x = g x" by blast
    moreover have "removed h h' (a # as) bs key"
      using * m d True by (intro removed_hit [where g = g]) (simp_all add: g_def)
    ultimately show ?thesis
      using m d True delete_rest_hit [of a h n key "Some q" g "nxt n"]
      by (intro exI [of _ h'] exI [of _ bs]) (auto simp: g_def)
  next
    case False
    have "path h a (a # as) NULL" using m by simp
    from Cons.IH [OF this] m obtain h' bs where *:
      "delete_rest h (nxt n) (Some a) key = Some (Inr h')" "path h' a (a # bs) NULL"
      "removed h h' as bs key" "map_option data (h' a) = Some (data n)"
      "\<forall>x. x \<notin> set (a # as) \<longrightarrow> h' x = h x" by auto
    moreover have "removed h h' (a # as) (a # bs) key"
      using * m False by (intro removed_skip)
    ultimately show ?thesis
      using m d False delete_rest_skip [of a h n key "Some q"]
      by (intro exI [of _ h'] exI [of _ "a # bs"]) auto
  qed
qed

lemma deletenode_path:
  assumes "path h p as NULL"
  shows "\<exists>h' p' bs. deletenode h p key = Some (Inr (h', p')) \<and> path h' p' bs NULL
    \<and> removed h h' as bs key \<and> (\<forall>a. a \<notin> set as \<longrightarrow> h' a = h a)"
proof -
  obtain g p' bs ds where g: "delete_heads h p key = Some (Inr (g, p'))" "path g p' bs NULL"
    "as = ds @ bs" "filter (\<lambda>x. x \<noteq> key) (vals g bs) = filter (\<lambda>x. x \<noteq> key) (vals h as)"
    "\<forall>a \<in> set ds. g a = None" "\<forall>a. a \<notin> set ds \<longrightarrow> g a = h a" "bs = [] \<or> hd (vals g bs) \<noteq> key"
    using delete_heads_path [OF assms, of key] by blast
  have disj: "set ds \<inter> set bs = {}" using path_distinct [OF assms] g(3) by simp
  show ?thesis
  proof (cases bs)
    case Nil
    then show ?thesis
      using g by (intro exI [of _ g] exI [of _ p'] exI [of _ "[]"])
        (simp add: deletenode_def delete_rest.simps removed_def)
  next
    case (Cons b cs)
    with g(2, 7) obtain n where n: "p' = b" "b \<noteq> NULL" "g b = Some n" "data n \<noteq> key"
      "path g b (b # cs) NULL" by auto
    from delete_rest_path [OF n(5), of key] n obtain h' es where h':
      "delete_rest g (nxt n) (Some b) key = Some (Inr h')" "path h' b (b # es) NULL"
      "removed g h' cs es key" "map_option data (h' b) = Some (data n)"
      "\<forall>a. a \<notin> set (b # cs) \<longrightarrow> h' a = g a" by auto
    have "removed g h' bs (b # es) key" unfolding Cons using n h' by (intro removed_skip)
    then have "removed h h' as (b # es) key"
      using g h'(5) disj Cons by (auto simp: removed_def)
    then show ?thesis
      using g(1, 3, 6) h'(1, 2, 5) n Cons delete_rest_skip [of b g n key None]
      by (intro exI [of _ h'] exI [of _ b] exI [of _ "b # es"]) (simp add: deletenode_def)
  qed
qed

lemma deletenode_holds:
  "holds h p xs \<Longrightarrow> \<exists>h' p'. deletenode h p key = Some (Inr (h', p')) \<and> holds h' p' (filter (\<lambda>x. x \<noteq> key) xs)"
  unfolding holds_def using deletenode_path [of h p _ key] by (metis removed_def)

lemma read_loop_ins_all:
  "read_loop alloc h head (int (length xs)) num (xs @ rest) =
     bindO (mylist.ins_all alloc h head xs) (\<lambda>(h, head).
       Some (Inr (h, head, if xs = [] then num else Some (last xs), rest)))"
proof (induction xs arbitrary: h head num)
  case Nil
  then show ?case by (simp add: read_loop.simps)
next
  case (Cons x xs)
  have "read_loop alloc h head (int (length (x # xs))) num ((x # xs) @ rest) =
      bindO (insert alloc h head x) (\<lambda>(h, head). read_loop alloc h head (int (length xs)) (Some x) (xs @ rest))"
    by (subst read_loop.simps) (auto simp: use_def bindO_def split: option.splits sum.splits)
  also have "\<dots> = bindO (mylist.ins_all alloc h head (x # xs)) (\<lambda>(h, head).
       Some (Inr (h, head, Some (last (x # xs)), rest)))"
    by (auto simp: Cons.IH bindO_def split: option.splits sum.splits)
  finally show ?case by simp
qed

section \<open>\<open>PS_3.c\<close>\<close>

definition ps3_insert :: "node allocator \<Rightarrow> list_heap \<Rightarrow> addr \<Rightarrow> int \<Rightarrow> (list_heap \<times> addr) cres option" where
  "ps3_insert alloc h head val =
     (let current = head; temp = alloc h in
      if temp = NULL then Some (Inl NullDeref) else
      let h = h(temp \<mapsto> \<lparr> data = val, nxt = NULL \<rparr>) in
      if head = NULL then Some (Inr (h, temp)) else
      bindO (tail_loop h current) (\<lambda>current.
      bindO (Some (set_next h current temp)) (\<lambda>h.
      Some (Inr (h, head)))))"

partial_function (option) print_list :: "list_heap \<Rightarrow> addr \<Rightarrow> int list cres option" where
  "print_list h head =
     (if head = NULL then Some (Inr [])
      else case deref h head of
          Inl e \<Rightarrow> Some (Inl e)
        | Inr n \<Rightarrow> Option.bind (print_list h (nxt n)) (\<lambda>r.
            Some (bindE r (\<lambda>out. Inr (data n # out)))))"

text \<open>\<open>swap\<close> of the data fields of two nodes.\<close>

definition swap :: "list_heap \<Rightarrow> addr \<Rightarrow> addr \<Rightarrow> list_heap cres" where
  "swap h p q =
     bindE (deref h p) (\<lambda>m.
     bindE (deref h q) (\<lambda>n.
     let h = h(p \<mapsto> m\<lparr>data := data n\<rparr>) in
     bindE (deref h q) (\<lambda>n'. Inr (h(q \<mapsto> n'\<lparr>data := data m\<rparr>)))))"

partial_function (option) bubble_loop ::
    "list_heap \<Rightarrow> addr \<Rightarrow> addr \<Rightarrow> bool \<Rightarrow> (list_heap \<times> addr \<times> bool) cres option" where
  "bubble_loop h current rptr swapped =
     (case deref h current of Inl e \<Rightarrow> Some (Inl e) | Inr n \<Rightarrow>
      if nxt n = rptr then Some (Inr (h, current, swapped)) else
      (case deref h (nxt n) of Inl e \<Rightarrow> Some (Inl e) | Inr m \<Rightarrow>
       if data n > data m then
         (case swap h current (nxt n) of Inl e \<Rightarrow> Some (Inl e) | Inr h' \<Rightarrow>
            bubble_loop h' (nxt n) rptr True)
       else bubble_loop h (nxt n) rptr swapped))"

partial_function (option) sort_loop :: "list_heap \<Rightarrow> addr \<Rightarrow> addr \<Rightarrow> list_heap cres option" where
  "sort_loop h head rptr =
     (case bubble_loop h head rptr False of
        None \<Rightarrow> None
      | Some (Inl e) \<Rightarrow> Some (Inl e)
      | Some (Inr (h', current, swapped)) \<Rightarrow>
          if swapped then sort_loop h' head current else Some (Inr h'))"

definition sort_list :: "list_heap \<Rightarrow> addr \<Rightarrow> list_heap cres option" where
  "sort_list h head = sort_loop h head NULL"

fun ps3_build :: "node allocator \<Rightarrow> list_heap \<Rightarrow> addr \<Rightarrow> int list \<Rightarrow> (list_heap \<times> addr) cres option" where
  "ps3_build alloc h head [] = Some (Inr (h, head))"
| "ps3_build alloc h head (x # xs) =
     bindO (ps3_insert alloc h head x) (\<lambda>(h, head). ps3_build alloc h head xs)"

definition ps3_main :: "node allocator \<Rightarrow> (int list \<times> int list) cres option" where
  "ps3_main alloc =
     bindO (ps3_build alloc Map.empty NULL [10, 40, 4, 4, 90, 30, 20]) (\<lambda>(h, head).
     bindO (print_list h head) (\<lambda>out1.
     bindO (sort_list h head) (\<lambda>h.
     bindO (print_list h head) (\<lambda>out2.
     Some (Inr (out1, out2))))))"

section \<open>Correctness of \<open>PS_3.c\<close>\<close>

interpretation ps3: list_insert ps3_insert
proof -
  have "ps3_insert = insert" by (simp add: ps3_insert_def insert_def fun_eq_iff Let_def)
  then show "list_insert ps3_insert" by (simp only: mylist.list_insert_axioms)
qed

lemma ps3_build_ins_all: "ps3_build alloc h p xs = ps3.ins_all alloc h p xs"
  by (induction alloc h p xs rule: ps3_build.induct) (auto intro!: arg_cong2 [of _ _ _ _ bindO])

lemma print_list_holds: "holds h p xs \<Longrightarrow> print_list h p = Some (Inr xs)"
proof -
  have "path h p as NULL \<Longrightarrow> print_list h p = Some (Inr (vals h as))" for as
    by (induction as arbitrary: p) (auto simp: print_list.simps [of h])
  then show "holds h p xs \<Longrightarrow> print_list h p = Some (Inr xs)" by (auto simp: holds_def)
qed

text \<open>One pass of the sort, on the values.\<close>

fun bubble :: "int list \<Rightarrow> int list \<times> bool" where
  "bubble (x # y # zs) =
     (if x > y then (y # fst (bubble (x # zs)), True)
      else (x # fst (bubble (y # zs)), snd (bubble (y # zs))))"
| "bubble xs = (xs, False)"

lemma mset_bubble [simp]: "mset (fst (bubble xs)) = mset xs"
  by (induction xs rule: bubble.induct) auto

lemma set_bubble [simp]: "set (fst (bubble xs)) = set xs"
  by (metis mset_bubble set_mset_mset)

lemma length_bubble [simp]: "length (fst (bubble xs)) = length xs"
  by (metis mset_bubble size_mset)

lemma bubble_eq_Nil [simp]: "fst (bubble xs) = [] \<longleftrightarrow> xs = []"
  by (metis length_0_conv length_bubble)

lemma last_bubble: "x \<in> set xs \<Longrightarrow> x \<le> last (fst (bubble xs))"
proof (induction xs arbitrary: x rule: bubble.induct)
  case (1 a b zs)
  show ?case
  proof (cases "b < a")
    case True
    then have "a \<le> last (fst (bubble (a # zs)))" using 1 by simp
    with True 1 show ?thesis by (auto intro: order_trans [of b a])
  next
    case False
    then have "b \<le> last (fst (bubble (b # zs)))" using 1 by simp
    with False 1 show ?thesis by (auto intro: order_trans [of a b])
  qed
qed auto

lemma bubble_sorted: "\<not> snd (bubble xs) \<Longrightarrow> fst (bubble xs) = xs \<and> sorted xs"
  by (induction xs rule: bubble.induct) (auto split: if_splits)

lemma bubble_swapped: "snd (bubble xs) \<Longrightarrow> 2 \<le> length xs"
  by (cases xs rule: bubble.cases) auto

lemma swap_data:
  assumes "p \<noteq> NULL" and "q \<noteq> NULL" and "p \<noteq> q" and "h p = Some m" and "h q = Some n"
  shows "swap h p q = Inr (h(p \<mapsto> m\<lparr>data := data n\<rparr>, q \<mapsto> n\<lparr>data := data m\<rparr>))"
  using assms by (simp add: swap_def)

lemma bubble_loop_path:
  assumes "path h p (p # as) r" and "distinct (p # as)" and "r \<notin> set as"
  shows "\<exists>h'. bubble_loop h p r sw = Some (Inr (h', last (p # as), sw \<or> snd (bubble (vals h (p # as)))))
    \<and> vals h' (p # as) = fst (bubble (vals h (p # as)))
    \<and> (\<forall>a. map_option nxt (h' a) = map_option nxt (h a)) \<and> (\<forall>a. a \<notin> set (p # as) \<longrightarrow> h' a = h a)"
  using assms
proof (induction as arbitrary: h p sw)
  case Nil
  then show ?case by (auto simp: bubble_loop.simps [of h p])
next
  case (Cons b as)
  then obtain m n where m: "p \<noteq> NULL" "h p = Some m" "nxt m = b" "b \<noteq> NULL" "h b = Some n"
    "path h (nxt n) as r" by auto
  have d: "p \<noteq> b" "p \<notin> set as" "b \<notin> set as" "distinct (b # as)" "b \<noteq> r" "r \<notin> set as"
    using Cons.prems by auto
  define g where "g = (if data n < data m
    then h(p \<mapsto> m\<lparr>data := data n\<rparr>, b \<mapsto> n\<lparr>data := data m\<rparr>) else h)"
  have step: "bubble_loop h p r sw = bubble_loop g b r (sw \<or> data n < data m)"
    using m d by (simp add: bubble_loop.simps [of h p] swap_data g_def)
  have "path g b (b # as) r" using m d by (simp add: g_def)
  from Cons.IH [OF this d(4, 6), of "sw \<or> data n < data m"] obtain h' where h':
    "bubble_loop g b r (sw \<or> data n < data m)
       = Some (Inr (h', last (b # as), (sw \<or> data n < data m) \<or> snd (bubble (vals g (b # as)))))"
    "vals h' (b # as) = fst (bubble (vals g (b # as)))"
    "\<forall>a. map_option nxt (h' a) = map_option nxt (g a)" "\<forall>a. a \<notin> set (b # as) \<longrightarrow> h' a = g a" by blast
  have "vals h' (p # as') = data (the (g p)) # vals h' as'" for as'
    using h'(4) d m by (auto simp: vals_def g_def)
  then have "vals h' (p # b # as) = fst (bubble (vals h (p # b # as)))"
    using h'(2) m d by (simp add: g_def)
  then show ?case
    using step h' m d by (intro exI [of _ h']) (auto simp: g_def)
qed

lemma bubble_split:
  assumes "xs \<noteq> []" and "sorted ys" and "\<forall>x \<in> set xs. \<forall>y \<in> set ys. x \<le> y"
    and "fst (bubble xs) = zs @ [z]"
  shows "sorted (z # ys)" and "\<forall>x \<in> set zs. \<forall>y \<in> set (z # ys). x \<le> y"
proof -
  have set: "set xs = set zs \<union> {z}" using set_bubble [of xs] assms(4) by simp
  show "sorted (z # ys)" using assms(2, 3) set by auto
  have "x \<le> z" if "x \<in> set zs" for x using last_bubble [of x xs] that assms(4) set by simp
  then show "\<forall>x \<in> set zs. \<forall>y \<in> set (z # ys). x \<le> y" using assms(3) set by auto
qed

lemma path_links:
  "(\<And>a. map_option nxt (h' a) = map_option nxt (h a)) \<Longrightarrow> path h' p as q = path h p as q"
  by (rule path_cong) simp

lemma sort_loop_path:
  assumes "us \<noteq> []" and "path h p us r" and "path h r vs NULL" and "sorted (vals h vs)"
    and "\<forall>x \<in> set (vals h us). \<forall>y \<in> set (vals h vs). x \<le> y"
  shows "\<exists>h'. sort_loop h p r = Some (Inr h') \<and> path h' p (us @ vs) NULL
    \<and> sorted (vals h' (us @ vs)) \<and> mset (vals h' (us @ vs)) = mset (vals h (us @ vs))
    \<and> (\<forall>a. a \<notin> set (us @ vs) \<longrightarrow> h' a = h a)"
  using assms
proof (induction "length us" arbitrary: h us r vs rule: less_induct)
  case less
  have dist: "distinct (us @ vs)" using less.prems(2, 3) path_append path_distinct by blast
  obtain as where us: "us = p # as" using less.prems(1, 2) by (cases us) auto
  have r: "r \<notin> set as" using less.prems(3) dist path_alloc [OF less.prems(2), of r] by (cases vs) (auto simp: us)
  obtain h' where h': "bubble_loop h p r False = Some (Inr (h', last us, snd (bubble (vals h us))))"
    "vals h' us = fst (bubble (vals h us))" "\<And>a. map_option nxt (h' a) = map_option nxt (h a)"
    "\<And>a. a \<notin> set us \<Longrightarrow> h' a = h a"
    using bubble_loop_path [of h p as r False] less.prems(2) dist r unfolding us by auto
  have vs: "vals h' vs = vals h vs" using dist h'(4) by (intro vals_cong) auto
  have path': "path h' x xs y = path h x xs y" for x xs y using h'(3) by (rule path_links)
  show ?case
  proof (cases "snd (bubble (vals h us))")
    case False
    then have "sort_loop h p r = Some (Inr h')" using h'(1) by (simp add: sort_loop.simps [of h])
    moreover have "vals h' us = vals h us" "sorted (vals h us)"
      using bubble_sorted [OF False] h'(2) by simp_all
    ultimately show ?thesis
      using less.prems vs path' h'(4) by (intro exI [of _ h']) (auto simp: path_append sorted_append)
  next
    case True
    then have two: "2 \<le> length us" using bubble_swapped by fastforce
    obtain ws l where ws0: "us = ws @ [l]" using less.prems(1) by (metis rev_exhaust)
    with two have ws: "us = ws @ [l]" "ws \<noteq> []" by auto
    then have step: "sort_loop h p r = sort_loop h' p l"
      using True h'(1) by (simp add: sort_loop.simps [of h])
    have "fst (bubble (vals h us)) = vals h' ws @ vals h' [l]" using h'(2) ws by simp
    then obtain z where z: "fst (bubble (vals h us)) = vals h' ws @ [z]" "vals h' [l] = [z]"
      by (auto simp: vals_def)
    have lvs: "vals h' (l # vs) = z # vals h vs" using vals_simps(3) [of h' "[l]" vs] z(2) vs by simp
    note split = bubble_split [OF _ less.prems(4, 5) z(1)]
    have "sorted (vals h' (l # vs))" "\<forall>x \<in> set (vals h' ws). \<forall>y \<in> set (vals h' (l # vs)). x \<le> y"
      using split less.prems(1) unfolding lvs by (simp_all add: vals_def)
    moreover have "path h p ws l" "path h l (l # vs) NULL"
      using less.prems(2, 3) by (auto simp: ws path_append)
    then have "path h' p ws l" "path h' l (l # vs) NULL" by (simp_all only: path')
    ultimately obtain g where g: "sort_loop h' p l = Some (Inr g)" "path g p (ws @ l # vs) NULL"
      "sorted (vals g (ws @ l # vs))" "mset (vals g (ws @ l # vs)) = mset (vals h' (ws @ l # vs))"
      "\<forall>a. a \<notin> set (ws @ l # vs) \<longrightarrow> g a = h' a"
      using less.hyps [of ws h' l "l # vs"] ws by auto
    have "mset (vals h' (us @ vs)) = mset (vals h (us @ vs))" using h'(2) vs by simp
    then show ?thesis
      using step g h'(4) ws by (intro exI [of _ g]) simp
  qed
qed

section \<open>Properties\<close>

text \<open>C20. On a list that ends, \<open>deletenode\<close> returns without undefined behaviour; the list then
  holds the other values in their order, every node with the key is freed, and no block outside
  the list is touched.\<close>

theorem deletenode_correct:
  assumes "path h p as NULL"
  shows "\<exists>h' p' bs. deletenode h p key = Some (Inr (h', p')) \<and> path h' p' bs NULL
    \<and> vals h' bs = filter (\<lambda>x. x \<noteq> key) (vals h as)
    \<and> (\<forall>a \<in> set as - set bs. h' a = None) \<and> (\<forall>a. a \<notin> set as \<longrightarrow> h' a = h a)"
  using deletenode_path [OF assms, of key] unfolding removed_def by blast

definition demo_heap :: list_heap where
  "demo_heap = [3 \<mapsto> \<lparr> data = 7, nxt = 5 \<rparr>, 5 \<mapsto> \<lparr> data = 2, nxt = 1 \<rparr>, 1 \<mapsto> \<lparr> data = 7, nxt = 0 \<rparr>]"

lemma demo_path: "path demo_heap 3 [3, 5, 1] NULL"
  by (simp add: demo_heap_def)

theorem deletenode_correct_witness:
  "\<exists>h' p' bs. deletenode demo_heap 3 7 = Some (Inr (h', p')) \<and> path h' p' bs NULL
    \<and> vals h' bs = filter (\<lambda>x. x \<noteq> 7) (vals demo_heap [3, 5, 1])
    \<and> (\<forall>a \<in> set [3, 5, 1] - set bs. h' a = None) \<and> (\<forall>a. a \<notin> set [3, 5, 1] \<longrightarrow> h' a = demo_heap a)"
  by (rule deletenode_correct [OF demo_path])

text \<open>The driver \<open>list.c\<close>, given a count, as many numbers and a key, prints the numbers and
  then the numbers without the key, if \<open>malloc\<close> has room for them.\<close>

theorem list_main_prints:
  assumes "fresh_alloc alloc" and "roomy alloc (length xs)"
  shows "list_main alloc (int (length xs) # xs @ key # rest)
    = Some (Inr (xs, filter (\<lambda>x. x \<noteq> key) xs))"
proof -
  have "holds Map.empty NULL []" by (simp add: holds_def)
  then obtain h p where "mylist.ins_all alloc Map.empty NULL xs = Some (Inr (h, p))" "holds h p xs"
    using mylist.ins_all_holds [OF assms, of Map.empty NULL "[]" xs] by auto
  moreover obtain h' p' where "deletenode h p key = Some (Inr (h', p'))"
    "holds h' p' (filter (\<lambda>x. x \<noteq> key) xs)"
    using deletenode_holds calculation(2) by blast
  ultimately show ?thesis
    by (simp add: list_main_def use_def read_loop_ins_all printlist_holds)
qed

theorem list_main_prints_witness:
  "list_main first_fit (int (length [4, 5, 4 :: int]) # [4, 5, 4] @ 4 # [])
    = Some (Inr ([4, 5, 4], filter (\<lambda>x. x \<noteq> 4) [4, 5, 4]))"
proof (rule list_main_prints [OF fresh_first_fit])
  show "roomy (first_fit :: node allocator) (length [4, 5, 4 :: int])"
    by (rule roomy_mono [OF roomy_first_fit]) simp
qed

text \<open>C19. \<open>sort\<close> of \<open>PS_3.c\<close> returns on every non-empty list that ends: the same nodes in the
  same order then hold the same values sorted, and no other block is touched.\<close>

theorem sort_list_sorts:
  assumes "path h p as NULL" and "as \<noteq> []"
  shows "\<exists>h'. sort_list h p = Some (Inr h') \<and> path h' p as NULL \<and> sorted (vals h' as)
    \<and> mset (vals h' as) = mset (vals h as) \<and> (\<forall>a. a \<notin> set as \<longrightarrow> h' a = h a)"
  using sort_loop_path [OF assms(2, 1), of "[]"] by (simp add: sort_list_def)

theorem sort_list_sorts_witness:
  "\<exists>h'. sort_list demo_heap 3 = Some (Inr h') \<and> path h' 3 [3, 5, 1] NULL \<and> sorted (vals h' [3, 5, 1])
    \<and> mset (vals h' [3, 5, 1]) = mset (vals demo_heap [3, 5, 1])
    \<and> (\<forall>a. a \<notin> set [3, 5, 1] \<longrightarrow> h' a = demo_heap a)"
  by (rule sort_list_sorts [OF demo_path]) simp

text \<open>\<open>sort\<close> of an empty list dereferences \<open>NULL\<close>.\<close>

lemma sort_list_empty_crashes: "sort_list h NULL = Some (Inl NullDeref)"
  by (simp add: sort_list_def sort_loop.simps bubble_loop.simps)

end
