(* ===== verification/Add_Lists.thy ===== *)
theory Add_Lists
  imports Linked_Lists "HOL-Library.Signed_Division"
begin

text \<open>
  \<open>leetcode/addList.c\<close>: addition of two numbers that are lists of decimal digits, least
  significant digit first.  \<open>struct ListNode\<close> has the layout of the list nodes of the other
  programs (\<open>val\<close> is \<open>data\<close>).  Sums are checked for signed overflow; \<open>/\<close> and \<open>%\<close>
  truncate toward zero as in C.
\<close>

section \<open>The code\<close>

definition addNode :: "node allocator \<Rightarrow> list_heap \<Rightarrow> addr \<Rightarrow> int \<Rightarrow> (list_heap \<times> addr) cres option" where
  "addNode alloc h head v =
     (let temp = alloc h in
      if temp = NULL then Some (Inl NullDeref) else
      let h = h(temp \<mapsto> \<lparr> data = v, nxt = NULL \<rparr>) in
      if head = NULL then Some (Inr (h, temp)) else
      bindO (tail_loop h head) (\<lambda>temp_head.
      bindO (Some (set_next h temp_head temp)) (\<lambda>h.
      Some (Inr (h, head)))))"

text \<open>The values that \<open>printNode\<close> prints.  For \<open>NULL\<close> it prints \<open>[]\<close> and then enters the
  loop, which reads \<open>temp->next\<close>.\<close>

partial_function (option) print_nodes :: "list_heap \<Rightarrow> addr \<Rightarrow> int list cres option" where
  "print_nodes h temp =
     (case deref h temp of
        Inl e \<Rightarrow> Some (Inl e)
      | Inr n \<Rightarrow>
          if nxt n = NULL then Some (Inr [data n])
          else Option.bind (print_nodes h (nxt n)) (\<lambda>r. Some (bindE r (\<lambda>out. Inr (data n # out)))))"

definition printNode :: "list_heap \<Rightarrow> addr \<Rightarrow> int list cres option" where
  "printNode h head = print_nodes h head"

text \<open>One of the two \<open>if\<close> statements of the loop: add the digit and step to the next node.\<close>

definition add_digit :: "list_heap \<Rightarrow> addr \<Rightarrow> int \<Rightarrow> (int \<times> addr) cres" where
  "add_digit h l tot =
     (if l \<noteq> NULL then bindE (deref h l) (\<lambda>n. bindE (add32 tot (data n)) (\<lambda>s. Inr (s, nxt n)))
      else Inr (tot, l))"

definition add_digits :: "list_heap \<Rightarrow> addr \<Rightarrow> addr \<Rightarrow> int \<Rightarrow> (int \<times> addr \<times> addr) cres" where
  "add_digits h l1 l2 c =
     bindE (add_digit h l1 0) (\<lambda>(tot, l1).
     bindE (add_digit h l2 tot) (\<lambda>(tot, l2).
     bindE (add32 tot c) (\<lambda>tot. Inr (tot, l1, l2))))"

partial_function (option) add_loop ::
    "node allocator \<Rightarrow> list_heap \<Rightarrow> addr \<Rightarrow> addr \<Rightarrow> int \<Rightarrow> addr \<Rightarrow> (list_heap \<times> int \<times> addr) cres option" where
  "add_loop alloc h l1 l2 c l3 =
     (if l1 = NULL \<and> l2 = NULL then Some (Inr (h, c, l3)) else
      case add_digits h l1 l2 c of Inl e \<Rightarrow> Some (Inl e) | Inr (tot, l1, l2) \<Rightarrow>
      (case addNode alloc h l3 (tot smod 10) of
         None \<Rightarrow> None
       | Some (Inl e) \<Rightarrow> Some (Inl e)
       | Some (Inr (h, l3)) \<Rightarrow> add_loop alloc h l1 l2 (tot sdiv 10) l3))"

definition addTwoNumbers :: "node allocator \<Rightarrow> list_heap \<Rightarrow> addr \<Rightarrow> addr \<Rightarrow> (list_heap \<times> addr) cres option" where
  "addTwoNumbers alloc h l1 l2 =
     bindO (add_loop alloc h l1 l2 0 NULL) (\<lambda>(h, c, l3).
     if c \<noteq> 0 then addNode alloc h l3 c else Some (Inr (h, l3)))"

definition add_main :: "node allocator \<Rightarrow> (int list \<times> int list \<times> int list) cres option" where
  "add_main alloc =
     bindO (addNode alloc Map.empty NULL 9) (\<lambda>(h, l1).
     bindO (addNode alloc h l1 9) (\<lambda>(h, l1).
     bindO (addNode alloc h l1 9) (\<lambda>(h, l1).
     bindO (addNode alloc h NULL 9) (\<lambda>(h, l2).
     bindO (addNode alloc h l2 9) (\<lambda>(h, l2).
     bindO (addNode alloc h l2 9) (\<lambda>(h, l2).
     bindO (printNode h l1) (\<lambda>out1.
     bindO (printNode h l2) (\<lambda>out2.
     bindO (addTwoNumbers alloc h l1 l2) (\<lambda>(h, l3).
     bindO (printNode h l3) (\<lambda>out3.
     Some (Inr (out1, out2, out3))))))))))))"

section \<open>Numbers as digit lists\<close>

fun num :: "int list \<Rightarrow> int" where
  "num [] = 0"
| "num (x # xs) = x + 10 * num xs"

definition digits :: "int list \<Rightarrow> bool" where
  "digits xs \<longleftrightarrow> (\<forall>x \<in> set xs. 0 \<le> x \<and> x \<le> 9)"

lemma num_append: "num (xs @ ys) = num xs + 10 ^ length xs * num ys"
  by (induction xs) (simp_all add: algebra_simps)

interpretation add: list_insert addNode
proof -
  have "addNode = insert" by (simp add: addNode_def insert_def fun_eq_iff Let_def)
  then show "list_insert addNode" by (simp only: mylist.list_insert_axioms)
qed

lemma print_nodes_path: "path h p as NULL \<Longrightarrow> as \<noteq> [] \<Longrightarrow> printNode h p = Some (Inr (vals h as))"
proof (induction as arbitrary: p)
  case (Cons a as)
  then obtain n where "p = a" "a \<noteq> NULL" "h a = Some n" "path h (nxt n) as NULL" by auto
  with Cons.IH [of "nxt n"] show ?case
    by (cases as) (auto simp: printNode_def print_nodes.simps [of h p] print_nodes.simps [of h a])
qed simp

lemma add_digit_path:
  assumes "path h p as NULL" and "digits (vals h as)" and "0 \<le> s" and "s \<le> 9"
  obtains d p' where "add_digit h p s = Inr (s + d, p')" and "path h p' (tl as) NULL"
    and "0 \<le> d" and "d \<le> 9" and "num (vals h as) = d + 10 * num (vals h (tl as))"
    and "digits (vals h (tl as))" and "p = NULL \<longleftrightarrow> as = []"
  using assms that
  by (cases as) (auto simp: add_digit_def add32_def digits_def)

lemma add_digits_path:
  assumes "path h p as NULL" and "path h q bs NULL" and "digits (vals h as)" and "digits (vals h bs)"
    and "c \<in> {0, 1}"
  obtains s p' q' where "add_digits h p q c = Inr (s, p', q')" and "path h p' (tl as) NULL"
    and "path h q' (tl bs) NULL" and "0 \<le> s" and "s \<le> 19"
    and "num (vals h as) + num (vals h bs) + c = s + 10 * (num (vals h (tl as)) + num (vals h (tl bs)))"
    and "digits (vals h (tl as))" and "digits (vals h (tl bs))"
proof -
  obtain d p' where p: "add_digit h p 0 = Inr (0 + d, p')" "path h p' (tl as) NULL" "0 \<le> d" "d \<le> 9"
    "num (vals h as) = d + 10 * num (vals h (tl as))" "digits (vals h (tl as))"
    using add_digit_path [OF assms(1, 3) order_refl zero_le_numeral] by blast
  obtain e q' where q: "add_digit h q d = Inr (d + e, q')" "path h q' (tl bs) NULL" "0 \<le> e" "e \<le> 9"
    "num (vals h bs) = e + 10 * num (vals h (tl bs))" "digits (vals h (tl bs))"
    using add_digit_path [OF assms(2, 4) p(3, 4)] by blast
  have "add_digits h p q c = Inr (d + e + c, p', q')"
    using p q assms(5) by (auto simp: add_digits_def add32_def)
  then show ?thesis using that p q assms(5) by auto
qed

text \<open>One digit of the result appended: what changes in the heap.\<close>

lemma addNode_grows:
  assumes "fresh_alloc alloc" and "roomy alloc k" and "finite (dom h)" and "card (dom h) < k"
    and "path h p cs NULL"
  obtains h' p' a where "addNode alloc h p x = Some (Inr (h', p'))" and "path h' p' (cs @ [a]) NULL"
    and "vals h' (cs @ [a]) = vals h cs @ [x]" and "h a = None"
    and "\<And>b. b \<in> dom h - set cs \<Longrightarrow> h' b = h b" and "dom h' = Set.insert a (dom h)"
proof -
  have new: "alloc h \<noteq> NULL" "h (alloc h) = None"
    using assms(1-4) by (auto simp: roomy_def fresh_alloc_def)
  obtain h' p' where h': "addNode alloc h p x = Some (Inr (h', p'))" "path h' p' (cs @ [alloc h]) NULL"
    "vals h' (cs @ [alloc h]) = vals h cs @ [x]" "\<forall>a. a \<notin> set cs \<union> {alloc h} \<longrightarrow> h' a = h a"
    using add.ins_appends [OF assms(1) new(1) assms(5)] by blast
  have "dom h' = Set.insert (alloc h) (dom h)"
    using h'(4) path_alloc [OF h'(2)] path_alloc [OF assms(5)] by (auto simp: dom_def) metis+
  moreover have "h' b = h b" if "b \<in> dom h - set cs" for b using that h'(4) new(2) by (metis DiffE Un_iff domIff singletonD)
  ultimately show ?thesis using that [OF h'(1-3) new(2)] by blast
qed

lemma path_kept:
  "path h p as NULL \<Longrightarrow> (\<And>b. b \<in> dom h - set cs \<Longrightarrow> h' b = h b) \<Longrightarrow> set as \<inter> set cs = {}
   \<Longrightarrow> path h' p as NULL \<and> vals h' as = vals h as"
proof -
  assume p: "path h p as NULL" and keep: "\<And>b. b \<in> dom h - set cs \<Longrightarrow> h' b = h b"
    and disj: "set as \<inter> set cs = {}"
  have "h' b = h b" if "b \<in> set as" for b using path_alloc [OF p that] keep disj that by auto
  then show ?thesis using p path_cong [of as h' h] vals_cong [of as h' h] by simp
qed

text \<open>The state of the loop: what is left of the two numbers (\<open>as\<close>, \<open>bs\<close>), the digits of the
  result so far (\<open>cs\<close>, apart from both) and the carry; there is room for a carry digit.\<close>

definition add_inv ::
    "nat \<Rightarrow> list_heap \<Rightarrow> addr \<times> addr list \<Rightarrow> addr \<times> addr list \<Rightarrow> addr \<times> addr list \<Rightarrow> int \<Rightarrow> bool" where
  "add_inv k h = (\<lambda>(p, as) (q, bs) (r, cs) c.
     finite (dom h) \<and> card (dom h) + max (length as) (length bs) < k
     \<and> path h p as NULL \<and> path h q bs NULL \<and> path h r cs NULL
     \<and> digits (vals h as) \<and> digits (vals h bs) \<and> digits (vals h cs) \<and> c \<in> {0, 1}
     \<and> set as \<inter> set cs = {} \<and> set bs \<inter> set cs = {})"

definition total :: "list_heap \<Rightarrow> addr list \<Rightarrow> addr list \<Rightarrow> addr list \<Rightarrow> int \<Rightarrow> int" where
  "total h as bs cs c = num (vals h cs) + 10 ^ length cs * (num (vals h as) + num (vals h bs) + c)"

lemma set_tl: "set (tl xs) \<subseteq> set xs"
  by (cases xs) auto

lemma sdiv_smod_10: "0 \<le> s \<Longrightarrow> s sdiv 10 = s div 10 \<and> s smod 10 = s mod 10" for s :: int
  by (simp add: signed_divide_int_def signed_modulo_int_def sgn_if)

lemma add_loop_step:
  assumes "fresh_alloc alloc" and "roomy alloc k" and inv: "add_inv k h (p, as) (q, bs) (r, cs) c"
    and ne: "\<not> (as = [] \<and> bs = [])"
  obtains g p' q' r' c' a where "add_loop alloc h p q c r = add_loop alloc g p' q' c' r'"
    and "add_inv k g (p', tl as) (q', tl bs) (r', cs @ [a]) c'"
    and "total g (tl as) (tl bs) (cs @ [a]) c' = total h as bs cs c"
    and "\<And>b. b \<in> dom h - set cs \<Longrightarrow> g b = h b" and "h a = None" and "dom g = Set.insert a (dom h)"
proof -
  note inv = inv [unfolded add_inv_def prod.case]
  have nn: "\<not> (p = NULL \<and> q = NULL)" using inv ne by (metis path_NULL)
  obtain s p' q' where s: "add_digits h p q c = Inr (s, p', q')" "path h p' (tl as) NULL"
    "path h q' (tl bs) NULL" "0 \<le> s" "s \<le> 19"
    "num (vals h as) + num (vals h bs) + c = s + 10 * (num (vals h (tl as)) + num (vals h (tl bs)))"
    "digits (vals h (tl as))" "digits (vals h (tl bs))"
    using add_digits_path [of h p as q bs c] inv by blast
  have len: "max (length (tl as)) (length (tl bs)) < max (length as) (length bs)"
    using ne by (cases as; cases bs) auto
  obtain g r' a where g: "addNode alloc h r (s smod 10) = Some (Inr (g, r'))"
    "path g r' (cs @ [a]) NULL" "vals g (cs @ [a]) = vals h cs @ [s smod 10]" "h a = None"
    "\<And>b. b \<in> dom h - set cs \<Longrightarrow> g b = h b" "dom g = Set.insert a (dom h)"
  proof -
    have "finite (dom h)" "card (dom h) < k" "path h r cs NULL" using inv by simp_all
    then show ?thesis using addNode_grows [OF assms(1, 2)] that by blast
  qed
  have a: "a \<notin> set as" "a \<notin> set bs" "a \<notin> dom h"
    using path_alloc [of h p as 0 a] path_alloc [of h q bs 0 a] g(4) inv by auto
  have as': "path g p' (tl as) NULL" "vals g (tl as) = vals h (tl as)"
    using path_kept [OF s(2) g(5)] inv set_tl [of as] by auto
  have bs': "path g q' (tl bs) NULL" "vals g (tl bs) = vals h (tl bs)"
    using path_kept [OF s(3) g(5)] inv set_tl [of bs] by auto
  have "card (dom g) = Suc (card (dom h))" using a(3) g(6) inv by simp
  then have "card (dom g) + max (length (tl as)) (length (tl bs)) < k" using inv len by linarith
  moreover have "s div 10 = 0 \<or> s div 10 = 1" "0 \<le> s mod 10" "s mod 10 \<le> 9" using s(4, 5) by presburger+
  then have "s sdiv 10 \<in> {0, 1}" "digits (vals g (cs @ [a]))"
    unfolding g(3) using inv sdiv_smod_10 [OF s(4)] by (simp_all add: digits_def)
  moreover have "set (tl as) \<inter> set (cs @ [a]) = {}" "set (tl bs) \<inter> set (cs @ [a]) = {}"
    using inv a(1, 2) set_tl [of as] set_tl [of bs] by auto
  moreover have "finite (dom g)" using inv g(6) by simp
  ultimately have "add_inv k g (p', tl as) (q', tl bs) (r', cs @ [a]) (s sdiv 10)"
    unfolding add_inv_def prod.case as'(2) bs'(2)
    by (intro conjI as'(1) bs'(1) g(2) s(7, 8))
  moreover have "total g (tl as) (tl bs) (cs @ [a]) (s sdiv 10) = total h as bs cs c"
  proof -
    have "num (vals h as) + num (vals h bs) + c
        = s smod 10 + 10 * (num (vals h (tl as)) + num (vals h (tl bs)) + s sdiv 10)"
      using s(6) sdiv_smod_10 [OF s(4)] by (simp add: algebra_simps)
    then show ?thesis
      by (simp only: total_def g(3) num_append as'(2) bs'(2)) (simp add: algebra_simps)
  qed
  ultimately show ?thesis
    using that g(1, 4-6) s(1) nn by (simp add: add_loop.simps [of alloc h])
qed

lemma add_loop_adds:
  assumes "fresh_alloc alloc" and "roomy alloc k" and "add_inv k h (p, as) (q, bs) (r, cs) c"
  shows "\<exists>h' c' r' ds. add_loop alloc h p q c r = Some (Inr (h', c', r'))
    \<and> add_inv k h' (NULL, []) (NULL, []) (r', ds) c' \<and> total h' [] [] ds c' = total h as bs cs c
    \<and> (\<forall>b \<in> dom h - set cs. h' b = h b) \<and> set ds \<inter> dom h \<subseteq> set cs"
  using assms(3)
proof (induction "max (length as) (length bs)" arbitrary: h p q r as bs cs c rule: less_induct)
  case less
  show ?case
  proof (cases "as = [] \<and> bs = []")
    case True
    with less.prems have "add_loop alloc h p q c r = Some (Inr (h, c, r))"
      by (simp add: add_inv_def add_loop.simps [of alloc h])
    with True less.prems show ?thesis
      by (intro exI [of _ h] exI [of _ c] exI [of _ r] exI [of _ cs]) (auto simp: add_inv_def)
  next
    case False
    obtain g p' q' r' c' a where g: "add_loop alloc h p q c r = add_loop alloc g p' q' c' r'"
      "add_inv k g (p', tl as) (q', tl bs) (r', cs @ [a]) c'"
      "total g (tl as) (tl bs) (cs @ [a]) c' = total h as bs cs c"
      "\<And>b. b \<in> dom h - set cs \<Longrightarrow> g b = h b" "h a = None" "dom g = Set.insert a (dom h)"
      by (rule add_loop_step [OF assms(1, 2) less.prems False]) (rule that)
    have "max (length (tl as)) (length (tl bs)) < max (length as) (length bs)"
      using False by (cases as; cases bs) auto
    from less.hyps [OF this g(2)] obtain h' c'' r'' ds where
      "add_loop alloc g p' q' c' r' = Some (Inr (h', c'', r''))"
      "add_inv k h' (NULL, []) (NULL, []) (r'', ds) c''"
      "total h' [] [] ds c'' = total g (tl as) (tl bs) (cs @ [a]) c'"
      "\<forall>b \<in> dom g - set (cs @ [a]). h' b = g b" "set ds \<inter> dom g \<subseteq> set (cs @ [a])" by blast
    moreover have "h' b = h b" if "b \<in> dom h - set cs" for b
    proof -
      have "b \<noteq> a" using that g(5) by auto
      then have "b \<in> dom g - set (cs @ [a])" using that g(6) by simp
      then show ?thesis using calculation(4) g(4) [OF that] by simp
    qed
    moreover have "set ds \<inter> dom h \<subseteq> set cs" using calculation(5) g(5, 6) by auto
    ultimately show ?thesis unfolding g(1) g(3) [symmetric] by blast
  qed
qed

section \<open>Properties\<close>

text \<open>C21. For two lists of decimal digits, which may share nodes, and an allocator with room for
  the result, \<open>addTwoNumbers\<close> returns a list of decimal digits whose value is the sum of the two
  values, and leaves every block of the heap as it was.\<close>

theorem addTwoNumbers_adds:
  assumes "fresh_alloc alloc" and "roomy alloc k" and "finite (dom h)"
    and "card (dom h) + max (length as) (length bs) < k"
    and "path h p as NULL" and "path h q bs NULL" and "digits (vals h as)" and "digits (vals h bs)"
  shows "\<exists>h' r cs. addTwoNumbers alloc h p q = Some (Inr (h', r)) \<and> path h' r cs NULL
    \<and> digits (vals h' cs) \<and> num (vals h' cs) = num (vals h as) + num (vals h bs)
    \<and> (\<forall>b \<in> dom h. h' b = h b)"
proof -
  have "add_inv k h (p, as) (q, bs) (NULL, []) 0" using assms by (simp add: add_inv_def digits_def)
  from add_loop_adds [OF assms(1, 2) this] obtain g c r cs where
    g: "add_loop alloc h p q 0 NULL = Some (Inr (g, c, r))"
      "add_inv k g (NULL, []) (NULL, []) (r, cs) c" "total g [] [] cs c = total h as bs [] 0"
      "\<forall>b \<in> dom h. g b = h b" "set cs \<inter> dom h = {}" by auto
  show ?thesis
  proof (cases "c = 0")
    case True
    with g show ?thesis by (auto simp: addTwoNumbers_def add_inv_def total_def)
  next
    case False
    with g(2) have inv: "finite (dom g)" "card (dom g) < k" "path g r cs NULL" "digits (vals g cs)" "c = 1"
      by (auto simp: add_inv_def)
    obtain h' r' a where h': "addNode alloc g r c = Some (Inr (h', r'))" "path h' r' (cs @ [a]) NULL"
      "vals h' (cs @ [a]) = vals g cs @ [c]" "g a = None" "\<And>b. b \<in> dom g - set cs \<Longrightarrow> h' b = g b"
      "dom h' = Set.insert a (dom g)"
      using addNode_grows [OF assms(1, 2) inv(1-3)] by blast
    have "h' b = h b" if "b \<in> dom h" for b
      using that g(4, 5) h'(5) [of b] by (auto simp: domIff)
    moreover have "digits (vals h' (cs @ [a]))" using inv(4, 5) h'(3) by (simp add: digits_def)
    moreover have "num (vals h' (cs @ [a])) = num (vals h as) + num (vals h bs)"
      unfolding h'(3) num_append using g(3) by (simp add: total_def)
    ultimately show ?thesis using g(1) h'(1, 2) False by (auto simp: addTwoNumbers_def)
  qed
qed

definition digit_heap :: list_heap where
  "digit_heap = [1 \<mapsto> \<lparr> data = 9, nxt = 2 \<rparr>, 2 \<mapsto> \<lparr> data = 9, nxt = 0 \<rparr>, 3 \<mapsto> \<lparr> data = 5, nxt = 0 \<rparr>]"

theorem addTwoNumbers_adds_witness:
  "\<exists>h' r cs. addTwoNumbers first_fit digit_heap 1 3 = Some (Inr (h', r)) \<and> path h' r cs NULL
    \<and> digits (vals h' cs)
    \<and> num (vals h' cs) = num (vals digit_heap [1, 2]) + num (vals digit_heap [3])
    \<and> (\<forall>b \<in> dom digit_heap. h' b = digit_heap b)"
proof -
  have dom: "dom digit_heap = {1, 2, 3}" by (auto simp: digit_heap_def)
  show ?thesis
    by (rule addTwoNumbers_adds [OF fresh_first_fit roomy_first_fit])
      (simp_all add: dom, simp_all add: digit_heap_def digits_def)
qed

text \<open>\<open>printNode\<close> of an empty list prints \<open>[]\<close> and then dereferences \<open>NULL\<close>.\<close>

lemma printNode_empty_crashes: "printNode h NULL = Some (Inl NullDeref)"
  by (simp add: printNode_def print_nodes.simps)

end
