(* ===== verification/Tree_Heap.thy ===== *)
theory Tree_Heap
  imports C_Heap "HOL-Library.Tree" "HOL-Library.Multiset"
begin

text \<open>
  Binary trees in the heap, shared by the tree programs, and level order traversal with a queue of
  node pointers.  A pointer field is an option, \<open>None\<close> for a field that was never assigned.
  \<open>tree_at\<close> relates a pointer to the tree of the addresses below it, \<open>vt\<close> reads the tree of
  the values.  The traversal loop is written once, with the two queue operations as parameters,
  because two programs contain it with different queues; the locale \<open>node_queue\<close> states what
  it relies on.
\<close>

section \<open>Trees in the heap\<close>

record tnode =
  tdata :: int
  left :: "addr option"
  right :: "addr option"

type_synonym tree_heap = "tnode heap"

definition use_ptr :: "addr option \<Rightarrow> addr cres" where
  "use_ptr p = (case p of None \<Rightarrow> Inl Uninit | Some a \<Rightarrow> Inr a)"

lemma use_ptr_simps [simp]: "use_ptr None = Inl Uninit" "use_ptr (Some a) = Inr a"
  by (simp_all add: use_ptr_def)

definition set_left :: "tree_heap \<Rightarrow> addr \<Rightarrow> addr \<Rightarrow> tree_heap cres" where
  "set_left h p q = bindE (deref h p) (\<lambda>n. Inr (h(p \<mapsto> n\<lparr>left := Some q\<rparr>)))"

definition set_right :: "tree_heap \<Rightarrow> addr \<Rightarrow> addr \<Rightarrow> tree_heap cres" where
  "set_right h p q = bindE (deref h p) (\<lambda>n. Inr (h(p \<mapsto> n\<lparr>right := Some q\<rparr>)))"

fun tree_at :: "tree_heap \<Rightarrow> addr \<Rightarrow> addr tree \<Rightarrow> bool" where
  "tree_at h p \<langle>\<rangle> \<longleftrightarrow> p = NULL"
| "tree_at h p \<langle>l, a, r\<rangle> \<longleftrightarrow> p = a \<and> a \<noteq> NULL
     \<and> (case h a of None \<Rightarrow> False | Some n \<Rightarrow>
         (case (left n, right n) of (Some lp, Some rp) \<Rightarrow> tree_at h lp l \<and> tree_at h rp r | _ \<Rightarrow> False))"

declare tree_at.simps(2) [simp del]

lemma tree_at_Node [simp]:
  "tree_at h p \<langle>l, a, r\<rangle> \<longleftrightarrow> p = a \<and> a \<noteq> NULL
     \<and> (\<exists>d lp rp. h a = Some \<lparr> tdata = d, left = Some lp, right = Some rp \<rparr>
          \<and> tree_at h lp l \<and> tree_at h rp r)"
  by (auto simp: tree_at.simps(2) split: option.splits) (metis tnode.surjective old.unit.exhaust)+

lemma tree_at_NodeE:
  assumes "tree_at h p \<langle>l, a, r\<rangle>"
  obtains d lp rp where "p = a" and "a \<noteq> NULL"
    and "h a = Some \<lparr> tdata = d, left = Some lp, right = Some rp \<rparr>"
    and "tree_at h lp l" and "tree_at h rp r"
  using assms by auto

definition val_at :: "tree_heap \<Rightarrow> addr \<Rightarrow> int" where
  "val_at h a = (case h a of Some n \<Rightarrow> tdata n | None \<Rightarrow> 0)"

definition vt :: "tree_heap \<Rightarrow> addr tree \<Rightarrow> int tree" where
  "vt h t = map_tree (val_at h) t"

lemma vt_simps [simp]:
  "vt h \<langle>\<rangle> = \<langle>\<rangle>" "vt h \<langle>l, a, r\<rangle> = \<langle>vt h l, val_at h a, vt h r\<rangle>"
  by (simp_all add: vt_def)

lemma val_at_some [simp]: "h a = Some n \<Longrightarrow> val_at h a = tdata n"
  by (simp add: val_at_def)

lemma tree_at_alloc: "tree_at h p t \<Longrightarrow> a \<in> set_tree t \<Longrightarrow> a \<noteq> NULL \<and> a \<in> dom h"
  by (induction t arbitrary: p) auto

lemma tree_at_cong:
  "(\<And>a. a \<in> set_tree t \<Longrightarrow> h a = g a) \<Longrightarrow> tree_at h p t = tree_at g p t"
  by (induction t arbitrary: p) simp_all

lemma vt_cong: "(\<And>a. a \<in> set_tree t \<Longrightarrow> h a = g a) \<Longrightarrow> vt h t = vt g t"
  by (induction t) (simp_all add: val_at_def)

lemma tree_at_upd [simp]: "a \<notin> set_tree t \<Longrightarrow> tree_at (h(a := x)) p t = tree_at h p t"
  by (rule tree_at_cong) auto

lemma vt_upd [simp]: "a \<notin> set_tree t \<Longrightarrow> vt (h(a := x)) t = vt h t"
  by (rule vt_cong) auto

lemma tree_at_NULL [simp]: "tree_at h 0 t \<longleftrightarrow> t = \<langle>\<rangle>"
  by (cases t) auto

lemma size_vt [simp]: "size (vt h t) = size t"
  by (simp add: vt_def)

section \<open>Level order\<close>

fun level :: "'a tree \<Rightarrow> nat \<Rightarrow> 'a list" where
  "level \<langle>\<rangle> i = []"
| "level \<langle>l, a, r\<rangle> 0 = [a]"
| "level \<langle>l, a, r\<rangle> (Suc i) = level l i @ level r i"

definition level_order_of :: "'a tree \<Rightarrow> 'a list" where
  "level_order_of t = concat (map (level t) [0..<height t])"

lemma level_vt: "level (vt h t) i = map (val_at h) (level t i)"
  by (induction t i rule: level.induct) simp_all

lemma level_order_vt: "map (val_at h) (level_order_of t) = level_order_of (vt h t)"
proof -
  have "height (vt h t) = height t" by (simp add: vt_def)
  moreover have "level (vt h t) = (\<lambda>i. map (val_at h) (level t i))" by (rule ext) (rule level_vt)
  ultimately show ?thesis by (simp add: level_order_of_def map_concat o_def)
qed

text \<open>The order in which a queue of trees is served.\<close>

function bfs :: "'a tree list \<Rightarrow> 'a list" where
  "bfs [] = []"
| "bfs (\<langle>\<rangle> # ts) = bfs ts"
| "bfs (\<langle>l, a, r\<rangle> # ts) = a # bfs (ts @ [l, r])"
  by pat_completeness auto
termination by (relation "measures [\<lambda>ts. sum_list (map size ts), length]") auto

fun children :: "'a tree \<Rightarrow> 'a tree list" where
  "children \<langle>\<rangle> = []"
| "children \<langle>l, a, r\<rangle> = [l, r]"

definition below :: "'a tree list \<Rightarrow> 'a tree list" where
  "below ts = concat (map children ts)"

lemma bfs_append: "bfs (ts @ us) = concat (map (\<lambda>t. level t 0) ts) @ bfs (us @ below ts)"
proof (induction ts arbitrary: us)
  case (Cons t ts)
  then show ?case by (cases t) (simp_all add: below_def)
qed (simp add: below_def)

lemma level_below: "concat (map (\<lambda>t. level t (Suc i)) ts) = concat (map (\<lambda>t. level t i) (below ts))"
proof (induction ts)
  case (Cons t ts)
  then show ?case by (cases t) (simp_all add: below_def)
qed (simp add: below_def)

lemma height_below: "\<forall>t \<in> set ts. height t \<le> Suc n \<Longrightarrow> \<forall>t \<in> set (below ts). height t \<le> n"
proof (induction ts)
  case (Cons t ts)
  then show ?case by (cases t) (auto simp: below_def)
qed (simp add: below_def)

lemma bfs_levels:
  "\<forall>t \<in> set ts. height t \<le> n \<Longrightarrow> bfs ts = concat (map (\<lambda>i. concat (map (\<lambda>t. level t i) ts)) [0..<n])"
proof (induction n arbitrary: ts)
  case 0
  then have "\<forall>t \<in> set ts. t = \<langle>\<rangle>" by simp
  then show ?case by (induction ts) auto
next
  case (Suc n)
  have "bfs ts = concat (map (\<lambda>t. level t 0) ts) @ bfs (below ts)" using bfs_append [of ts "[]"] by simp
  also have "bfs (below ts) = concat (map (\<lambda>i. concat (map (\<lambda>t. level t (Suc i)) ts)) [0..<n])"
    using Suc.IH [OF height_below [OF Suc.prems]] by (simp add: level_below)
  finally show ?case by (simp add: upt_conv_Cons map_Suc_upt [symmetric] o_def del: upt_Suc)
qed

lemma bfs_level_order: "bfs [t] = level_order_of t"
  using bfs_levels [of "[t]" "height t"] by (simp add: level_order_of_def)

lemma bfs_filter: "bfs (filter (\<lambda>t. t \<noteq> \<langle>\<rangle>) ts) = bfs ts"
proof (induction ts rule: bfs.induct)
  case (3 l a r ts)
  have "bfs (filter (\<lambda>t. t \<noteq> \<langle>\<rangle>) (\<langle>l, a, r\<rangle> # ts)) = a # bfs (filter (\<lambda>t. t \<noteq> \<langle>\<rangle>) ts @ [l, r])" by simp
  also have "bfs (filter (\<lambda>t. t \<noteq> \<langle>\<rangle>) ts @ [l, r]) = bfs (ts @ [l, r])"
  proof -
    have "concat (map (\<lambda>t. level t 0) (filter (\<lambda>t. t \<noteq> \<langle>\<rangle>) us)) = concat (map (\<lambda>t. level t 0) us)"
      and "below (filter (\<lambda>t. t \<noteq> \<langle>\<rangle>) us) = below us" for us :: "'a tree list"
      by (induction us) (auto simp: below_def)
    then show ?thesis by (simp add: bfs_append [of _ "[l, r]"])
  qed
  finally show ?case by simp
qed auto

lemma bfs_Node_filter:
  assumes "\<langle>\<rangle> \<notin> set ts"
  shows "bfs (\<langle>l, a, r\<rangle> # ts) = a # bfs (ts @ filter (\<lambda>t. t \<noteq> \<langle>\<rangle>) [l, r])"
proof -
  have "filter (\<lambda>t. t \<noteq> \<langle>\<rangle>) ts = ts" using assms by (auto simp: filter_id_conv)
  then have "bfs (ts @ filter (\<lambda>t. t \<noteq> \<langle>\<rangle>) [l, r]) = bfs (filter (\<lambda>t. t \<noteq> \<langle>\<rangle>) (ts @ [l, r]))"
    by (simp only: filter_append)
  then show ?thesis by (simp only: bfs_filter bfs.simps)
qed

lemma length_le_sizes: "\<langle>\<rangle> \<notin> set ts \<Longrightarrow> length ts \<le> sum_list (map size ts)"
proof (induction ts)
  case (Cons t ts)
  then have "0 < size t" by (cases t) auto
  with Cons show ?case by auto
qed simp

section \<open>The traversal loop\<close>

text \<open>One round: print the node, enqueue its children, fetch the next node.\<close>

definition visit_node :: "('q \<Rightarrow> addr \<Rightarrow> 'q cres) \<Rightarrow> tree_heap \<Rightarrow> 'q \<Rightarrow> addr \<Rightarrow> (int \<times> 'q) cres" where
  "visit_node enq h q temp =
     bindE (deref h temp) (\<lambda>n.
     bindE (use_ptr (left n)) (\<lambda>l.
     bindE (if l \<noteq> NULL then enq q l else Inr q) (\<lambda>q.
     bindE (use_ptr (right n)) (\<lambda>r.
     bindE (if r \<noteq> NULL then enq q r else Inr q) (\<lambda>q.
     Inr (tdata n, q))))))"

definition visit_step ::
    "('q \<Rightarrow> addr \<Rightarrow> 'q cres) \<Rightarrow> ('q \<Rightarrow> ('q \<times> addr) cres) \<Rightarrow> tree_heap \<Rightarrow> 'q \<Rightarrow> addr
     \<Rightarrow> (int \<times> 'q \<times> addr) cres" where
  "visit_step enq deq h q temp =
     bindE (visit_node enq h q temp) (\<lambda>(d, q). bindE (deq q) (\<lambda>(q, temp). Inr (d, q, temp)))"

partial_function (option) visit_loop ::
    "('q \<Rightarrow> addr \<Rightarrow> 'q cres) \<Rightarrow> ('q \<Rightarrow> ('q \<times> addr) cres) \<Rightarrow> tree_heap \<Rightarrow> 'q \<Rightarrow> addr
     \<Rightarrow> ('q \<times> int list) cres option" where
  "visit_loop enq deq h q temp =
     (if temp = NULL then Some (Inr (q, []))
      else case visit_step enq deq h q temp of
          Inl e \<Rightarrow> Some (Inl e)
        | Inr (d, q', temp') \<Rightarrow>
            Option.bind (visit_loop enq deq h q' temp') (\<lambda>r.
              Some (bindE r (\<lambda>(q'', out). Inr (q'', d # out)))))"

text \<open>The contract of a queue of non-null pointers: \<open>content\<close> in order of arrival, and
  \<open>room\<close>, a number of further insertions it takes without harm.\<close>

locale node_queue =
  fixes enq :: "'q \<Rightarrow> addr \<Rightarrow> 'q cres" and deq :: "'q \<Rightarrow> ('q \<times> addr) cres"
    and wf :: "'q \<Rightarrow> bool" and content :: "'q \<Rightarrow> addr list" and room :: "'q \<Rightarrow> nat"
  assumes enq_appends: "wf q \<Longrightarrow> 0 < room q \<Longrightarrow> p \<noteq> NULL \<Longrightarrow>
      \<exists>q'. enq q p = Inr q' \<and> wf q' \<and> content q' = content q @ [p] \<and> room q \<le> Suc (room q')"
    and deq_first: "wf q \<Longrightarrow> content q = p # ps \<Longrightarrow>
      \<exists>q'. deq q = Inr (q', p) \<and> wf q' \<and> content q' = ps \<and> room q \<le> room q'"
    and deq_empty: "wf q \<Longrightarrow> content q = [] \<Longrightarrow> \<exists>q'. deq q = Inr (q', NULL)"
begin

lemma enq_child:
  assumes "wf q" and "list_all2 (tree_at h) (content q) ts" and "tree_at h p t"
    and "t \<noteq> \<langle>\<rangle> \<Longrightarrow> 0 < room q"
  obtains q' where "(if p \<noteq> NULL then enq q p else Inr q) = Inr q'" and "wf q'"
    and "list_all2 (tree_at h) (content q') (ts @ filter (\<lambda>t. t \<noteq> \<langle>\<rangle>) [t])"
    and "room q \<le> room q' + (if t = \<langle>\<rangle> then 0 else 1)"
proof (cases "t = \<langle>\<rangle>")
  case True
  then show ?thesis using that [of q] assms by simp
next
  case False
  then have "p \<noteq> NULL" using assms(3) by (metis tree_at_NULL)
  moreover have "list_all2 (tree_at h) (content q @ [p]) (ts @ [t])"
    using assms(2, 3) by (simp add: list_all2_appendI)
  ultimately show ?thesis
    using that False enq_appends [OF assms(1) assms(4) [OF False], of p] by auto
qed

lemma visit_node_children:
  assumes "wf q" and "list_all2 (tree_at h) (content q) ts" and "tree_at h p \<langle>l, a, r\<rangle>"
    and "length (filter (\<lambda>t. t \<noteq> \<langle>\<rangle>) [l, r]) \<le> room q"
  obtains q' where "visit_node enq h q p = Inr (val_at h a, q')" and "wf q'" and "list_all2 (tree_at h) (content q') (ts @ filter (\<lambda>t. t \<noteq> \<langle>\<rangle>) [l, r])"
    and "room q \<le> room q' + length (filter (\<lambda>t. t \<noteq> \<langle>\<rangle>) [l, r])"
proof -
  obtain d lp rp where n: "p = a" "a \<noteq> NULL" "h a = Some \<lparr> tdata = d, left = Some lp, right = Some rp \<rparr>"
    "tree_at h lp l" "tree_at h rp r" using assms(3) by (rule tree_at_NodeE)
  obtain q1 where q1: "(if lp \<noteq> NULL then enq q lp else Inr q) = Inr q1" "wf q1"
    "list_all2 (tree_at h) (content q1) (ts @ filter (\<lambda>t. t \<noteq> \<langle>\<rangle>) [l])"
    "room q \<le> room q1 + (if l = \<langle>\<rangle> then 0 else 1)"
    using enq_child [OF assms(1, 2) n(4)] assms(4) by (auto split: if_splits)
  obtain q2 where q2: "(if rp \<noteq> NULL then enq q1 rp else Inr q1) = Inr q2" "wf q2"
    "list_all2 (tree_at h) (content q2) ((ts @ filter (\<lambda>t. t \<noteq> \<langle>\<rangle>) [l]) @ filter (\<lambda>t. t \<noteq> \<langle>\<rangle>) [r])"
    "room q1 \<le> room q2 + (if r = \<langle>\<rangle> then 0 else 1)"
    using enq_child [OF q1(2, 3) n(5)] assms(4) q1(4) by (auto split: if_splits)
  have "visit_node enq h q p = Inr (val_at h a, q2)"
    using n q1(1) q2(1) by (simp add: visit_node_def)
  moreover have "room q \<le> room q2 + length (filter (\<lambda>t. t \<noteq> \<langle>\<rangle>) [l, r])" using q1(4) q2(4) by auto
  moreover have "list_all2 (tree_at h) (content q2) (ts @ filter (\<lambda>t. t \<noteq> \<langle>\<rangle>) [l, r])"
    using q2(3) by (simp split: if_splits)
  ultimately show ?thesis using that q2(2) by blast
qed

text \<open>The loop serves the trees in the order of \<open>bfs\<close>, if there is room for all nodes that are
  still to be enqueued.\<close>

lemma visit_loop_bfs:
  assumes "wf q" and "list_all2 (tree_at h) (content q) ts" and "tree_at h p t" and "t \<noteq> \<langle>\<rangle>"
    and "\<langle>\<rangle> \<notin> set ts" and "sum_list (map size (t # ts)) \<le> Suc (length ts) + room q"
  shows "\<exists>q'. visit_loop enq deq h q p = Some (Inr (q', map (val_at h) (bfs (t # ts))))"
  using assms
proof (induction "sum_list (map size (t # ts))" arbitrary: q p t ts rule: less_induct)
  case less
  obtain l a r where t: "t = \<langle>l, a, r\<rangle>" using less.prems(4) by (cases t) auto
  have p: "p \<noteq> NULL" using less.prems(3) t by simp
  let ?us = "ts @ filter (\<lambda>t. t \<noteq> \<langle>\<rangle>) [l, r]"
  have len: "length ts \<le> sum_list (map size ts)" using less.prems(5) by (rule length_le_sizes)
  have ch: "length (filter (\<lambda>t. t \<noteq> \<langle>\<rangle>) [l, r]) \<le> size l + size r" by (auto simp: neq_Leaf_iff)
  have "length (filter (\<lambda>t. t \<noteq> \<langle>\<rangle>) [l, r]) \<le> room q" using less.prems(6) len ch t by simp
  then obtain q1 where q1: "visit_node enq h q p = Inr (val_at h a, q1)"
    "wf q1" "list_all2 (tree_at h) (content q1) ?us"
    "room q \<le> room q1 + length (filter (\<lambda>t. t \<noteq> \<langle>\<rangle>) [l, r])"
    using visit_node_children [OF less.prems(1, 2), of p l a r] less.prems(3) t by blast
  have bfs: "bfs (t # ts) = a # bfs ?us" unfolding t using less.prems(5) by (rule bfs_Node_filter)
  show ?case
  proof (cases ?us)
    case Nil
    then have "content q1 = []" using q1(3) by (metis list_all2_Nil2)
    with q1 p bfs Nil show ?thesis
      using deq_empty [of q1] by (auto simp: visit_loop.simps [of enq deq h] visit_step_def)
  next
    case (Cons u us)
    then obtain p' ps where ps: "content q1 = p' # ps" "tree_at h p' u" "list_all2 (tree_at h) ps us"
      using q1(3) by (metis list_all2_Cons2)
    obtain q2 where q2: "deq q1 = Inr (q2, p')" "wf q2" "content q2 = ps" "room q1 \<le> room q2"
      using deq_first [OF q1(2) ps(1)] by blast
    have ne: "\<langle>\<rangle> \<notin> set (u # us)" using less.prems(5) unfolding Cons [symmetric] by auto
    have size: "sum_list (map size (u # us)) = sum_list (map size ts) + size l + size r"
      unfolding Cons [symmetric] by auto
    have lus: "length us + 1 = length ts + length (filter (\<lambda>t. t \<noteq> \<langle>\<rangle>) [l, r])"
      using arg_cong [OF Cons, of length] by simp
    have "sum_list (map size (u # us)) < sum_list (map size (t # ts))" using size t by simp
    moreover have "sum_list (map size (u # us)) \<le> Suc (length us) + room q2"
      using size t less.prems(6) q1(4) q2(4) lus by simp
    ultimately obtain q' where "visit_loop enq deq h q2 p' = Some (Inr (q', map (val_at h) (bfs (u # us))))"
      using less.hyps [of u us q2 p'] q2 ps ne by auto
    then show ?thesis using q1(1) q2(1) p bfs Cons by (simp add: visit_loop.simps [of enq deq h q p] visit_step_def)
  qed
qed

end

section \<open>Draining a queue with an emptiness test\<close>

partial_function (option) drain_loop ::
    "('q \<Rightarrow> addr \<Rightarrow> 'q cres) \<Rightarrow> ('q \<Rightarrow> ('q \<times> addr) cres) \<Rightarrow> ('q \<Rightarrow> bool) \<Rightarrow> tree_heap \<Rightarrow> 'q
     \<Rightarrow> int list cres option" where
  "drain_loop enq deq is_empty h q =
     (if is_empty q then Some (Inr [])
      else case deq q of
          Inl e \<Rightarrow> Some (Inl e)
        | Inr (q', temp) \<Rightarrow>
            if temp = NULL then Some (Inr [])
            else (case visit_node enq h q' temp of
                Inl e \<Rightarrow> Some (Inl e)
              | Inr (d, q'') \<Rightarrow>
                  Option.bind (drain_loop enq deq is_empty h q'') (\<lambda>r.
                    Some (bindE r (\<lambda>out. Inr (d # out))))))"

locale tested_queue = node_queue +
  fixes is_empty :: "'q \<Rightarrow> bool"
  assumes is_empty_content: "wf q \<Longrightarrow> is_empty q \<longleftrightarrow> content q = []"
begin

lemma drain_loop_bfs:
  assumes "wf q" and "list_all2 (tree_at h) (content q) ts" and "\<langle>\<rangle> \<notin> set ts"
    and "sum_list (map size ts) \<le> length ts + room q"
  shows "drain_loop enq deq is_empty h q = Some (Inr (map (val_at h) (bfs ts)))"
  using assms
proof (induction "sum_list (map size ts)" arbitrary: q ts rule: less_induct)
  case less
  show ?case
  proof (cases ts)
    case Nil
    then show ?thesis
      using less.prems(1, 2) is_empty_content by (simp add: drain_loop.simps [of enq deq is_empty h q])
  next
    case (Cons t us)
    then obtain p ps where ps: "content q = p # ps" "tree_at h p t" "list_all2 (tree_at h) ps us"
      using less.prems(2) by (metis list_all2_Cons2)
    obtain l a r where t: "t = \<langle>l, a, r\<rangle>" using less.prems(3) Cons by (cases t) auto
    obtain q1 where q1: "deq q = Inr (q1, p)" "wf q1" "content q1 = ps" "room q \<le> room q1"
      using deq_first [OF less.prems(1) ps(1)] by blast
    have us: "\<langle>\<rangle> \<notin> set us" using less.prems(3) Cons by simp
    have sizes: "length us \<le> sum_list (map size us)" using us by (rule length_le_sizes)
    have ch: "length (filter (\<lambda>t. t \<noteq> \<langle>\<rangle>) [l, r]) \<le> size l + size r" by (auto simp: neq_Leaf_iff)
    have "length (filter (\<lambda>t. t \<noteq> \<langle>\<rangle>) [l, r]) \<le> room q1"
      using less.prems(4) Cons t sizes ch q1(4) by simp
    then obtain q2 where q2: "visit_node enq h q1 p = Inr (val_at h a, q2)" "wf q2"
      "list_all2 (tree_at h) (content q2) (us @ filter (\<lambda>t. t \<noteq> \<langle>\<rangle>) [l, r])"
      "room q1 \<le> room q2 + length (filter (\<lambda>t. t \<noteq> \<langle>\<rangle>) [l, r])"
      using visit_node_children [OF q1(2), of h us p l a r] ps(2, 3) q1(3) t by blast
    let ?vs = "us @ filter (\<lambda>t. t \<noteq> \<langle>\<rangle>) [l, r]"
    have sum: "sum_list (map size ?vs) = sum_list (map size us) + size l + size r" by auto
    then have "sum_list (map size ?vs) < sum_list (map size ts)" using Cons t by simp
    moreover have "\<langle>\<rangle> \<notin> set ?vs" using us by auto
    moreover have "sum_list (map size ?vs) \<le> length ?vs + room q2"
      using sum less.prems(4) Cons t q1(4) q2(4) by simp
    ultimately have "drain_loop enq deq is_empty h q2 = Some (Inr (map (val_at h) (bfs ?vs)))"
      using less.hyps q2(2, 3) by blast
    moreover have "p \<noteq> NULL" "\<not> is_empty q"
      using ps(1, 2) t less.prems(1) is_empty_content by auto
    ultimately show ?thesis
      using q1(1) q2(1) Cons t bfs_Node_filter [OF us, of l a r]
      by (simp add: drain_loop.simps [of enq deq is_empty h q])
  qed
qed

end

end
