(* ===== verification/Search_Trees.thy ===== *)
theory Search_Trees
  imports Tree_Heap
begin

text \<open>
  The two binary search tree programs: \<open>Interview_Questions/MS/bst_insert_search.c\<close> (insertion
  and level order with a queue of 100 slots) and \<open>data_struct/bst/bst.c\<close> (insertion through a
  pointer to the link, and the recursive traversals).  Both insertions refine a function on
  values: \<open>bst_ins\<close> keeps every value, \<open>bst_c_ins\<close> cuts off the subtree of a value that is
  inserted again.
\<close>

section \<open>\<open>bst_insert_search.c\<close>\<close>

definition getNewNode :: "tnode allocator \<Rightarrow> tree_heap \<Rightarrow> addr" where
  "getNewNode alloc h = alloc h"

definition new_leaf :: "tnode allocator \<Rightarrow> tree_heap \<Rightarrow> int \<Rightarrow> (tree_heap \<times> addr) cres" where
  "new_leaf alloc h d =
     (let root = getNewNode alloc h in
      if root = NULL then Inl NullDeref
      else Inr (h(root \<mapsto> \<lparr> tdata = d, left = Some NULL, right = Some NULL \<rparr>), root))"

partial_function (option) Insert ::
    "tnode allocator \<Rightarrow> tree_heap \<Rightarrow> addr \<Rightarrow> int \<Rightarrow> (tree_heap \<times> addr) cres option" where
  "Insert alloc h root d =
     (if root = NULL then Some (new_leaf alloc h d)
      else case deref h root of Inl e \<Rightarrow> Some (Inl e) | Inr n \<Rightarrow>
        if d \<le> tdata n then
          (case use_ptr (left n) of Inl e \<Rightarrow> Some (Inl e) | Inr l \<Rightarrow>
             Option.bind (Insert alloc h l d) (\<lambda>r.
               Some (bindE r (\<lambda>(h, l). bindE (set_left h root l) (\<lambda>h. Inr (h, root))))))
        else
          (case use_ptr (right n) of Inl e \<Rightarrow> Some (Inl e) | Inr p \<Rightarrow>
             Option.bind (Insert alloc h p d) (\<lambda>r.
               Some (bindE r (\<lambda>(h, p). bindE (set_right h root p) (\<lambda>h. Inr (h, root)))))))"

record queue100 =
  q_slots :: "addr list"
  q_end :: nat
  q_start :: nat

definition enqueue100 :: "queue100 \<Rightarrow> addr \<Rightarrow> queue100 cres" where
  "enqueue100 Q p =
     (if q_end Q < 100
      then bindE (wr (q_slots Q) (q_end Q) p) (\<lambda>s. Inr (Q\<lparr>q_slots := s, q_end := q_end Q + 1\<rparr>))
      else Inr Q)"

definition dequeue100 :: "queue100 \<Rightarrow> (queue100 \<times> addr) cres" where
  "dequeue100 Q =
     (if q_end Q \<le> q_start Q then Inr (Q, NULL)
      else bindE (rd (q_slots Q) (q_start Q)) (\<lambda>p. Inr (Q\<lparr>q_start := q_start Q + 1\<rparr>, p)))"

text \<open>\<open>level_order\<close> calls itself with the next node as its last statement.\<close>

definition level_order :: "tree_heap \<Rightarrow> queue100 \<Rightarrow> addr \<Rightarrow> (queue100 \<times> int list) cres option" where
  "level_order h Q root = visit_loop enqueue100 dequeue100 h Q root"

definition preorder_left :: "tree_heap \<Rightarrow> addr \<Rightarrow> int list cres" where
  "preorder_left h root =
     (if root = NULL then Inr []
      else bindE (deref h root) (\<lambda>n. bindE (use_ptr (left n)) (\<lambda>l.
        if l = NULL then Inr [] else bindE (deref h l) (\<lambda>m. Inr [tdata m]))))"

definition empty100 :: queue100 where
  "empty100 = \<lparr> q_slots = replicate 100 NULL, q_end = 0, q_start = 0 \<rparr>"

fun insert_all ::
    "tnode allocator \<Rightarrow> tree_heap \<Rightarrow> addr \<Rightarrow> int list \<Rightarrow> (tree_heap \<times> addr) cres option" where
  "insert_all alloc h root [] = Some (Inr (h, root))"
| "insert_all alloc h root (d # ds) =
     bindO (Insert alloc h root d) (\<lambda>(h, root). insert_all alloc h root ds)"

definition bst_search_main :: "tnode allocator \<Rightarrow> (int list \<times> int list) cres option" where
  "bst_search_main alloc =
     bindO (insert_all alloc Map.empty NULL [8, 10, 4, 9, 25]) (\<lambda>(h, root).
     bindO (level_order h empty100 root) (\<lambda>(Q, out1).
     bindO (Some (preorder_left h root)) (\<lambda>out2.
     Some (Inr (out1, out2)))))"

section \<open>Insertion refines \<open>bst_ins\<close>\<close>

fun bst_ins :: "int \<Rightarrow> int tree \<Rightarrow> int tree" where
  "bst_ins x \<langle>\<rangle> = \<langle>\<langle>\<rangle>, x, \<langle>\<rangle>\<rangle>"
| "bst_ins x \<langle>l, a, r\<rangle> = (if x \<le> a then \<langle>bst_ins x l, a, r\<rangle> else \<langle>l, a, bst_ins x r\<rangle>)"

lemma mset_bst_ins: "mset (inorder (bst_ins x t)) = add_mset x (mset (inorder t))"
  by (induction t) auto

lemma set_bst_ins [simp]: "set_tree (bst_ins x t) = insert x (set_tree t)"
  by (induction t) auto

lemma sorted_bst_ins: "sorted (inorder t) \<Longrightarrow> sorted (inorder (bst_ins x t))"
  by (induction t) (auto simp: sorted_append sorted_wrt_append)

text \<open>The result of an operation that adds the node \<open>new\<close> to a tree: a tree again, with the
  nodes it had and the new one, and the rest of the heap as it was.\<close>

definition grown :: "tree_heap \<Rightarrow> addr tree \<Rightarrow> addr \<Rightarrow> tree_heap \<Rightarrow> addr \<Rightarrow> addr tree \<Rightarrow> bool" where
  "grown h t new h' p' t' \<longleftrightarrow>
     tree_at h' p' t' \<and> set_tree t' = insert new (set_tree t) \<and> distinct (inorder t')
     \<and> (\<forall>a. a \<notin> set_tree t' \<longrightarrow> h' a = h a)"

lemma grown_left:
  assumes "grown h l new h' lp' l'" and "distinct (inorder \<langle>l, a, r\<rangle>)" and "new \<notin> set_tree \<langle>l, a, r\<rangle>"
    and "a \<noteq> NULL" and "h a = Some n" and "right n = Some rp" and "tree_at h rp r"
  shows "set_left h' a lp' = Inr (h'(a \<mapsto> n\<lparr>left := Some lp'\<rparr>))"
    and "grown h \<langle>l, a, r\<rangle> new (h'(a \<mapsto> n\<lparr>left := Some lp'\<rparr>)) a \<langle>l', a, r\<rangle>"
    and "vt (h'(a \<mapsto> n\<lparr>left := Some lp'\<rparr>)) \<langle>l', a, r\<rangle> = \<langle>vt h' l', tdata n, vt h r\<rangle>"
proof -
  have a: "a \<notin> set_tree l'" "a \<notin> set_tree r" "h' a = Some n"
    using assms(1-3, 5) by (auto simp: grown_def)
  then show "set_left h' a lp' = Inr (h'(a \<mapsto> n\<lparr>left := Some lp'\<rparr>))"
    using assms(4) by (simp add: set_left_def)
  have r: "h' b = h b" if "b \<in> set_tree r" for b using that assms(1-3) by (auto simp: grown_def)
  have "tree_at h' rp r" "vt h' r = vt h r"
    using tree_at_cong [of r h' h rp] vt_cong [of r h' h] r assms(7) by simp_all
  then show "grown h \<langle>l, a, r\<rangle> new (h'(a \<mapsto> n\<lparr>left := Some lp'\<rparr>)) a \<langle>l', a, r\<rangle>"
    and "vt (h'(a \<mapsto> n\<lparr>left := Some lp'\<rparr>)) \<langle>l', a, r\<rangle> = \<langle>vt h' l', tdata n, vt h r\<rangle>"
    using assms a by (cases n; auto simp: grown_def)+
qed

lemma grown_right:
  assumes "grown h r new h' rp' r'" and "distinct (inorder \<langle>l, a, r\<rangle>)" and "new \<notin> set_tree \<langle>l, a, r\<rangle>"
    and "a \<noteq> NULL" and "h a = Some n" and "left n = Some lp" and "tree_at h lp l"
  shows "set_right h' a rp' = Inr (h'(a \<mapsto> n\<lparr>right := Some rp'\<rparr>))"
    and "grown h \<langle>l, a, r\<rangle> new (h'(a \<mapsto> n\<lparr>right := Some rp'\<rparr>)) a \<langle>l, a, r'\<rangle>"
    and "vt (h'(a \<mapsto> n\<lparr>right := Some rp'\<rparr>)) \<langle>l, a, r'\<rangle> = \<langle>vt h l, tdata n, vt h' r'\<rangle>"
proof -
  have a: "a \<notin> set_tree r'" "a \<notin> set_tree l" "h' a = Some n"
    using assms(1-3, 5) by (auto simp: grown_def)
  then show "set_right h' a rp' = Inr (h'(a \<mapsto> n\<lparr>right := Some rp'\<rparr>))"
    using assms(4) by (simp add: set_right_def)
  have l: "h' b = h b" if "b \<in> set_tree l" for b using that assms(1-3) by (auto simp: grown_def)
  have "tree_at h' lp l" "vt h' l = vt h l"
    using tree_at_cong [of l h' h lp] vt_cong [of l h' h] l assms(7) by simp_all
  then show "grown h \<langle>l, a, r\<rangle> new (h'(a \<mapsto> n\<lparr>right := Some rp'\<rparr>)) a \<langle>l, a, r'\<rangle>"
    and "vt (h'(a \<mapsto> n\<lparr>right := Some rp'\<rparr>)) \<langle>l, a, r'\<rangle> = \<langle>vt h l, tdata n, vt h' r'\<rangle>"
    using assms a by (cases n; auto simp: grown_def)+
qed

lemma Insert_grows:
  assumes "fresh_alloc alloc" and "alloc h \<noteq> NULL" and "tree_at h p t" and "distinct (inorder t)"
  shows "\<exists>h' p' t'. Insert alloc h p x = Some (Inr (h', p')) \<and> grown h t (alloc h) h' p' t'
    \<and> vt h' t' = bst_ins x (vt h t)"
  using assms(3, 4)
proof (induction t arbitrary: p)
  case Leaf
  then show ?case
    using assms(2)
    by (intro exI [of _ "h(alloc h \<mapsto> \<lparr> tdata = x, left = Some NULL, right = Some NULL \<rparr>)"]
          exI [of _ "alloc h"] exI [of _ "\<langle>\<langle>\<rangle>, alloc h, \<langle>\<rangle>\<rangle>"])
      (simp add: Insert.simps [of alloc h 0] new_leaf_def getNewNode_def grown_def Let_def fun_upd_def)
next
  case (Node l a r)
  obtain d lp rp where n: "p = a" "a \<noteq> NULL" "h a = Some \<lparr> tdata = d, left = Some lp, right = Some rp \<rparr>"
    "tree_at h lp l" "tree_at h rp r" using Node.prems(1) by (rule tree_at_NodeE)
  have fresh: "alloc h \<notin> set_tree \<langle>l, a, r\<rangle>"
    using tree_at_alloc [OF Node.prems(1), of "alloc h"] fresh_allocD [OF assms(1, 2)] by auto
  have dist: "distinct (inorder l)" "distinct (inorder r)" using Node.prems(2) by simp_all
  show ?case
  proof (cases "x \<le> d")
    case True
    obtain h' lp' l' where h': "Insert alloc h lp x = Some (Inr (h', lp'))" "grown h l (alloc h) h' lp' l'"
      "vt h' l' = bst_ins x (vt h l)" using Node.IH(1) [OF n(4) dist(1)] by blast
    define g where "g = h'(a \<mapsto> \<lparr> tdata = d, left = Some lp', right = Some rp \<rparr>)"
    have g: "set_left h' a lp' = Inr g" "grown h \<langle>l, a, r\<rangle> (alloc h) g a \<langle>l', a, r\<rangle>"
      "vt g \<langle>l', a, r\<rangle> = \<langle>vt h' l', d, vt h r\<rangle>"
      using grown_left [OF h'(2) Node.prems(2) fresh n(2, 3) _ n(5)] by (simp_all add: g_def)
    have "Insert alloc h p x = Some (Inr (g, a))"
      using True n h'(1) g(1) by (simp add: Insert.simps [of alloc h a])
    then show ?thesis using g(2, 3) h'(3) True n(3) by (intro exI conjI) auto
  next
    case False
    obtain h' rp' r' where h': "Insert alloc h rp x = Some (Inr (h', rp'))" "grown h r (alloc h) h' rp' r'"
      "vt h' r' = bst_ins x (vt h r)" using Node.IH(2) [OF n(5) dist(2)] by blast
    define g where "g = h'(a \<mapsto> \<lparr> tdata = d, left = Some lp, right = Some rp' \<rparr>)"
    have g: "set_right h' a rp' = Inr g" "grown h \<langle>l, a, r\<rangle> (alloc h) g a \<langle>l, a, r'\<rangle>"
      "vt g \<langle>l, a, r'\<rangle> = \<langle>vt h l, d, vt h' r'\<rangle>"
      using grown_right [OF h'(2) Node.prems(2) fresh n(2, 3) _ n(4)] by (simp_all add: g_def)
    have "Insert alloc h p x = Some (Inr (g, a))"
      using False n h'(1) g(1) by (simp add: Insert.simps [of alloc h a])
    then show ?thesis using g(2, 3) h'(3) False n(3) by (intro exI conjI) auto
  qed
qed

section \<open>The queue of 100 slots\<close>

definition wf100 :: "queue100 \<Rightarrow> bool" where
  "wf100 Q \<longleftrightarrow> length (q_slots Q) = 100 \<and> q_start Q \<le> q_end Q \<and> q_end Q \<le> 100"

definition content100 :: "queue100 \<Rightarrow> addr list" where
  "content100 Q = drop (q_start Q) (take (q_end Q) (q_slots Q))"

definition room100 :: "queue100 \<Rightarrow> nat" where
  "room100 Q = 100 - q_end Q"

interpretation q100: node_queue enqueue100 dequeue100 wf100 content100 room100
proof
  fix Q p
  assume "wf100 Q" "0 < room100 Q"
  then show "\<exists>Q'. enqueue100 Q p = Inr Q' \<and> wf100 Q' \<and> content100 Q' = content100 Q @ [p]
      \<and> room100 Q \<le> Suc (room100 Q')"
    by (auto simp: enqueue100_def wf100_def room100_def content100_def c_array take_Suc_conv_app_nth)
next
  fix Q p ps
  assume Q: "wf100 Q" "content100 Q = p # ps"
  then have "0 < length (content100 Q)" by simp
  then have "q_start Q < length (take (q_end Q) (q_slots Q))" by (simp add: content100_def)
  with Q have "p = q_slots Q ! q_start Q" "ps = drop (Suc (q_start Q)) (take (q_end Q) (q_slots Q))"
    "q_start Q < q_end Q"
    using Cons_nth_drop_Suc [of "q_start Q" "take (q_end Q) (q_slots Q)"] by (auto simp: content100_def)
  with Q(1) show "\<exists>Q'. dequeue100 Q = Inr (Q', p) \<and> wf100 Q' \<and> content100 Q' = ps \<and> room100 Q \<le> room100 Q'"
    by (simp add: dequeue100_def wf100_def room100_def content100_def c_array)
next
  fix Q
  assume "wf100 Q" "content100 Q = []"
  then show "\<exists>Q'. dequeue100 Q = Inr (Q', NULL)" by (auto simp: dequeue100_def content100_def wf100_def)
qed

lemma level_order_levels:
  assumes "tree_at h p t" and "size t \<le> 101"
  shows "\<exists>Q. level_order h empty100 p = Some (Inr (Q, level_order_of (vt h t)))"
proof (cases "t = \<langle>\<rangle>")
  case True
  then show ?thesis
    using assms(1) by (simp add: level_order_def visit_loop.simps level_order_of_def)
next
  case False
  have "wf100 empty100" "content100 empty100 = []" "room100 empty100 = 100"
    by (simp_all add: wf100_def content100_def room100_def empty100_def)
  then obtain Q where "level_order h empty100 p = Some (Inr (Q, map (val_at h) (bfs [t])))"
    using q100.visit_loop_bfs [of empty100 h "[]" p t] False assms by (auto simp: level_order_def)
  then show ?thesis by (simp add: bfs_level_order level_order_vt)
qed

section \<open>\<open>bst.c\<close>\<close>

definition MAX_LEN :: nat where "MAX_LEN = 7"

text \<open>\<open>levelorder\<close> stores the data of the root and prints nothing.\<close>

definition bst_levelorder :: "tree_heap \<Rightarrow> addr \<Rightarrow> int list cres" where
  "bst_levelorder h root =
     (if root \<noteq> NULL
      then bindE (deref h root) (\<lambda>n. bindE (wr (replicate MAX_LEN 0) 0 (tdata n)) (\<lambda>_. Inr []))
      else bindE (deref h root) (\<lambda>_. Inr []))"

text \<open>The recursive traversals; the values appear in the order they are printed.\<close>

partial_function (option) bst_inorder :: "tree_heap \<Rightarrow> addr \<Rightarrow> int list cres option" where
  "bst_inorder h root =
     (if root = NULL then Some (Inr [])
      else case deref h root of Inl e \<Rightarrow> Some (Inl e) | Inr n \<Rightarrow>
        (case use_ptr (left n) of Inl e \<Rightarrow> Some (Inl e) | Inr l \<Rightarrow>
         Option.bind (bst_inorder h l) (\<lambda>x.
         (case x of Inl e \<Rightarrow> Some (Inl e) | Inr xs \<Rightarrow>
         (case use_ptr (right n) of Inl e \<Rightarrow> Some (Inl e) | Inr r \<Rightarrow>
         Option.bind (bst_inorder h r) (\<lambda>y. Some (bindE y (\<lambda>ys. Inr (xs @ [tdata n] @ ys)))))))))"

partial_function (option) bst_postorder :: "tree_heap \<Rightarrow> addr \<Rightarrow> int list cres option" where
  "bst_postorder h root =
     (if root = NULL then Some (Inr [])
      else case deref h root of Inl e \<Rightarrow> Some (Inl e) | Inr n \<Rightarrow>
        (case use_ptr (left n) of Inl e \<Rightarrow> Some (Inl e) | Inr l \<Rightarrow>
         Option.bind (bst_postorder h l) (\<lambda>x.
         (case x of Inl e \<Rightarrow> Some (Inl e) | Inr xs \<Rightarrow>
         (case use_ptr (right n) of Inl e \<Rightarrow> Some (Inl e) | Inr r \<Rightarrow>
         Option.bind (bst_postorder h r) (\<lambda>y. Some (bindE y (\<lambda>ys. Inr (xs @ ys @ [tdata n])))))))))"

partial_function (option) bst_preorder :: "tree_heap \<Rightarrow> addr \<Rightarrow> int list cres option" where
  "bst_preorder h root =
     (if root = NULL then Some (Inr [])
      else case deref h root of Inl e \<Rightarrow> Some (Inl e) | Inr n \<Rightarrow>
        (case use_ptr (left n) of Inl e \<Rightarrow> Some (Inl e) | Inr l \<Rightarrow>
         Option.bind (bst_preorder h l) (\<lambda>x.
         (case x of Inl e \<Rightarrow> Some (Inl e) | Inr xs \<Rightarrow>
         (case use_ptr (right n) of Inl e \<Rightarrow> Some (Inl e) | Inr r \<Rightarrow>
         Option.bind (bst_preorder h r) (\<lambda>y. Some (bindE y (\<lambda>ys. Inr ([tdata n] @ xs @ ys)))))))))"

text \<open>\<open>insert\<close> works on the link \<open>root\<close> points to, whose content may be indeterminate; the
  result holds the new content of the link.  A node is allocated in every call.\<close>

partial_function (option) bst_insert ::
    "tnode allocator \<Rightarrow> tree_heap \<Rightarrow> addr option \<Rightarrow> int \<Rightarrow> (tree_heap \<times> addr) cres option" where
  "bst_insert alloc h link v =
     (case new_leaf alloc h v of Inl e \<Rightarrow> Some (Inl e) | Inr (h, newNode) \<Rightarrow>
      (case use_ptr link of Inl e \<Rightarrow> Some (Inl e) | Inr root \<Rightarrow>
       if root = NULL then Some (Inr (h, newNode)) else
       (case deref h root of Inl e \<Rightarrow> Some (Inl e) | Inr n \<Rightarrow>
        if tdata n < v then
          Option.bind (bst_insert alloc h (right n) v) (\<lambda>r.
            Some (bindE r (\<lambda>(h, p). bindE (set_right h root p) (\<lambda>h. Inr (h, root)))))
        else if v < tdata n then
          Option.bind (bst_insert alloc h (left n) v) (\<lambda>r.
            Some (bindE r (\<lambda>(h, p). bindE (set_left h root p) (\<lambda>h. Inr (h, root)))))
        else Some (Inr (h, newNode)))))"

fun bst_insert_all ::
    "tnode allocator \<Rightarrow> tree_heap \<Rightarrow> addr \<Rightarrow> int list \<Rightarrow> (tree_heap \<times> addr) cres option" where
  "bst_insert_all alloc h root [] = Some (Inr (h, root))"
| "bst_insert_all alloc h root (v # vs) =
     bindO (bst_insert alloc h (Some root) v) (\<lambda>(h, root). bst_insert_all alloc h root vs)"

definition bst_main ::
    "tnode allocator \<Rightarrow> (int list \<times> int list \<times> int list \<times> int list) cres option" where
  "bst_main alloc =
     (let root = alloc Map.empty in
      if root = NULL then Some (Inl NullDeref) else
      bindO (bst_insert_all alloc [root \<mapsto> \<lparr> tdata = 15, left = None, right = None \<rparr>] root [2, 10, 22, 32, 1, 17])
        (\<lambda>(h, root).
      bindO (bst_preorder h root) (\<lambda>pre.
      bindO (bst_postorder h root) (\<lambda>post.
      bindO (bst_inorder h root) (\<lambda>ino.
      bindO (Some (bst_levelorder h root)) (\<lambda>lev.
      Some (Inr (pre, post, ino, lev))))))))"

section \<open>Correctness of \<open>bst.c\<close>\<close>

lemma bst_inorder_tree: "tree_at h p t \<Longrightarrow> bst_inorder h p = Some (Inr (inorder (vt h t)))"
  by (induction t arbitrary: p) (auto simp: bst_inorder.simps [of h])

lemma bst_postorder_tree: "tree_at h p t \<Longrightarrow> bst_postorder h p = Some (Inr (postorder (vt h t)))"
  by (induction t arbitrary: p) (auto simp: bst_postorder.simps [of h])

lemma bst_preorder_tree: "tree_at h p t \<Longrightarrow> bst_preorder h p = Some (Inr (preorder (vt h t)))"
  by (induction t arbitrary: p) (auto simp: bst_preorder.simps [of h])

fun bst_c_ins :: "int \<Rightarrow> int tree \<Rightarrow> int tree" where
  "bst_c_ins x \<langle>\<rangle> = \<langle>\<langle>\<rangle>, x, \<langle>\<rangle>\<rangle>"
| "bst_c_ins x \<langle>l, a, r\<rangle> =
     (if a < x then \<langle>l, a, bst_c_ins x r\<rangle> else if x < a then \<langle>bst_c_ins x l, a, r\<rangle>
      else \<langle>\<langle>\<rangle>, x, \<langle>\<rangle>\<rangle>)"

text \<open>The values below the first occurrence of \<open>x\<close>.\<close>

fun under :: "int \<Rightarrow> int tree \<Rightarrow> int set" where
  "under x \<langle>\<rangle> = {}"
| "under x \<langle>l, a, r\<rangle> =
     (if a < x then under x r else if x < a then under x l else set_tree l \<union> set_tree r)"

lemma under_subset: "under x t \<subseteq> set_tree t"
  by (induction t) auto

lemma set_bst_c_ins: "bst t \<Longrightarrow> set_tree (bst_c_ins x t) = insert x (set_tree t - under x t)"
proof (induction t)
  case (Node l a r)
  then show ?case using under_subset [of x l] under_subset [of x r] by (force split: if_splits)
qed simp

lemma bst_bst_c_ins: "bst t \<Longrightarrow> bst (bst_c_ins x t)"
  by (induction t) (auto simp: set_bst_c_ins)

text \<open>The result of an insertion: a tree with nodes of the old one and new ones; every other
  block is kept, the blocks that are no longer reachable too.\<close>

definition replaced :: "tree_heap \<Rightarrow> addr tree \<Rightarrow> tree_heap \<Rightarrow> addr \<Rightarrow> addr tree \<Rightarrow> bool" where
  "replaced h t h' p' t' \<longleftrightarrow>
     tree_at h' p' t' \<and> distinct (inorder t') \<and> set_tree t' \<subseteq> set_tree t \<union> - dom h
     \<and> (\<forall>a \<in> dom h - set_tree t. h' a = h a)"

lemma replaced_fresh:
  assumes "new \<notin> dom h" and "replaced (h(new \<mapsto> x)) t h' p' t'" and "set_tree t \<subseteq> dom h"
  shows "replaced h t h' p' t'"
proof -
  have "h' a = h a" if "a \<in> dom h - set_tree t" for a
    using that assms(1, 2) by (auto simp: replaced_def domIff)
  then show ?thesis using assms(2) by (auto simp: replaced_def)
qed

lemma replaced_left:
  assumes "replaced h l h' lp' l'" and "distinct (inorder \<langle>l, a, r\<rangle>)" and "a \<noteq> NULL"
    and "h a = Some \<lparr> tdata = d, left = lp, right = Some rp \<rparr>" and "tree_at h rp r"
  shows "\<exists>g. set_left h' a lp' = Inr g \<and> replaced h \<langle>l, a, r\<rangle> g a \<langle>l', a, r\<rangle>
    \<and> vt g \<langle>l', a, r\<rangle> = \<langle>vt h' l', d, vt h r\<rangle>"
proof -
  have inr: "b \<in> dom h - set_tree l" if "b \<in> set_tree r" for b
    using that assms(2) tree_at_alloc [OF assms(5)] by auto
  have r: "h' b = h b" if "b \<in> set_tree r" for b using inr [OF that] assms(1) by (simp add: replaced_def)
  have a: "a \<in> dom h - set_tree l" using assms(2, 4) by auto
  then have l': "a \<notin> set_tree l'" "set_tree l' \<inter> set_tree r = {}" "h' a = h a"
    using assms(1) inr by (auto simp: replaced_def)
  let ?g = "h'(a \<mapsto> \<lparr> tdata = d, left = Some lp', right = Some rp \<rparr>)"
  have "tree_at h' rp r" "vt h' r = vt h r"
    using tree_at_cong [of r h' h rp] vt_cong [of r h' h] r assms(5) by simp_all
  then have "replaced h \<langle>l, a, r\<rangle> ?g a \<langle>l', a, r\<rangle> \<and> vt ?g \<langle>l', a, r\<rangle> = \<langle>vt h' l', d, vt h r\<rangle>"
    using assms l' by (auto simp: replaced_def)
  then show ?thesis using assms(3, 4) l'(3) by (intro exI [of _ ?g]) (simp add: set_left_def)
qed

lemma replaced_right:
  assumes "replaced h r h' rp' r'" and "distinct (inorder \<langle>l, a, r\<rangle>)" and "a \<noteq> NULL"
    and "h a = Some \<lparr> tdata = d, left = Some lp, right = rp \<rparr>" and "tree_at h lp l"
  shows "\<exists>g. set_right h' a rp' = Inr g \<and> replaced h \<langle>l, a, r\<rangle> g a \<langle>l, a, r'\<rangle>
    \<and> vt g \<langle>l, a, r'\<rangle> = \<langle>vt h l, d, vt h' r'\<rangle>"
proof -
  have inl: "b \<in> dom h - set_tree r" if "b \<in> set_tree l" for b
    using that assms(2) tree_at_alloc [OF assms(5)] by auto
  have l: "h' b = h b" if "b \<in> set_tree l" for b using inl [OF that] assms(1) by (simp add: replaced_def)
  have a: "a \<in> dom h - set_tree r" using assms(2, 4) by auto
  then have r': "a \<notin> set_tree r'" "set_tree r' \<inter> set_tree l = {}" "h' a = h a"
    using assms(1) inl by (auto simp: replaced_def)
  let ?g = "h'(a \<mapsto> \<lparr> tdata = d, left = Some lp, right = Some rp' \<rparr>)"
  have "tree_at h' lp l" "vt h' l = vt h l"
    using tree_at_cong [of l h' h lp] vt_cong [of l h' h] l assms(5) by simp_all
  then have "replaced h \<langle>l, a, r\<rangle> ?g a \<langle>l, a, r'\<rangle> \<and> vt ?g \<langle>l, a, r'\<rangle> = \<langle>vt h l, d, vt h' r'\<rangle>"
    using assms r' by (auto simp: replaced_def)
  then show ?thesis using assms(3, 4) r'(3) by (intro exI [of _ ?g]) (simp add: set_right_def)
qed

lemma new_leaf_ok:
  assumes "fresh_alloc alloc" and "roomy alloc k" and "finite (dom h)" and "card (dom h) < k"
  obtains new where "new_leaf alloc h v
      = Inr (h(new \<mapsto> \<lparr> tdata = v, left = Some NULL, right = Some NULL \<rparr>), new)"
    and "new \<noteq> NULL" and "new \<notin> dom h"
  using assms fresh_allocD [OF assms(1), of h] that
  by (simp add: new_leaf_def getNewNode_def roomy_def Let_def domIff)

lemma replaced_by_leaf:
  assumes "new \<noteq> NULL" and "new \<notin> dom h"
  shows "replaced h t (h(new \<mapsto> \<lparr> tdata = v, left = Some NULL, right = Some NULL \<rparr>)) new \<langle>\<langle>\<rangle>, new, \<langle>\<rangle>\<rangle>"
  using assms by (auto simp: replaced_def)

lemma bst_insert_node:
  assumes "new_leaf alloc h v = Inr (g, new)" and "a \<noteq> NULL"
    and "g a = Some \<lparr> tdata = d, left = lp, right = rp \<rparr>"
  shows "bst_insert alloc h (Some a) v =
     (if d < v then Option.bind (bst_insert alloc g rp v) (\<lambda>x.
        Some (bindE x (\<lambda>(h, q). bindE (set_right h a q) (\<lambda>h. Inr (h, a)))))
      else if v < d then Option.bind (bst_insert alloc g lp v) (\<lambda>x.
        Some (bindE x (\<lambda>(h, q). bindE (set_left h a q) (\<lambda>h. Inr (h, a)))))
      else Some (Inr (g, new)))"
  using assms by (simp add: bst_insert.simps [of alloc h])

lemma bst_insert_replaces:
  assumes "fresh_alloc alloc" and "roomy alloc k" and "tree_at h p t" and "distinct (inorder t)"
    and "finite (dom h)" and "card (dom h) + height t < k"
  shows "\<exists>h' p' t'. bst_insert alloc h (Some p) v = Some (Inr (h', p')) \<and> replaced h t h' p' t'
    \<and> vt h' t' = bst_c_ins v (vt h t)"
  using assms(3-)
proof (induction t arbitrary: h p)
  case Leaf
  obtain new where new: "new_leaf alloc h v
      = Inr (h(new \<mapsto> \<lparr> tdata = v, left = Some NULL, right = Some NULL \<rparr>), new)" "new \<noteq> NULL" "new \<notin> dom h"
    using new_leaf_ok [OF assms(1, 2) Leaf(3)] Leaf(4) by auto
  then have "bst_insert alloc h (Some p) v
      = Some (Inr (h(new \<mapsto> \<lparr> tdata = v, left = Some NULL, right = Some NULL \<rparr>), new))"
    using Leaf(1) by (simp add: bst_insert.simps [of alloc h])
  moreover note replaced_by_leaf [OF new(2, 3), of "\<langle>\<rangle>" v]
  ultimately show ?case by (intro exI conjI) (assumption, assumption, simp)
next
  case (Node l a r)
  have "card (dom h) < k" using Node.prems(4) by simp
  then obtain new where new: "new_leaf alloc h v
      = Inr (h(new \<mapsto> \<lparr> tdata = v, left = Some NULL, right = Some NULL \<rparr>), new)" "new \<noteq> NULL" "new \<notin> dom h"
    using new_leaf_ok [OF assms(1, 2) Node.prems(3)] by metis
  define g where "g = h(new \<mapsto> \<lparr> tdata = v, left = Some NULL, right = Some NULL \<rparr>)"
  have sub: "set_tree \<langle>l, a, r\<rangle> \<subseteq> dom h" using tree_at_alloc [OF Node.prems(1)] by blast
  with new(3) have notin: "new \<notin> set_tree \<langle>l, a, r\<rangle>" by (meson subsetD)
  obtain d lp rp where n: "p = a" "a \<noteq> NULL" "g a = Some \<lparr> tdata = d, left = Some lp, right = Some rp \<rparr>"
    "tree_at g lp l" "tree_at g rp r" "val_at h a = d" "vt g l = vt h l" "vt g r = vt h r"
    using Node.prems(1) notin by (auto simp: g_def)
  have fin: "finite (dom g)" "card (dom g) = Suc (card (dom h))"
    using Node.prems(3) new(3) by (simp_all add: g_def)
  have dist: "distinct (inorder l)" "distinct (inorder r)" using Node.prems(2) by simp_all
  have room: "card (dom g) + height l < k" "card (dom g) + height r < k"
    using fin(2) Node.prems(4) by (simp_all add: max_def split: if_splits)
  note unfold = bst_insert_node [OF new(1) [folded g_def] n(2, 3), folded n(1)]
  have fresh: "replaced h \<langle>l, a, r\<rangle> h' p' t'" if "replaced g \<langle>l, a, r\<rangle> h' p' t'" for h' p' t'
    using replaced_fresh [OF new(3) that [unfolded g_def] sub] .
  consider (right) "d < v" | (left) "v < d" | (eq) "v = d" by linarith
  then show ?case
  proof cases
    case right
    obtain h' q r' where h': "bst_insert alloc g (Some rp) v = Some (Inr (h', q))" "replaced g r h' q r'"
      "vt h' r' = bst_c_ins v (vt g r)"
      using Node.IH(2) [OF n(5) dist(2) fin(1) room(2)] by blast
    obtain g' where g': "set_right h' a q = Inr g'" "replaced g \<langle>l, a, r\<rangle> g' a \<langle>l, a, r'\<rangle>"
      "vt g' \<langle>l, a, r'\<rangle> = \<langle>vt g l, d, vt h' r'\<rangle>"
      using replaced_right [OF h'(2) Node.prems(2) n(2, 3, 4)] by blast
    have "bst_insert alloc h (Some p) v = Some (Inr (g', a))" using right unfold h'(1) g'(1) n(1) by simp
    then show ?thesis using fresh [OF g'(2)] g'(3) h'(3) n(6-8) right by (intro exI conjI) auto
  next
    case left
    obtain h' q l' where h': "bst_insert alloc g (Some lp) v = Some (Inr (h', q))" "replaced g l h' q l'"
      "vt h' l' = bst_c_ins v (vt g l)"
      using Node.IH(1) [OF n(4) dist(1) fin(1) room(1)] by blast
    obtain g' where g': "set_left h' a q = Inr g'" "replaced g \<langle>l, a, r\<rangle> g' a \<langle>l', a, r\<rangle>"
      "vt g' \<langle>l', a, r\<rangle> = \<langle>vt h' l', d, vt g r\<rangle>"
      using replaced_left [OF h'(2) Node.prems(2) n(2, 3, 5)] by blast
    have "bst_insert alloc h (Some p) v = Some (Inr (g', a))" using left unfold h'(1) g'(1) n(1) by simp
    then show ?thesis using fresh [OF g'(2)] g'(3) h'(3) n(6-8) left by (intro exI conjI) auto
  next
    case eq
    then have "bst_insert alloc h (Some p) v = Some (Inr (g, new))" using unfold by simp
    moreover note replaced_by_leaf [OF new(2, 3), of "\<langle>l, a, r\<rangle>" v, folded g_def]
    ultimately show ?thesis using eq n(6) by (intro exI conjI) (assumption, assumption, simp add: g_def)
  qed
qed

section \<open>Properties\<close>

definition demo_tree :: tree_heap where
  "demo_tree = [1 \<mapsto> \<lparr> tdata = 8, left = Some 2, right = Some 3 \<rparr>,
     2 \<mapsto> \<lparr> tdata = 4, left = Some 0, right = Some 0 \<rparr>,
     3 \<mapsto> \<lparr> tdata = 10, left = Some 0, right = Some 0 \<rparr>]"

lemma demo_tree_at: "tree_at demo_tree 1 \<langle>\<langle>\<langle>\<rangle>, 2, \<langle>\<rangle>\<rangle>, 1, \<langle>\<langle>\<rangle>, 3, \<langle>\<rangle>\<rangle>\<rangle>"
  by (simp add: demo_tree_def)

lemma dom_demo_tree: "dom demo_tree = {1, 2, 3}"
  by (auto simp: demo_tree_def)

text \<open>C22. \<open>Insert\<close> of \<open>bst_insert_search.c\<close>, on a tree whose nodes are distinct and while
  \<open>malloc\<close> succeeds: it returns, the result is a tree with exactly one more value, which is a
  search tree (its values in order are sorted) if it was one before, and no other block changes.\<close>

theorem Insert_keeps_search_tree:
  assumes "fresh_alloc alloc" and "alloc h \<noteq> NULL" and "tree_at h p t" and "distinct (inorder t)"
  shows "\<exists>h' p' t'. Insert alloc h p x = Some (Inr (h', p')) \<and> tree_at h' p' t' \<and> distinct (inorder t')
    \<and> mset (inorder (vt h' t')) = add_mset x (mset (inorder (vt h t)))
    \<and> (sorted (inorder (vt h t)) \<longrightarrow> sorted (inorder (vt h' t')))
    \<and> (\<forall>a. a \<notin> set_tree t' \<longrightarrow> h' a = h a)"
proof -
  obtain h' p' t' where "Insert alloc h p x = Some (Inr (h', p'))" "grown h t (alloc h) h' p' t'"
    "vt h' t' = bst_ins x (vt h t)" using Insert_grows [OF assms] by blast
  then show ?thesis
    by (intro exI [of _ h'] exI [of _ p'] exI [of _ t']) (simp add: grown_def mset_bst_ins sorted_bst_ins)
qed

theorem Insert_keeps_search_tree_witness:
  "\<exists>h' p' t'. Insert first_fit demo_tree 1 9 = Some (Inr (h', p')) \<and> tree_at h' p' t' \<and> distinct (inorder t')
    \<and> mset (inorder (vt h' t'))
        = add_mset 9 (mset (inorder (vt demo_tree \<langle>\<langle>\<langle>\<rangle>, 2, \<langle>\<rangle>\<rangle>, 1, \<langle>\<langle>\<rangle>, 3, \<langle>\<rangle>\<rangle>\<rangle>)))
    \<and> (sorted (inorder (vt demo_tree \<langle>\<langle>\<langle>\<rangle>, 2, \<langle>\<rangle>\<rangle>, 1, \<langle>\<langle>\<rangle>, 3, \<langle>\<rangle>\<rangle>\<rangle>)) \<longrightarrow> sorted (inorder (vt h' t')))
    \<and> (\<forall>a. a \<notin> set_tree t' \<longrightarrow> h' a = demo_tree a)"
proof (rule Insert_keeps_search_tree [OF fresh_first_fit _ demo_tree_at])
  show "first_fit demo_tree \<noteq> NULL"
    using roomy_first_fit [where ?'a = tnode] by (simp add: roomy_def dom_demo_tree)
qed simp

text \<open>C23. \<open>level_order\<close> prints the values level by level, from the root down and each level from
  left to right, for every tree of at most 101 nodes.\<close>

theorem level_order_prints_levels:
  assumes "tree_at h p t" and "size t \<le> 101"
  shows "\<exists>Q. level_order h empty100 p = Some (Inr (Q, level_order_of (vt h t)))"
  using assms by (rule level_order_levels)

theorem level_order_prints_levels_witness:
  "\<exists>Q. level_order demo_tree empty100 1
    = Some (Inr (Q, level_order_of (vt demo_tree \<langle>\<langle>\<langle>\<rangle>, 2, \<langle>\<rangle>\<rangle>, 1, \<langle>\<langle>\<rangle>, 3, \<langle>\<rangle>\<rangle>\<rangle>)))"
  by (rule level_order_prints_levels [OF demo_tree_at]) simp

text \<open>C24. \<open>insert\<close> of \<open>bst.c\<close> on a search tree: a search tree again, but when the value is
  already there, the values below it are lost.\<close>

theorem bst_insert_cuts_subtree:
  assumes "fresh_alloc alloc" and "roomy alloc k" and "tree_at h p t" and "distinct (inorder t)"
    and "finite (dom h)" and "card (dom h) + height t < k" and "bst (vt h t)"
  shows "\<exists>h' p' t'. bst_insert alloc h (Some p) v = Some (Inr (h', p')) \<and> tree_at h' p' t'
    \<and> bst (vt h' t') \<and> set_tree (vt h' t') = insert v (set_tree (vt h t) - under v (vt h t))"
proof -
  obtain h' p' t' where "bst_insert alloc h (Some p) v = Some (Inr (h', p'))" "replaced h t h' p' t'"
    "vt h' t' = bst_c_ins v (vt h t)" using bst_insert_replaces [OF assms(1-6)] by blast
  then show ?thesis
    using assms(7) by (intro exI [of _ h'] exI [of _ p'] exI [of _ t'])
      (simp add: replaced_def set_bst_c_ins bst_bst_c_ins)
qed

theorem bst_insert_cuts_subtree_witness:
  "\<exists>h' p' t'. bst_insert first_fit demo_tree (Some 1) 8 = Some (Inr (h', p')) \<and> tree_at h' p' t'
    \<and> bst (vt h' t') \<and> set_tree (vt h' t')
      = insert 8 (set_tree (vt demo_tree \<langle>\<langle>\<langle>\<rangle>, 2, \<langle>\<rangle>\<rangle>, 1, \<langle>\<langle>\<rangle>, 3, \<langle>\<rangle>\<rangle>\<rangle>)
          - under 8 (vt demo_tree \<langle>\<langle>\<langle>\<rangle>, 2, \<langle>\<rangle>\<rangle>, 1, \<langle>\<langle>\<rangle>, 3, \<langle>\<rangle>\<rangle>\<rangle>))"
  by (rule bst_insert_cuts_subtree [OF fresh_first_fit roomy_first_fit demo_tree_at])
    (simp_all add: dom_demo_tree, simp add: demo_tree_def)

text \<open>The recursive traversals of \<open>bst.c\<close> print the in-order, pre-order and post-order
  sequences of the values; in order, a search tree comes out strictly sorted.\<close>

theorem bst_traversals:
  assumes "tree_at h p t"
  shows "bst_inorder h p = Some (Inr (inorder (vt h t)))
    \<and> bst_preorder h p = Some (Inr (preorder (vt h t)))
    \<and> bst_postorder h p = Some (Inr (postorder (vt h t)))
    \<and> (bst (vt h t) \<longrightarrow> sorted_wrt (<) (inorder (vt h t)))"
  using assms bst_inorder_tree bst_preorder_tree bst_postorder_tree by (simp add: bst_iff_sorted_wrt_less)

theorem bst_traversals_witness:
  "let t = \<langle>\<langle>\<langle>\<rangle>, 2, \<langle>\<rangle>\<rangle>, 1, \<langle>\<langle>\<rangle>, 3, \<langle>\<rangle>\<rangle>\<rangle> in bst_inorder demo_tree 1 = Some (Inr (inorder (vt demo_tree t)))
    \<and> bst_preorder demo_tree 1 = Some (Inr (preorder (vt demo_tree t)))
    \<and> bst_postorder demo_tree 1 = Some (Inr (postorder (vt demo_tree t)))
    \<and> (bst (vt demo_tree t) \<longrightarrow> sorted_wrt (<) (inorder (vt demo_tree t)))"
  unfolding Let_def by (rule bst_traversals [OF demo_tree_at])

text \<open>\<open>main\<close> of \<open>bst.c\<close> creates the root without setting its children, so the first
  insertion reads an indeterminate pointer.\<close>

theorem bst_main_reads_uninit:
  assumes "fresh_alloc alloc" and "roomy alloc 3"
  shows "bst_main alloc = Some (Inl Uninit)"
proof -
  define root where "root = alloc Map.empty"
  define h where "h = [root \<mapsto> \<lparr> tdata = 15, left = None, right = None \<rparr>]"
  have root: "root \<noteq> NULL" using assms(2) by (simp add: root_def roomy_def)
  have "finite (dom h)" "card (dom h) < 3" by (simp_all add: h_def)
  then obtain a where a: "new_leaf alloc h 2
      = Inr (h(a \<mapsto> \<lparr> tdata = 2, left = Some NULL, right = Some NULL \<rparr>), a)" "a \<notin> dom h"
    using new_leaf_ok [OF assms] by metis
  define g where "g = h(a \<mapsto> \<lparr> tdata = 2, left = Some NULL, right = Some NULL \<rparr>)"
  have "dom g = insert a (dom h)" by (simp add: g_def)
  with a(2) have "finite (dom g)" "card (dom g) < 3" by (simp_all add: h_def)
  then obtain b where "new_leaf alloc g 2
      = Inr (g(b \<mapsto> \<lparr> tdata = 2, left = Some NULL, right = Some NULL \<rparr>), b)"
    using new_leaf_ok [OF assms] by metis
  then have "bst_insert alloc g None 2 = Some (Inl Uninit)" by (simp add: bst_insert.simps [of alloc g])
  moreover have "g root = Some \<lparr> tdata = 15, left = None, right = None \<rparr>"
    using a(2) by (auto simp: g_def h_def)
  ultimately have "bst_insert alloc h (Some root) 2 = Some (Inl Uninit)"
    using bst_insert_node [OF a(1) [folded g_def] root] by simp
  then show ?thesis using root by (simp add: bst_main_def root_def h_def Let_def)
qed

theorem bst_main_reads_uninit_witness: "bst_main first_fit = Some (Inl Uninit)"
  by (rule bst_main_reads_uninit [OF fresh_first_fit roomy_mono [OF roomy_first_fit]]) simp

end
