(* ===== verification/Tree_Programs.thy ===== *)
theory Tree_Programs
  imports Tree_Heap
begin

text \<open>
  Two interview programs on binary trees.  \<open>Interview_Questions/MS/bst_mirror.c\<close>: level order
  with a queue of ten slots that is never checked, and the mirror image of a tree in place.
  \<open>Interview_Questions/PS/PS_4.c\<close>: the path from the root to a leaf with the largest sum, and
  level order with a circular queue.
\<close>

section \<open>\<open>bst_mirror.c\<close>\<close>

definition MAX_Q_LEN :: nat where "MAX_Q_LEN = 10"

record queue10 =
  front :: nat
  rear :: nat
  slots :: "addr list"

definition enqueue10 :: "queue10 \<Rightarrow> addr \<Rightarrow> queue10 cres" where
  "enqueue10 Q root = bindE (wr (slots Q) (rear Q) root) (\<lambda>s. Inr (Q\<lparr>slots := s, rear := rear Q + 1\<rparr>))"

definition dequeue10 :: "queue10 \<Rightarrow> (queue10 \<times> addr) cres" where
  "dequeue10 Q =
     (let Q = Q\<lparr>front := front Q + 1\<rparr> in bindE (rd (slots Q) (front Q - 1)) (\<lambda>p. Inr (Q, p)))"

definition newNode :: "tnode allocator \<Rightarrow> tree_heap \<Rightarrow> int \<Rightarrow> (tree_heap \<times> addr) cres" where
  "newNode alloc h d =
     (let temp = alloc h in
      if temp = NULL then Inl NullDeref
      else Inr (h(temp \<mapsto> \<lparr> tdata = d, left = Some NULL, right = Some NULL \<rparr>), temp))"

definition levelOrderTraversal :: "tree_heap \<Rightarrow> queue10 \<Rightarrow> addr \<Rightarrow> (queue10 \<times> int list) cres option" where
  "levelOrderTraversal h Q root =
     (if root = NULL then Some (Inr (Q, [])) else visit_loop enqueue10 dequeue10 h Q root)"

definition swap_children :: "tree_heap \<Rightarrow> addr \<Rightarrow> tree_heap cres" where
  "swap_children h root =
     bindE (deref h root) (\<lambda>n.
     bindE (use_ptr (left n)) (\<lambda>temp.
     bindE (use_ptr (right n)) (\<lambda>r.
     bindE (set_left h root r) (\<lambda>h.
     set_right h root temp))))"

partial_function (option) mirror_tree :: "tree_heap \<Rightarrow> addr \<Rightarrow> tree_heap cres option" where
  "mirror_tree h root =
     (if root = NULL then Some (Inr h)
      else case deref h root of Inl e \<Rightarrow> Some (Inl e) | Inr n \<Rightarrow>
        (case use_ptr (left n) of Inl e \<Rightarrow> Some (Inl e) | Inr l \<Rightarrow>
         Option.bind (mirror_tree h l) (\<lambda>x.
         (case x of Inl e \<Rightarrow> Some (Inl e) | Inr h \<Rightarrow>
         (case bindE (deref h root) (\<lambda>n. use_ptr (right n)) of Inl e \<Rightarrow> Some (Inl e) | Inr r \<Rightarrow>
         Option.bind (mirror_tree h r) (\<lambda>y.
         Some (bindE y (\<lambda>h. swap_children h root))))))))"

definition empty10 :: queue10 where
  "empty10 = \<lparr> front = 0, rear = 0, slots = replicate MAX_Q_LEN NULL \<rparr>"

text \<open>\<open>p->left->...\<close> in the construction of the tree.\<close>

definition get_left :: "tree_heap \<Rightarrow> addr \<Rightarrow> addr cres" where
  "get_left h p = bindE (deref h p) (\<lambda>n. use_ptr (left n))"

definition get_right :: "tree_heap \<Rightarrow> addr \<Rightarrow> addr cres" where
  "get_right h p = bindE (deref h p) (\<lambda>n. use_ptr (right n))"

definition add_left :: "tnode allocator \<Rightarrow> tree_heap \<Rightarrow> addr \<Rightarrow> int \<Rightarrow> tree_heap cres" where
  "add_left alloc h p d = bindE (newNode alloc h d) (\<lambda>(h, q). set_left h p q)"

definition add_right :: "tnode allocator \<Rightarrow> tree_heap \<Rightarrow> addr \<Rightarrow> int \<Rightarrow> tree_heap cres" where
  "add_right alloc h p d = bindE (newNode alloc h d) (\<lambda>(h, q). set_right h p q)"

definition mirror_build :: "tnode allocator \<Rightarrow> (tree_heap \<times> addr) cres" where
  "mirror_build alloc =
     bindE (newNode alloc Map.empty 10) (\<lambda>(h, root).
     bindE (add_left alloc h root 5) (\<lambda>h.
     bindE (add_right alloc h root 12) (\<lambda>h.
     bindE (get_left h root) (\<lambda>l.
     bindE (add_left alloc h l 3) (\<lambda>h.
     bindE (add_right alloc h l 7) (\<lambda>h.
     Inr (h, root)))))))"

text \<open>What \<open>main\<close> does with a tree: traverse, mirror, reset the queue, traverse.\<close>

definition show_mirror :: "tree_heap \<Rightarrow> addr \<Rightarrow> (tree_heap \<times> int list \<times> int list) cres option" where
  "show_mirror h root =
     bindO (levelOrderTraversal h empty10 root) (\<lambda>(Q, out1).
     bindO (mirror_tree h root) (\<lambda>h.
     bindO (levelOrderTraversal h \<lparr> front = 0, rear = 0, slots = replicate MAX_Q_LEN NULL \<rparr> root) (\<lambda>(Q, out2).
     Some (Inr (h, out1, out2)))))"

definition mirror_main :: "tnode allocator \<Rightarrow> (int list \<times> int list) cres option" where
  "mirror_main alloc =
     bindO (Some (mirror_build alloc)) (\<lambda>(h, root).
     bindO (show_mirror h root) (\<lambda>(h, out1, out2). Some (Inr (out1, out2))))"

section \<open>The queue of ten slots\<close>

text \<open>The end of the content is recognised by a slot that is still \<open>NULL\<close>, so one slot must
  stay free.\<close>

definition wf10 :: "queue10 \<Rightarrow> bool" where
  "wf10 Q \<longleftrightarrow> length (slots Q) = 10 \<and> front Q \<le> rear Q \<and> rear Q \<le> 9
     \<and> list_all (\<lambda>i. slots Q ! i = NULL) [rear Q..<10]"

definition content10 :: "queue10 \<Rightarrow> addr list" where
  "content10 Q = drop (front Q) (take (rear Q) (slots Q))"

definition room10 :: "queue10 \<Rightarrow> nat" where
  "room10 Q = 9 - rear Q"

interpretation q10: node_queue enqueue10 dequeue10 wf10 content10 room10
proof
  fix Q p
  assume "wf10 Q" "0 < room10 Q"
  then show "\<exists>Q'. enqueue10 Q p = Inr Q' \<and> wf10 Q' \<and> content10 Q' = content10 Q @ [p]
      \<and> room10 Q \<le> Suc (room10 Q')"
    by (auto simp: enqueue10_def wf10_def room10_def content10_def c_array take_Suc_conv_app_nth list_all_iff)
next
  fix Q p ps
  assume Q: "wf10 Q" "content10 Q = p # ps"
  then have "0 < length (content10 Q)" by simp
  then have "front Q < length (take (rear Q) (slots Q))" by (simp add: content10_def)
  with Q have "p = slots Q ! front Q" "ps = drop (Suc (front Q)) (take (rear Q) (slots Q))" "front Q < rear Q"
    using Cons_nth_drop_Suc [of "front Q" "take (rear Q) (slots Q)"] by (auto simp: content10_def)
  with Q(1) show "\<exists>Q'. dequeue10 Q = Inr (Q', p) \<and> wf10 Q' \<and> content10 Q' = ps \<and> room10 Q \<le> room10 Q'"
    by (simp add: dequeue10_def wf10_def room10_def content10_def c_array)
next
  fix Q
  assume "wf10 Q" "content10 Q = []"
  then have "front Q = rear Q" "slots Q ! rear Q = NULL" "rear Q < 10" "length (slots Q) = 10"
    by (auto simp: wf10_def content10_def list_all_iff)
  then show "\<exists>Q'. dequeue10 Q = Inr (Q', NULL)" by (simp add: dequeue10_def c_array)
qed

lemma levelOrderTraversal_levels:
  assumes "tree_at h p t" and "size t \<le> 10"
  shows "\<exists>Q. levelOrderTraversal h empty10 p = Some (Inr (Q, level_order_of (vt h t)))"
proof (cases "t = \<langle>\<rangle>")
  case True
  then show ?thesis using assms(1) by (simp add: levelOrderTraversal_def level_order_of_def)
next
  case False
  then have "p \<noteq> NULL" using assms(1) by (metis tree_at_NULL)
  moreover have "wf10 empty10" "content10 empty10 = []" "room10 empty10 = 9"
    by (simp_all add: wf10_def content10_def room10_def empty10_def MAX_Q_LEN_def list_all_iff)
  ultimately obtain Q where "levelOrderTraversal h empty10 p = Some (Inr (Q, map (val_at h) (bfs [t])))"
    using q10.visit_loop_bfs [of empty10 h "[]" p t] False assms by (auto simp: levelOrderTraversal_def)
  then show ?thesis by (simp add: bfs_level_order level_order_vt)
qed

section \<open>Mirroring\<close>

lemma set_tree_mirror [simp]: "set_tree (mirror t) = set_tree t"
  by (induction t) auto

lemma mirror_tree_at:
  assumes "tree_at h p t" and "distinct (inorder t)"
  shows "\<exists>h'. mirror_tree h p = Some (Inr h') \<and> tree_at h' p (mirror t)
    \<and> (\<forall>a. val_at h' a = val_at h a) \<and> (\<forall>a. a \<notin> set_tree t \<longrightarrow> h' a = h a)"
  using assms
proof (induction t arbitrary: h p)
  case Leaf
  then show ?case by (simp add: mirror_tree.simps [of h])
next
  case (Node l a r)
  obtain d lp rp where n: "p = a" "a \<noteq> NULL" "h a = Some \<lparr> tdata = d, left = Some lp, right = Some rp \<rparr>"
    "tree_at h lp l" "tree_at h rp r" using Node.prems(1) by (rule tree_at_NodeE)
  have d: "a \<notin> set_tree l" "a \<notin> set_tree r" "set_tree l \<inter> set_tree r = {}"
    "distinct (inorder l)" "distinct (inorder r)" using Node.prems(2) by auto
  obtain g where g: "mirror_tree h lp = Some (Inr g)" "tree_at g lp (mirror l)"
    "\<forall>a. val_at g a = val_at h a" "\<forall>a. a \<notin> set_tree l \<longrightarrow> g a = h a"
    using Node.IH(1) [OF n(4) d(4)] by blast
  have "tree_at g rp r" using tree_at_cong [of r g h rp] g(4) d(3) n(5) by blast
  from Node.IH(2) [OF this d(5)] obtain k where k: "mirror_tree g rp = Some (Inr k)"
    "tree_at k rp (mirror r)" "\<forall>a. val_at k a = val_at g a" "\<forall>a. a \<notin> set_tree r \<longrightarrow> k a = g a" by blast
  have ka: "k a = Some \<lparr> tdata = d, left = Some lp, right = Some rp \<rparr>" using n(3) g(4) k(4) d by simp
  define h' where "h' = k(a \<mapsto> \<lparr> tdata = d, left = Some rp, right = Some lp \<rparr>)"
  have "tree_at k lp (mirror l)"
    using tree_at_cong [of "mirror l" k g lp] k(4) d(3) g(2) by (auto simp: disjoint_iff)
  then have "tree_at h' a (mirror \<langle>l, a, r\<rangle>)" using n(2) k(2) d(1, 2) by (simp add: h'_def)
  moreover have "mirror_tree h p = Some (Inr h')"
    using n g k(1) ka d
    by (simp add: mirror_tree.simps [of h] swap_children_def set_left_def set_right_def h'_def)
  moreover have "val_at h' b = val_at h b" for b using g(3) k(3) ka n(3) by (cases "b = a") (simp_all add: h'_def val_at_def)
  moreover have "h' b = h b" if "b \<notin> set_tree \<langle>l, a, r\<rangle>" for b using that g(4) k(4) by (simp add: h'_def)
  ultimately show ?case using n(1) by blast
qed

lemma vt_mirror: "(\<And>a. val_at h' a = val_at h a) \<Longrightarrow> vt h' (mirror t) = mirror (vt h t)"
  by (induction t) simp_all

section \<open>\<open>PS_4.c\<close>: the queue\<close>

record myQueue =
  pq_data :: "addr option list"
  pq_front :: int
  pq_rear :: int
  pq_capacity :: int

text \<open>\<open>ok\<close>: whether \<open>malloc\<close> succeeds.\<close>

definition createQueue :: "bool \<Rightarrow> myQueue cres" where
  "createQueue ok =
     (if ok then Inr \<lparr> pq_data = replicate 10 None, pq_front = - 1, pq_rear = - 1, pq_capacity = 10 \<rparr>
      else Inl NullDeref)"

definition at_index :: "'a list \<Rightarrow> int \<Rightarrow> 'a cres" where
  "at_index a i = (if i < 0 then Inl OutOfBounds else rd a (nat i))"

definition enqueue :: "myQueue \<Rightarrow> addr \<Rightarrow> myQueue cres" where
  "enqueue Q root =
     (let Q = Q\<lparr>pq_rear := (pq_rear Q + 1) mod pq_capacity Q\<rparr> in
      bindE (wr (pq_data Q) (nat (pq_rear Q)) (Some root)) (\<lambda>d.
      let Q = Q\<lparr>pq_data := d\<rparr> in
      Inr (if pq_front Q = - 1 then Q\<lparr>pq_front := pq_rear Q\<rparr> else Q)))"

definition IsEmptyQueue :: "myQueue \<Rightarrow> bool" where
  "IsEmptyQueue Q \<longleftrightarrow> pq_front Q = - 1"

text \<open>\<open>(Q->front)+1 % Q->capacity\<close> is \<open>front + (1 % capacity)\<close>.\<close>

definition dequeue :: "myQueue \<Rightarrow> (myQueue \<times> addr) cres" where
  "dequeue Q =
     (if IsEmptyQueue Q then Inr (Q, NULL) else
      bindE (bindE (at_index (pq_data Q) (pq_front Q)) use_ptr) (\<lambda>temp.
      Inr (if pq_front Q = pq_rear Q then Q\<lparr>pq_front := - 1, pq_rear := - 1\<rparr>
           else Q\<lparr>pq_front := pq_front Q + 1 mod pq_capacity Q\<rparr>, temp)))"

definition ps4_levelorder :: "bool \<Rightarrow> tree_heap \<Rightarrow> addr \<Rightarrow> int list cres option" where
  "ps4_levelorder ok h root =
     bindO (Some (createQueue ok)) (\<lambda>Q.
     bindO (Some (enqueue Q root)) (\<lambda>Q.
     drain_loop enqueue dequeue IsEmptyQueue h Q))"

text \<open>The queue as long as it has not wrapped around: the slots from \<open>front\<close> to \<open>rear\<close> hold
  pointers.\<close>

definition content_pq :: "myQueue \<Rightarrow> addr list" where
  "content_pq Q = (if pq_front Q = - 1 then []
     else map (\<lambda>x. case x of Some p \<Rightarrow> p | None \<Rightarrow> 0)
       (drop (nat (pq_front Q)) (take (nat (pq_rear Q + 1)) (pq_data Q))))"

definition wf_pq :: "myQueue \<Rightarrow> bool" where
  "wf_pq Q \<longleftrightarrow> length (pq_data Q) = 10 \<and> pq_capacity Q = 10
     \<and> (pq_front Q = - 1 \<and> pq_rear Q = - 1
        \<or> 0 \<le> pq_front Q \<and> pq_front Q \<le> pq_rear Q \<and> pq_rear Q \<le> 9
          \<and> None \<notin> set (drop (nat (pq_front Q)) (take (nat (pq_rear Q + 1)) (pq_data Q))))"

definition room_pq :: "myQueue \<Rightarrow> nat" where
  "room_pq Q = nat (9 - pq_rear Q)"

lemma enqueue_pq:
  assumes "wf_pq Q" and "0 < room_pq Q"
  shows "\<exists>Q'. enqueue Q p = Inr Q' \<and> wf_pq Q' \<and> content_pq Q' = content_pq Q @ [p] \<and> room_pq Q \<le> Suc (room_pq Q')"
proof -
  define r where "r = nat (pq_rear Q + 1)"
  have r: "pq_rear Q = int r - 1" "r \<le> 9" "length (pq_data Q) = 10" "pq_capacity Q = 10"
    using assms by (auto simp: r_def wf_pq_def room_pq_def)
  have take: "take (Suc r) ((pq_data Q)[r := Some p]) = take r (pq_data Q) @ [Some p]"
    using r by (simp add: take_Suc_conv_app_nth)
  let ?Q = "Q\<lparr>pq_rear := int r, pq_data := (pq_data Q)[r := Some p],
     pq_front := if pq_front Q = - 1 then int r else pq_front Q\<rparr>"
  have "enqueue Q p = Inr ?Q" using r by (simp add: enqueue_def c_array)
  moreover have "wf_pq ?Q \<and> content_pq ?Q = content_pq Q @ [p] \<and> room_pq Q \<le> Suc (room_pq ?Q)"
    using assms r take by (auto simp: wf_pq_def content_pq_def room_pq_def nat_add_distrib)
  ultimately show ?thesis by blast
qed

lemma dequeue_pq:
  assumes "wf_pq Q" and "content_pq Q = p # ps"
  shows "\<exists>Q'. dequeue Q = Inr (Q', p) \<and> wf_pq Q' \<and> content_pq Q' = ps \<and> room_pq Q \<le> room_pq Q'"
proof -
  have "pq_front Q \<noteq> - 1" using assms(2) by (auto simp: content_pq_def)
  moreover define f r where "f = nat (pq_front Q)" and "r = nat (pq_rear Q)"
  ultimately have fr: "pq_front Q = int f" "pq_rear Q = int r" "f \<le> r" "r \<le> 9" "length (pq_data Q) = 10"
    "pq_capacity Q = 10" and set: "None \<notin> set (drop f (take (Suc r) (pq_data Q)))"
    using assms(1) by (auto simp: wf_pq_def nat_add_distrib)
  let ?s = "take (Suc r) (pq_data Q)"
  have "drop f ?s = ?s ! f # drop (Suc f) ?s" using fr by (intro Cons_nth_drop_Suc [symmetric]) simp
  moreover have "?s ! f = pq_data Q ! f" using fr(3) by simp
  ultimately have split: "drop f ?s = pq_data Q ! f # drop (Suc f) ?s" by simp
  have content: "content_pq Q = map (\<lambda>x. case x of Some p \<Rightarrow> p | None \<Rightarrow> 0) (drop f ?s)"
    using fr by (simp add: content_pq_def nat_add_distrib)
  have p: "pq_data Q ! f = Some p" "ps = map (\<lambda>x. case x of Some p \<Rightarrow> p | None \<Rightarrow> 0) (drop (Suc f) ?s)"
    using assms(2) set unfolding content split by (auto split: option.splits)
  let ?Q = "if f = r then Q\<lparr>pq_front := - 1, pq_rear := - 1\<rparr> else Q\<lparr>pq_front := int f + 1\<rparr>"
  have "dequeue Q = Inr (?Q, p)"
    using fr p(1) by (simp add: dequeue_def IsEmptyQueue_def at_index_def c_array)
  moreover have "wf_pq ?Q \<and> content_pq ?Q = ps \<and> room_pq Q \<le> room_pq ?Q"
    using fr set p(2) unfolding split
    by (auto simp: wf_pq_def content_pq_def room_pq_def nat_add_distrib)
  ultimately show ?thesis by blast
qed

interpretation pq: tested_queue enqueue dequeue wf_pq content_pq room_pq IsEmptyQueue
proof
  fix Q p
  assume "wf_pq Q" "0 < room_pq Q"
  then show "\<exists>Q'. enqueue Q p = Inr Q' \<and> wf_pq Q' \<and> content_pq Q' = content_pq Q @ [p]
    \<and> room_pq Q \<le> Suc (room_pq Q')" by (rule enqueue_pq)
next
  fix Q p ps
  assume "wf_pq Q" "content_pq Q = p # ps"
  then show "\<exists>Q'. dequeue Q = Inr (Q', p) \<and> wf_pq Q' \<and> content_pq Q' = ps \<and> room_pq Q \<le> room_pq Q'"
    by (rule dequeue_pq)
next
  fix Q
  show empty: "wf_pq Q \<Longrightarrow> IsEmptyQueue Q \<longleftrightarrow> content_pq Q = []"
    by (auto simp: IsEmptyQueue_def content_pq_def wf_pq_def)
  show "wf_pq Q \<Longrightarrow> content_pq Q = [] \<Longrightarrow> \<exists>Q'. dequeue Q = Inr (Q', NULL)"
    using empty by (simp add: dequeue_def)
qed

section \<open>\<open>PS_4.c\<close>: the path with the largest sum\<close>

text \<open>The flag and what is printed, in the order of printing.\<close>

partial_function (option) printPath :: "tree_heap \<Rightarrow> addr \<Rightarrow> addr \<Rightarrow> (bool \<times> int list) cres option" where
  "printPath h root target =
     (if root = NULL then Some (Inr (False, []))
      else case deref h root of Inl e \<Rightarrow> Some (Inl e) | Inr n \<Rightarrow>
        if root = target then Some (Inr (True, [tdata n])) else
        (case use_ptr (left n) of Inl e \<Rightarrow> Some (Inl e) | Inr l \<Rightarrow>
         Option.bind (printPath h l target) (\<lambda>x.
         (case x of Inl e \<Rightarrow> Some (Inl e) | Inr (found, out) \<Rightarrow>
          if found then Some (Inr (True, out @ [tdata n])) else
          (case use_ptr (right n) of Inl e \<Rightarrow> Some (Inl e) | Inr r \<Rightarrow>
           Option.bind (printPath h r target) (\<lambda>y.
           Some (bindE y (\<lambda>(found, out').
             Inr (if found then (True, out @ out' @ [tdata n]) else (False, out @ out'))))))))))"

definition leaf_update :: "tnode \<Rightarrow> addr \<Rightarrow> int \<Rightarrow> int \<times> addr option \<Rightarrow> (int \<times> addr option) cres" where
  "leaf_update n node curr_sum = (\<lambda>(max_sum, target).
     bindE (use_ptr (left n)) (\<lambda>l.
     if l \<noteq> NULL then Inr (max_sum, target) else
     bindE (use_ptr (right n)) (\<lambda>r.
     Inr (if r = NULL \<and> curr_sum > max_sum then (curr_sum, Some node) else (max_sum, target)))))"

partial_function (option) getTargetLeaf ::
    "tree_heap \<Rightarrow> addr \<Rightarrow> int \<Rightarrow> int \<times> addr option \<Rightarrow> (int \<times> addr option) cres option" where
  "getTargetLeaf h node curr_sum mt =
     (if node = NULL then Some (Inr mt)
      else case deref h node of Inl e \<Rightarrow> Some (Inl e) | Inr n \<Rightarrow>
        (case add32 curr_sum (tdata n) of Inl e \<Rightarrow> Some (Inl e) | Inr s \<Rightarrow>
        (case leaf_update n node s mt of Inl e \<Rightarrow> Some (Inl e) | Inr mt \<Rightarrow>
        (case use_ptr (left n) of Inl e \<Rightarrow> Some (Inl e) | Inr l \<Rightarrow>
         Option.bind (getTargetLeaf h l s mt) (\<lambda>x.
         (case x of Inl e \<Rightarrow> Some (Inl e) | Inr mt \<Rightarrow>
         (case use_ptr (right n) of Inl e \<Rightarrow> Some (Inl e) | Inr r \<Rightarrow>
          getTargetLeaf h r s mt)))))))"

definition INT_MIN :: int where "INT_MIN = - (2 ^ 31)"

definition maxSumPath :: "tree_heap \<Rightarrow> addr \<Rightarrow> (int \<times> int list) cres option" where
  "maxSumPath h node =
     (if node = NULL then Some (Inr (0, [])) else
      bindO (getTargetLeaf h node 0 (INT_MIN, None)) (\<lambda>(max_sum, target_leaf).
      bindO (Some (use_ptr target_leaf)) (\<lambda>target.
      bindO (printPath h node target) (\<lambda>(_, out).
      Some (Inr (max_sum, out))))))"

definition ps4_build :: "tnode allocator \<Rightarrow> (tree_heap \<times> addr) cres" where
  "ps4_build alloc =
     bindE (newNode alloc Map.empty 10) (\<lambda>(h, root).
     bindE (add_left alloc h root (- 2)) (\<lambda>h.
     bindE (add_right alloc h root 7) (\<lambda>h.
     bindE (get_left h root) (\<lambda>l.
     bindE (add_left alloc h l 8) (\<lambda>h.
     bindE (add_right alloc h l (- 4)) (\<lambda>h.
     bindE (get_left h l) (\<lambda>ll.
     bindE (add_left alloc h ll 4) (\<lambda>h.
     bindE (add_right alloc h ll 2) (\<lambda>h.
     bindE (get_right h root) (\<lambda>r.
     bindE (add_left alloc h r 3) (\<lambda>h.
     bindE (add_right alloc h r 1) (\<lambda>h.
     Inr (h, root)))))))))))))"

definition ps4_main :: "bool \<Rightarrow> tnode allocator \<Rightarrow> (int list \<times> int list \<times> int) cres option" where
  "ps4_main ok alloc =
     bindO (Some (ps4_build alloc)) (\<lambda>(h, root).
     bindO (ps4_levelorder ok h root) (\<lambda>out.
     bindO (maxSumPath h root) (\<lambda>(s, path). Some (Inr (out, path, s)))))"

section \<open>Paths\<close>











definition mass :: "int tree \<Rightarrow> int" where
  "mass t = sum_list (map abs (inorder t))"

lemma mass_simps [simp]: "mass \<langle>\<rangle> = 0" "mass \<langle>l, a, r\<rangle> = mass l + abs a + mass r"
  by (simp_all add: mass_def)




section \<open>Properties\<close>

definition demo_tree4 :: tree_heap where
  "demo_tree4 = [1 \<mapsto> \<lparr> tdata = 10, left = Some 2, right = Some 3 \<rparr>,
     2 \<mapsto> \<lparr> tdata = - 2, left = Some 0, right = Some 0 \<rparr>,
     3 \<mapsto> \<lparr> tdata = 7, left = Some 0, right = Some 0 \<rparr>]"

lemma demo_tree4_at: "tree_at demo_tree4 1 \<langle>\<langle>\<langle>\<rangle>, 2, \<langle>\<rangle>\<rangle>, 1, \<langle>\<langle>\<rangle>, 3, \<langle>\<rangle>\<rangle>\<rangle>"
  by (simp add: demo_tree4_def)



text \<open>C26. On a tree of at most ten distinct nodes, what \<open>main\<close> of \<open>bst_mirror.c\<close> does runs
  without undefined behaviour: it prints the levels of the tree, turns it into its mirror image in
  place, and prints the levels of the mirror image.\<close>

theorem show_mirror_prints:
  assumes "tree_at h p t" and "distinct (inorder t)" and "size t \<le> 10"
  shows "\<exists>h'. show_mirror h p = Some (Inr (h', level_order_of (vt h t), level_order_of (mirror (vt h t))))
    \<and> tree_at h' p (mirror t)"
proof -
  obtain Q where out1: "levelOrderTraversal h empty10 p = Some (Inr (Q, level_order_of (vt h t)))"
    using levelOrderTraversal_levels [OF assms(1, 3)] by blast
  obtain h' where h': "mirror_tree h p = Some (Inr h')" "tree_at h' p (mirror t)"
    "\<And>a. val_at h' a = val_at h a"
    using mirror_tree_at [OF assms(1, 2)] by blast
  obtain Q' where "levelOrderTraversal h' empty10 p = Some (Inr (Q', level_order_of (vt h' (mirror t))))"
    using levelOrderTraversal_levels [OF h'(2)] assms(3) by auto
  then show ?thesis
    using out1 h' by (auto simp: show_mirror_def empty10_def vt_mirror)
qed

theorem show_mirror_prints_witness:
  "\<exists>h'. show_mirror demo_tree4 1 = Some (Inr (h', level_order_of (vt demo_tree4 \<langle>\<langle>\<langle>\<rangle>, 2, \<langle>\<rangle>\<rangle>, 1, \<langle>\<langle>\<rangle>, 3, \<langle>\<rangle>\<rangle>\<rangle>),
      level_order_of (mirror (vt demo_tree4 \<langle>\<langle>\<langle>\<rangle>, 2, \<langle>\<rangle>\<rangle>, 1, \<langle>\<langle>\<rangle>, 3, \<langle>\<rangle>\<rangle>\<rangle>))))
    \<and> tree_at h' 1 (mirror \<langle>\<langle>\<langle>\<rangle>, 2, \<langle>\<rangle>\<rangle>, 1, \<langle>\<langle>\<rangle>, 3, \<langle>\<rangle>\<rangle>\<rangle>)"
  by (rule show_mirror_prints [OF demo_tree4_at]) simp_all

text \<open>\<open>levelorder\<close> of \<open>PS_4.c\<close> prints a tree of at most ten nodes level by level.\<close>

theorem ps4_levelorder_prints_levels:
  assumes "tree_at h p t" and "t \<noteq> \<langle>\<rangle>" and "size t \<le> 10"
  shows "ps4_levelorder True h p = Some (Inr (level_order_of (vt h t)))"
proof -
  define Q0 where "Q0 = \<lparr> pq_data = replicate 10 None, pq_front = - 1, pq_rear = - 1, pq_capacity = 10 \<rparr>"
  have Q0: "wf_pq Q0" "content_pq Q0 = []" "room_pq Q0 = 10"
    by (simp_all add: Q0_def wf_pq_def content_pq_def room_pq_def)
  then obtain Q where Q: "enqueue Q0 p = Inr Q" "wf_pq Q" "content_pq Q = [p]" "9 \<le> room_pq Q"
    using enqueue_pq [of Q0 p] by auto
  have "drain_loop enqueue dequeue IsEmptyQueue h Q = Some (Inr (map (val_at h) (bfs [t])))"
    using Q assms by (intro pq.drain_loop_bfs) auto
  then show ?thesis
    using Q(1) by (simp add: ps4_levelorder_def createQueue_def Q0_def bfs_level_order level_order_vt)
qed

theorem ps4_levelorder_prints_levels_witness:
  "ps4_levelorder True demo_tree4 1
    = Some (Inr (level_order_of (vt demo_tree4 \<langle>\<langle>\<langle>\<rangle>, 2, \<langle>\<rangle>\<rangle>, 1, \<langle>\<langle>\<rangle>, 3, \<langle>\<rangle>\<rangle>\<rangle>)))"
  by (rule ps4_levelorder_prints_levels [OF demo_tree4_at]) simp_all

text \<open>The queue of \<open>PS_4.c\<close> does not wrap around at the front: once \<open>rear\<close> has wrapped,
  the element of the last slot is still delivered, and the next \<open>dequeue\<close> reads past the array.\<close>

theorem dequeue_does_not_wrap:
  assumes "length (pq_data Q) = 10" and "pq_capacity Q = 10" and "pq_front Q = 9"
    and "0 \<le> pq_rear Q" and "pq_rear Q < 9" and "pq_data Q ! 9 = Some p"
  shows "\<exists>Q'. dequeue Q = Inr (Q', p) \<and> dequeue Q' = Inl OutOfBounds"
  using assms by (simp add: dequeue_def IsEmptyQueue_def at_index_def rd_def)

theorem dequeue_does_not_wrap_witness:
  "\<exists>Q'. dequeue \<lparr> pq_data = map Some [11, 2, 3, 4, 5, 6, 7, 8, 9, 10], pq_front = 9, pq_rear = 0,
      pq_capacity = 10 \<rparr> = Inr (Q', 10) \<and> dequeue Q' = Inl OutOfBounds"
  by (rule dequeue_does_not_wrap) simp_all

end
