(* ===== verification/Threads.thy ===== *)
theory Threads
  imports C_Prelude
begin

text \<open>
  Shared vocabulary of the pthread programs.  A program is a transition system: a state with one
  program counter per thread, and a step relation in which the scheduler picks any thread that is
  not blocked.  The locales hold what the programs prove about such systems in the same way:
  \<open>thread_system\<close> invariants of the reachable states, \<open>recurring_system\<close> that some event
  happens again and again in every run, \<open>terminating_system\<close> that every run ends,
  \<open>disturbed_system\<close> how much a run is prolonged by the environment, and
  \<open>explored_system\<close> what following all runs of a small system shows.  A
  \<open>main\<close> that creates threads, joins them and destroys the shared objects is the list of these
  calls; \<open>joined_program\<close> is what its joins guarantee.  The last section counts the threads of a
  numbered family that are at given program points.
\<close>

section \<open>Transition systems\<close>

locale thread_system =
  fixes step :: "'s \<Rightarrow> 's \<Rightarrow> bool"
    and init :: 's
    and inv :: "'s \<Rightarrow> bool"
  assumes inv_init: "inv init"
    and inv_step: "inv s \<Longrightarrow> step s s' \<Longrightarrow> inv s'"
begin

lemma inv_steps: "step\<^sup>*\<^sup>* s s' \<Longrightarrow> inv s \<Longrightarrow> inv s'"
  by (induction rule: rtranclp_induct) (auto intro: inv_step)

lemma inv_reachable: "step\<^sup>*\<^sup>* init s \<Longrightarrow> inv s"
  using inv_steps inv_init by blast

lemma inv_run: "(step ^^ n) init s \<Longrightarrow> inv s"
  using inv_reachable relpowp_imp_rtranclp by fastforce

end

text \<open>Every step makes \<open>rest\<close> smaller or ends a round; after a round \<open>rest\<close> is at most
  \<open>bound\<close>.\<close>

locale recurring_system = thread_system +
  fixes rest :: "'s \<Rightarrow> nat"
    and rounds :: "'s \<Rightarrow> nat"
    and bound :: nat
  assumes round_or_rest: "inv s \<Longrightarrow> step s s' \<Longrightarrow>
      rounds s' = rounds s \<and> rest s' < rest s \<or> rounds s' = Suc (rounds s) \<and> rest s' \<le> bound"
    and rounds_init: "rounds init = 0"
begin

lemma run_rounds: "(step ^^ n) init s \<Longrightarrow> n + rest s \<le> rest init + rounds s * Suc bound"
proof (induction n arbitrary: s)
  case 0
  then show ?case by simp
next
  case (Suc n)
  then obtain u where u: "(step ^^ n) init u" "step u s" by auto
  with Suc.IH [OF u(1)] round_or_rest [OF inv_run [OF u(1)] u(2)] show ?case by auto
qed

end

text \<open>A system in which no state is stuck before it is final, and \<open>rest\<close> bounds the steps.\<close>

locale terminating_system = thread_system +
  fixes rest :: "'s \<Rightarrow> nat"
    and final :: "'s \<Rightarrow> bool"
  assumes rest_step: "inv s \<Longrightarrow> step s s' \<Longrightarrow> rest s' < rest s"
    and not_stuck: "inv s \<Longrightarrow> \<not> final s \<Longrightarrow> \<exists>s'. step s s'"

sublocale terminating_system \<subseteq> recurring_system step init inv rest "\<lambda>_. 0" 0
  by unfold_locales (simp_all add: rest_step)

context terminating_system
begin

lemma run_bounded: "(step ^^ n) init s \<Longrightarrow> n + rest s \<le> rest init"
  using run_rounds [of n s] by simp

lemma can_finish: "inv s \<Longrightarrow> \<exists>s'. step\<^sup>*\<^sup>* s s' \<and> inv s' \<and> final s'"
proof (induction "rest s" arbitrary: s rule: less_induct)
  case less
  show ?case
  proof (cases "final s")
    case False
    then obtain u where u: "step s u" using not_stuck [OF less.prems] by blast
    with less.hyps [OF rest_step [OF less.prems u] inv_step [OF less.prems u]]
    show ?thesis by (meson converse_rtranclp_into_rtranclp)
  qed (use less.prems in blast)
qed

end

text \<open>Runs of \<open>n\<close> steps in which the environment has interfered \<open>k\<close> times, as a spurious
  wake-up does.\<close>

inductive counted_run :: "('s \<Rightarrow> 's \<Rightarrow> bool) \<Rightarrow> ('s \<Rightarrow> 's \<Rightarrow> bool) \<Rightarrow> 's \<Rightarrow> nat \<Rightarrow> nat \<Rightarrow> 's \<Rightarrow> bool"
  for step disturb init where
  run_start: "counted_run step disturb init 0 0 init"
| run_step: "counted_run step disturb init n k s \<Longrightarrow> step s s' \<Longrightarrow> counted_run step disturb init (Suc n) k s'"
| run_disturb: "counted_run step disturb init n k s \<Longrightarrow> disturb s s'
    \<Longrightarrow> counted_run step disturb init (Suc n) (Suc k) s'"

locale disturbed_system = terminating_system +
  fixes disturb :: "'s \<Rightarrow> 's \<Rightarrow> bool"
    and cost :: nat
  assumes inv_disturb: "inv s \<Longrightarrow> disturb s s' \<Longrightarrow> inv s'"
    and rest_disturb: "inv s \<Longrightarrow> disturb s s' \<Longrightarrow> rest s' \<le> rest s + cost"
begin

lemma disturbed_run:
  "counted_run step disturb init n k s \<Longrightarrow> inv s \<and> n + rest s \<le> rest init + k * Suc cost"
proof (induction rule: counted_run.induct)
  case (run_step n k s s')
  then show ?case using inv_step [of s s'] rest_step [of s s'] by auto
next
  case (run_disturb n k s s')
  then show ?case using inv_disturb [of s s'] rest_disturb [of s s'] by auto
qed (simp add: inv_init)

end

text \<open>A system with few states: all its runs are followed, up to a bound on their length.\<close>

fun explore :: "('s \<Rightarrow> 's list) \<Rightarrow> ('s \<Rightarrow> bool) \<Rightarrow> nat \<Rightarrow> 's \<Rightarrow> bool" where
  "explore succs good 0 s \<longleftrightarrow> good s \<and> succs s = []"
| "explore succs good (Suc n) s \<longleftrightarrow> good s \<and> list_all (explore succs good n) (succs s)"

lemma explore_good: "explore succs good n s \<Longrightarrow> good s"
  by (cases n) auto

lemma explore_next:
  assumes "explore succs good n s" and "s' \<in> set (succs s)"
  obtains m where "n = Suc m" and "explore succs good m s'"
  using assms by (cases n) (auto simp: list_all_iff)

locale explored_system =
  fixes step :: "'s \<Rightarrow> 's \<Rightarrow> bool"
    and init :: 's
    and succs :: "'s \<Rightarrow> 's list"
    and good :: "'s \<Rightarrow> bool"
    and bound :: nat
  assumes step_succs: "step s s' \<longleftrightarrow> s' \<in> set (succs s)"
    and explored: "explore succs good bound init"
begin

lemma run_explored: "(step ^^ n) init s \<Longrightarrow> n \<le> bound \<and> explore succs good (bound - n) s"
proof (induction n arbitrary: s)
  case 0
  then show ?case using explored by simp
next
  case (Suc n)
  then obtain u where u: "(step ^^ n) init u" "step u s" by auto
  then have "n \<le> bound" and e: "explore succs good (bound - n) u" using Suc.IH by auto
  have "s \<in> set (succs u)" using u(2) by (simp add: step_succs)
  with e obtain m where "bound - n = Suc m" "explore succs good m s" by (rule explore_next)
  moreover from this(1) have "bound - Suc n = m" "Suc n \<le> bound" by simp_all
  ultimately show ?case by simp
qed

text \<open>Every run can be continued to one that ends.\<close>

lemma ends_somewhere: "explore succs good n s \<Longrightarrow> \<exists>s'. step\<^sup>*\<^sup>* s s' \<and> good s' \<and> succs s' = []"
proof (induction n arbitrary: s)
  case (Suc n)
  show ?case
  proof (cases "succs s")
    case (Cons u us)
    then have "step s u" and "explore succs good n u" using Suc.prems by (simp_all add: step_succs)
    with Suc.IH [of u] show ?thesis by (meson converse_rtranclp_into_rtranclp)
  qed (use Suc.prems in auto)
qed auto

end

section \<open>The main function\<close>

datatype 't main_op = Create 't | Join 't | Destroy_mutex | Destroy_cond

text \<open>A program: one step of a thread, the tests on the shared state that the library makes, the
  initial values of the shared state, and the calls of \<open>main\<close>.\<close>

record ('s, 't) program =
  thread_body :: "'t \<Rightarrow> 's \<Rightarrow> 's option"
  returned :: "'s \<Rightarrow> 't \<Rightarrow> bool"
  unlocked :: "'s \<Rightarrow> bool"
  unawaited :: "'s \<Rightarrow> bool"
  start :: 's
  main_ops :: "'t main_op list"

record ('s, 't) process =
  threads :: 's
  made :: "'t \<Rightarrow> bool"          \<comment> \<open>the threads whose creation succeeded\<close>
  ops :: "'t main_op list"      \<comment> \<open>the calls \<open>main\<close> has still to make\<close>

definition launch :: "('s, 't) program \<Rightarrow> ('s, 't) process" where
  "launch P = \<lparr> threads = start P, made = (\<lambda>_. False), ops = main_ops P \<rparr>"

text \<open>One call of \<open>main\<close>.  A failed \<open>pthread_create\<close> only prints a message; joining that thread
  then uses an indeterminate identifier.  Destroying a mutex that is locked or a condition variable
  on which a thread waits is undefined.\<close>

definition main_step :: "('s, 't) program \<Rightarrow> ('t \<Rightarrow> bool) \<Rightarrow> ('s, 't) process \<Rightarrow> ('s, 't) process cres option" where
  "main_step P ok p =
     (case ops p of
        [] \<Rightarrow> None
      | Create t # r \<Rightarrow> Some (Inr (p\<lparr>made := (made p)(t := ok t), ops := r\<rparr>))
      | Join t # r \<Rightarrow>
          if \<not> made p t then Some (Inl Uninit)
          else if returned P (threads p) t then Some (Inr (p\<lparr>ops := r\<rparr>)) else None
      | Destroy_mutex # r \<Rightarrow>
          Some (if unlocked P (threads p) then Inr (p\<lparr>ops := r\<rparr>) else Inl MutexMisuse)
      | Destroy_cond # r \<Rightarrow>
          Some (if unawaited P (threads p) then Inr (p\<lparr>ops := r\<rparr>) else Inl MutexMisuse))"

inductive process_step :: "('s, 't) program \<Rightarrow> ('t \<Rightarrow> bool) \<Rightarrow> ('s, 't) process \<Rightarrow> ('s, 't) process \<Rightarrow> bool"
  for P ok where
  thread: "made p t \<Longrightarrow> thread_body P t (threads p) = Some s' \<Longrightarrow> process_step P ok p (p\<lparr>threads := s'\<rparr>)"
| main: "main_step P ok p = Some (Inr p') \<Longrightarrow> process_step P ok p p'"

inductive_cases process_stepE: "process_step P ok p p'"

definition thread_steps :: "('s, 't) program \<Rightarrow> 's \<Rightarrow> 's \<Rightarrow> bool" where
  "thread_steps P s s' \<longleftrightarrow> (\<exists>t. thread_body P t s = Some s')"

lemma process_runs_threads:
  assumes "(thread_steps P)\<^sup>*\<^sup>* (threads p) s'" and "\<And>t. made p t"
  shows "(process_step P ok)\<^sup>*\<^sup>* p (p\<lparr>threads := s'\<rparr>)"
  using assms(1)
proof (induction rule: rtranclp_induct)
  case (step s1 s2)
  then obtain t where "thread_body P t s1 = Some s2" by (auto simp: thread_steps_def)
  then have "process_step P ok (p\<lparr>threads := s1\<rparr>) (p\<lparr>threads := s2\<rparr>)"
    using process_step.thread [of "p\<lparr>threads := s1\<rparr>" t P s2] assms(2) by simp
  with step.IH show ?case by simp
qed simp

text \<open>What \<open>main\<close> has done so far is a prefix of its calls.\<close>

definition calls_inv :: "('s, 't) program \<Rightarrow> ('t \<Rightarrow> bool) \<Rightarrow> ('s, 't) process \<Rightarrow> bool" where
  "calls_inv P ok p \<longleftrightarrow> (\<forall>t. made p t \<longrightarrow> ok t)
     \<and> (\<exists>pre. main_ops P = pre @ ops p \<and> (\<forall>t. Join t \<in> set pre \<longrightarrow> returned P (threads p) t)
          \<and> (\<forall>t. ok t \<and> Create t \<in> set pre \<longrightarrow> made p t))"

definition joined_inv :: "('s, 't) program \<Rightarrow> ('t \<Rightarrow> bool) \<Rightarrow> ('s, 't) process \<Rightarrow> bool" where
  "joined_inv P ok p \<longleftrightarrow> (thread_steps P)\<^sup>*\<^sup>* (start P) (threads p) \<and> calls_inv P ok p"

lemma main_step_threads: "main_step P ok p = Some (Inr p') \<Longrightarrow> threads p' = threads p"
  by (auto simp: main_step_def split: list.splits main_op.splits if_splits)

lemma calls_inv_launch: "calls_inv P ok (launch P)"
  by (simp add: calls_inv_def launch_def)

lemma calls_inv_main:
  assumes "calls_inv P ok p" and "main_step P ok p = Some (Inr p')"
  shows "calls_inv P ok p'"
proof -
  obtain pre where p: "\<forall>t. made p t \<longrightarrow> ok t"
    "main_ops P = pre @ ops p" "\<forall>t. Join t \<in> set pre \<longrightarrow> returned P (threads p) t"
    "\<forall>t. ok t \<and> Create t \<in> set pre \<longrightarrow> made p t"
    using assms(1) unfolding calls_inv_def by blast
  obtain c r where c: "ops p = c # r" using assms(2) by (cases "ops p") (auto simp: main_step_def)
  note step = assms(2) [unfolded main_step_def c, simplified]
  have "main_ops P = (pre @ [c]) @ ops p'"
    using step p(2) c by (cases c) (auto split: if_splits)
  moreover have "\<forall>t. Join t \<in> set (pre @ [c]) \<longrightarrow> returned P (threads p') t"
    using step p(3) by (cases c) (auto split: if_splits)
  moreover have "\<forall>t. ok t \<and> Create t \<in> set (pre @ [c]) \<longrightarrow> made p' t"
    using step p(4) by (cases c) (auto split: if_splits)
  moreover have "\<forall>t. made p' t \<longrightarrow> ok t"
    using step p(1) by (cases c; auto split: if_splits)+
  ultimately show ?thesis unfolding calls_inv_def by metis
qed

text \<open>Whatever the threads do, as long as a thread that has returned stays returned.\<close>

lemma calls_inv_threads:
  assumes "calls_inv P ok p" and "\<And>t. returned P (threads p) t \<Longrightarrow> returned P s' t"
  shows "calls_inv P ok (p\<lparr>threads := s'\<rparr>)"
  using assms unfolding calls_inv_def by auto

locale joined_program =
  fixes P :: "('s, 't) program"
  assumes returned_stays: "returned P s t \<Longrightarrow> thread_body P u s = Some s' \<Longrightarrow> returned P s' t"
begin

lemma joined_inv_thread:
  assumes "joined_inv P ok p" and "thread_body P t (threads p) = Some s'"
  shows "joined_inv P ok (p\<lparr>threads := s'\<rparr>)"
proof -
  have "thread_steps P (threads p) s'" using assms(2) by (auto simp: thread_steps_def)
  then have "(thread_steps P)\<^sup>*\<^sup>* (start P) s'"
    using assms(1) by (auto simp: joined_inv_def intro: rtranclp.rtrancl_into_rtrancl)
  with assms(1) calls_inv_threads [of P ok p s'] returned_stays [OF _ assms(2)]
  show ?thesis by (simp add: joined_inv_def)
qed

lemma calls_inv_step:
  assumes "calls_inv P ok p" and "process_step P ok p p'"
  shows "calls_inv P ok p'"
  using assms(2)
proof (cases rule: process_step.cases)
  case (thread t s')
  then show ?thesis using calls_inv_threads [OF assms(1)] returned_stays [OF _ thread(3)] by simp
qed (rule calls_inv_main [OF assms(1)])

end

sublocale joined_program \<subseteq> process: thread_system "process_step P ok" "launch P" "joined_inv P ok" for ok
proof
  show "joined_inv P ok (launch P)" by (simp add: joined_inv_def calls_inv_launch) (simp add: launch_def)
  show "joined_inv P ok p'" if "joined_inv P ok p" and "process_step P ok p p'" for p p'
    using that(2)
  proof (cases rule: process_step.cases)
    case main
    then show ?thesis
      using that(1) calls_inv_main [OF _ main] main_step_threads [OF main] by (simp add: joined_inv_def)
  qed (use that(1) joined_inv_thread in blast)
qed

context joined_program
begin

text \<open>When \<open>main\<close> has made all its calls, every thread it joins has returned.\<close>

lemma joined_all:
  assumes "(process_step P ok)\<^sup>*\<^sup>* (launch P) p" and "ops p = []"
  shows "Join t \<in> set (main_ops P) \<Longrightarrow> returned P (threads p) t"
    and "(thread_steps P)\<^sup>*\<^sup>* (start P) (threads p)"
  using process.inv_reachable [OF assms(1)] assms(2) by (auto simp: joined_inv_def calls_inv_def)

end

section \<open>Counting the threads at a program point\<close>

definition tally :: "nat \<Rightarrow> ('p \<Rightarrow> bool) \<Rightarrow> (nat \<Rightarrow> 'p) \<Rightarrow> nat" where
  "tally n P f = card {k. k < n \<and> P (f k)}"

lemma tally_cong: "(\<And>k. k < n \<Longrightarrow> P (f k) \<longleftrightarrow> P (g k)) \<Longrightarrow> tally n P f = tally n P g"
  by (auto simp: tally_def intro: arg_cong [where f = card])

lemma tally_upd_same: "P p \<longleftrightarrow> P (f k) \<Longrightarrow> tally n P (f(k := p)) = tally n P f"
  by (rule tally_cong) simp

lemma tally_upd_new:
  assumes "k < n" and "\<not> P (f k)" and "P p"
  shows "tally n P (f(k := p)) = Suc (tally n P f)"
proof -
  have "{j. j < n \<and> P ((f(k := p)) j)} = insert k {j. j < n \<and> P (f j)}" using assms by auto
  with assms show ?thesis by (simp add: tally_def)
qed

lemma tally_le: "tally n P f \<le> n"
proof -
  have "card {k. k < n \<and> P (f k)} \<le> card {..<n}" by (rule card_mono) auto
  then show ?thesis by (simp add: tally_def)
qed

lemma tally_all: "tally n P f = n \<longleftrightarrow> (\<forall>k<n. P (f k))"
proof
  assume "tally n P f = n"
  moreover have "{k. k < n \<and> P (f k)} \<subseteq> {..<n}" by auto
  ultimately have "{k. k < n \<and> P (f k)} = {..<n}"
    by (intro card_subset_eq) (simp_all add: tally_def)
  then show "\<forall>k<n. P (f k)" by auto
next
  assume "\<forall>k<n. P (f k)"
  then have "{k. k < n \<and> P (f k)} = {..<n}" by auto
  then show "tally n P f = n" by (simp add: tally_def)
qed

lemma tally_none: "(\<And>k. k < n \<Longrightarrow> \<not> P (f k)) \<Longrightarrow> tally n P f = 0"
  by (auto simp: tally_def)

lemma tally_less: "k < n \<Longrightarrow> \<not> P (f k) \<Longrightarrow> tally n P f < n"
  using tally_all [of n P f] tally_le [of n P f] by (auto simp: nat_less_le)

text \<open>Sums over the family when one thread moves.\<close>

lemma sum_upd_less:
  fixes w :: "'p \<Rightarrow> nat" and f :: "nat \<Rightarrow> 'p"
  assumes "k < n" and "w p < w (f k)"
  shows "(\<Sum>j<n. w ((f(k := p)) j)) < (\<Sum>j<n. w (f j))"
  by (rule sum_strict_mono_ex1) (use assms in auto)

end
