(* ===== verification/Alternate_Print.thy ===== *)
theory Alternate_Print
  imports Threads
begin

text \<open>
  \<open>mutex_sempaphores/alternate_print.c\<close> (the program of \<open>pthread/alternate_print.c\<close> too): two
  threads that take turns in incrementing a counter under a mutex and wake each other through a
  condition variable.  Every call of the pthread library and every access to the counter is one
  step of the thread, at a program counter named after it; the scheduler picks any thread that
  can take a step.  \<open>step\<close> has the wake-ups by \<open>pthread_cond_signal\<close> only; \<open>step_any\<close> adds
  the spurious wake-ups that POSIX allows.  \<open>alternate_program\<close> adds \<open>main\<close>, which creates both
  threads, joins them and destroys the mutex and the condition variable.
\<close>

section \<open>State\<close>

datatype tid = Odd | Even

fun other :: "tid \<Rightarrow> tid" where
  "other Odd = Even"
| "other Even = Odd"

datatype pc =
    Lock        \<comment> \<open>\<open>pthread_mutex_lock\<close>\<close>
  | Test        \<comment> \<open>the test of the inner \<open>while\<close>\<close>
  | Waiting     \<comment> \<open>blocked in \<open>pthread_cond_wait\<close>, the mutex is released\<close>
  | Woken       \<comment> \<open>woken up in \<open>pthread_cond_wait\<close>, needs the mutex\<close>
  | Print       \<comment> \<open>\<open>printf\<close> after the wait\<close>
  | Signal      \<comment> \<open>\<open>pthread_cond_signal\<close>, the counter is incremented\<close>
  | Check       \<comment> \<open>\<open>if (global_count > 100)\<close>\<close>
  | Unlock      \<comment> \<open>\<open>pthread_mutex_unlock\<close> at the end of the loop body\<close>
  | Unlock_ret  \<comment> \<open>\<open>pthread_mutex_unlock\<close> before \<open>return\<close>\<close>
  | Done

record state =
  count_lock :: "tid option"   \<comment> \<open>the owner of the mutex\<close>
  global_count :: int
  pcs :: "tid \<Rightarrow> pc"
  out :: "(tid \<times> int) list"     \<comment> \<open>thread and value of each line, the last one first\<close>

definition init :: state where
  "init = \<lparr> count_lock = None, global_count = 0, pcs = (\<lambda>_. Lock), out = [] \<rparr>"

text \<open>The conditions of the two inner loops.\<close>

fun must_wait :: "tid \<Rightarrow> int \<Rightarrow> bool" where
  "must_wait Odd c \<longleftrightarrow> c mod 2 \<noteq> 0"
| "must_wait Even c \<longleftrightarrow> c mod 2 = 0"

definition at :: "state \<Rightarrow> tid \<Rightarrow> pc \<Rightarrow> state" where
  "at s t p = s\<lparr>pcs := (pcs s)(t := p)\<rparr>"

section \<open>Steps\<close>

text \<open>One step of thread \<open>t\<close>, \<open>None\<close> when it is blocked or has returned.\<close>

definition wake :: "state \<Rightarrow> tid \<Rightarrow> state" where
  "wake s t = (if pcs s t = Waiting then at s t Woken else s)"

definition thread_step :: "tid \<Rightarrow> state \<Rightarrow> state option" where
  "thread_step t s =
     (case pcs s t of
        Lock \<Rightarrow> if count_lock s = None then Some (at (s\<lparr>count_lock := Some t\<rparr>) t Test) else None
      | Test \<Rightarrow>
          if must_wait t (global_count s) then Some (at (s\<lparr>count_lock := None\<rparr>) t Waiting)
          else Some (at (s\<lparr>global_count := global_count s + 1\<rparr>) t Signal)
      | Waiting \<Rightarrow> None
      | Woken \<Rightarrow> if count_lock s = None then Some (at (s\<lparr>count_lock := Some t\<rparr>) t Print) else None
      | Print \<Rightarrow> Some (at (s\<lparr>out := (t, global_count s) # out s\<rparr>) t Test)
      | Signal \<Rightarrow> Some (at (wake s (other t)) t Check)
      | Check \<Rightarrow> Some (at s t (if global_count s > 100 then Unlock_ret else Unlock))
      | Unlock \<Rightarrow> Some (at (s\<lparr>count_lock := None\<rparr>) t Lock)
      | Unlock_ret \<Rightarrow> Some (at (s\<lparr>count_lock := None\<rparr>) t Done)
      | Done \<Rightarrow> None)"

inductive step :: "state \<Rightarrow> state \<Rightarrow> bool" where
  step: "thread_step t s = Some s' \<Longrightarrow> step s s'"

inductive step_any :: "state \<Rightarrow> state \<Rightarrow> bool" where
  regular: "step s s' \<Longrightarrow> step_any s s'"
| spurious: "pcs s t = Waiting \<Longrightarrow> step_any s (at s t Woken)"

inductive_cases stepE: "step s s'"
inductive_cases step_anyE: "step_any s s'"

section \<open>Invariant\<close>

fun in_lock :: "pc \<Rightarrow> bool" where
  "in_lock Lock = False" | "in_lock Waiting = False" | "in_lock Woken = False" | "in_lock Done = False"
| "in_lock _ = True"

text \<open>The part that holds with spurious wake-ups: the mutex is owned by the thread that is in
  its critical section, the counter never exceeds 102, a thread waits only while it is not its
  turn or the signal to it is on its way, and the threads return at the right counts.\<close>

definition inv :: "state \<Rightarrow> bool" where
  "inv s \<longleftrightarrow>
     (\<forall>t. in_lock (pcs s t) \<longleftrightarrow> count_lock s = Some t)
     \<and> 0 \<le> global_count s \<and> global_count s \<le> 102
     \<and> (\<forall>t. pcs s t = Waiting \<longrightarrow> must_wait t (global_count s) \<or> pcs s (other t) = Signal)
     \<and> (\<forall>t. pcs s t \<in> {Signal, Check} \<longrightarrow> must_wait t (global_count s))
     \<and> (global_count s \<le> 100 \<longrightarrow> (\<forall>t. pcs s t \<notin> {Unlock_ret, Done}))
     \<and> (global_count s = 101 \<longrightarrow> pcs s Odd \<in> {Signal, Check, Unlock_ret, Done} \<and> pcs s Even \<notin> {Unlock_ret, Done})
     \<and> (global_count s = 102 \<longrightarrow> pcs s Odd = Done \<and> pcs s Even \<in> {Signal, Check, Unlock_ret, Done})"

lemma all_tid: "(\<forall>t. P t) \<longleftrightarrow> P Odd \<and> P Even"
  by (metis tid.exhaust)

lemma must_wait_other: "must_wait (other t) c \<longleftrightarrow> \<not> must_wait t c"
  by (cases t) simp_all

lemma must_wait_Suc: "must_wait t (c + 1) \<longleftrightarrow> \<not> must_wait t c"
  by (cases t) (simp_all, presburger+)

lemma at_simps [simp]:
  "pcs (at s t p) u = (if u = t then p else pcs s u)" "count_lock (at s t p) = count_lock s"
  "global_count (at s t p) = global_count s" "out (at s t p) = out s"
  by (simp_all add: at_def)

lemma wake_simps [simp]:
  "pcs (wake s t) u = (if u = t \<and> pcs s t = Waiting then Woken else pcs s u)"
  "count_lock (wake s t) = count_lock s" "global_count (wake s t) = global_count s" "out (wake s t) = out s"
  by (simp_all add: wake_def)

lemma other_simps [simp]: "other (other t) = t" "other t \<noteq> t" "t \<noteq> other t"
  by (cases t; simp)+

lemma invD:
  assumes "inv s"
  shows "in_lock (pcs s t) \<longleftrightarrow> count_lock s = Some t"
    and "0 \<le> global_count s" and "global_count s \<le> 102"
    and "pcs s t = Waiting \<Longrightarrow> must_wait t (global_count s) \<or> pcs s (other t) = Signal"
    and "pcs s t = Done \<Longrightarrow> 100 < global_count s"
    and "global_count s = 101 \<Longrightarrow> pcs s Even \<noteq> Done"
    and "global_count s = 102 \<Longrightarrow> pcs s Odd = Done \<and> pcs s Even \<noteq> Waiting"
  using assms unfolding inv_def by (simp_all, force+)

lemma inv_init: "inv init"
  by (simp add: inv_def init_def)

lemma thread_step_inv:
  assumes "inv s" and "thread_step t s = Some s'"
  shows "inv s'"
proof (cases "pcs s t = Test \<and> \<not> must_wait t (global_count s)")
  case True
  then show ?thesis
    using assms must_wait_Suc [of t "global_count s"]
    by (cases t) (auto simp: thread_step_def inv_def all_tid)
next
  case False
  show ?thesis
  proof (cases "pcs s t")
    case Lock
    then have "count_lock s = None" "s' = at (s\<lparr>count_lock := Some t\<rparr>) t Test"
      using assms(2) False by (auto simp: thread_step_def split: if_splits)
    with Lock False assms(1) show ?thesis by (cases t) (simp_all add: inv_def all_tid)
  next
    case Test
    then have "s' = at (s\<lparr>count_lock := None\<rparr>) t Waiting"
      using assms(2) False by (auto simp: thread_step_def split: if_splits)
    with Test False assms(1) show ?thesis by (cases t, simp_all add: inv_def all_tid)
  next
    case Waiting
    with assms(2) show ?thesis by (simp add: thread_step_def)
  next
    case Woken
    then have "count_lock s = None" "s' = at (s\<lparr>count_lock := Some t\<rparr>) t Print"
      using assms(2) False by (auto simp: thread_step_def split: if_splits)
    with Woken False assms(1) show ?thesis by (cases t) (simp_all add: inv_def all_tid)
  next
    case Print
    then have "s' = at (s\<lparr>out := (t, global_count s) # out s\<rparr>) t Test"
      using assms(2) False by (auto simp: thread_step_def split: if_splits)
    with Print False assms(1) show ?thesis by (cases t) (simp_all add: inv_def all_tid)
  next
    case Signal
    then have "s' = at (wake s (other t)) t Check"
      using assms(2) False by (auto simp: thread_step_def split: if_splits)
    with Signal False assms(1) show ?thesis by (cases t, simp_all add: inv_def all_tid) auto
  next
    case Check
    then have "s' = at s t (if global_count s > 100 then Unlock_ret else Unlock)"
      using assms(2) False by (auto simp: thread_step_def split: if_splits)
    with Check False assms(1) show ?thesis by (cases t, simp_all add: inv_def all_tid) auto
  next
    case Unlock
    then have "s' = at (s\<lparr>count_lock := None\<rparr>) t Lock"
      using assms(2) False by (auto simp: thread_step_def split: if_splits)
    with Unlock False assms(1) show ?thesis by (cases t) (simp_all add: inv_def all_tid)
  next
    case Unlock_ret
    then have "s' = at (s\<lparr>count_lock := None\<rparr>) t Done"
      using assms(2) False by (auto simp: thread_step_def split: if_splits)
    with Unlock_ret False assms(1) show ?thesis by (cases t) (simp_all add: inv_def all_tid)
  next
    case Done
    with assms(2) show ?thesis by (simp add: thread_step_def)
  qed
qed

lemma step_any_inv: "step_any s s' \<Longrightarrow> inv s \<Longrightarrow> inv s'"
proof (erule step_anyE)
  assume "inv s" "step s s'"
  then show "inv s'" using thread_step_inv by (auto elim: stepE)
next
  fix t
  assume "inv s" "s' = at s t Woken" "pcs s t = Waiting"
  then show "inv s'" by (cases t) (simp_all add: inv_def all_tid)
qed

interpretation any: thread_system step_any init inv
  by unfold_locales (use inv_init step_any_inv in auto)

section \<open>Progress and termination\<close>

lemma progress:
  assumes "inv s" and "\<not> (pcs s Odd = Done \<and> pcs s Even = Done)"
  shows "\<exists>s'. step s s'"
proof -
  have run: "\<exists>s'. step s s'" if "in_lock (pcs s t)" for t
  proof -
    have "\<exists>s'. thread_step t s = Some s'" using that by (cases "pcs s t") (auto simp: thread_step_def)
    then show ?thesis using step by blast
  qed
  have free: "\<exists>s'. step s s'" if "count_lock s = None" "pcs s t = Lock \<or> pcs s t = Woken" for t
    using that by (auto intro!: step [of t] simp: thread_step_def)
  show ?thesis
  proof (cases "count_lock s")
    case (Some t)
    then show ?thesis using run [of t] assms(1) by (simp add: inv_def)
  next
    case None
    then have idle: "pcs s t \<in> {Lock, Waiting, Woken, Done}" for t
      using invD(1) [OF assms(1), of t] by (cases "pcs s t") auto
    have wait: "must_wait t (global_count s)" if "pcs s t = Waiting" for t
      using invD(4) [OF assms(1) that] idle [of "other t"] by auto
    have "\<exists>t. pcs s t = Lock \<or> pcs s t = Woken"
    proof (rule ccontr)
      assume "\<nexists>t. pcs s t = Lock \<or> pcs s t = Woken"
      then have two: "pcs s t = Waiting \<or> pcs s t = Done" for t using idle [of t] by auto
      show False
      proof (cases "global_count s \<le> 100")
        case True
        then have "pcs s t = Waiting" for t using two [of t] invD(5) [OF assms(1), of t] by auto
        then show ?thesis using wait [of Odd] wait [of Even] by simp
      next
        case False
        then consider "global_count s = 101" | "global_count s = 102"
          using invD(3) [OF assms(1)] by linarith
        then show ?thesis
          using two [of Even] wait [of Even] invD(6, 7) [OF assms(1)] assms(2) by cases auto
      qed
    qed
    then show ?thesis using free None by blast
  qed
qed

text \<open>The weight of a program counter: the steps the thread can still take before it waits or
  increments again; a signal may set the other thread going.\<close>

fun weight :: "pc \<Rightarrow> nat" where
  "weight Lock = 2" | "weight Test = 1" | "weight Waiting = 0" | "weight Woken = 3"
| "weight Print = 2" | "weight Signal = 8" | "weight Check = 4" | "weight Unlock = 3"
| "weight Unlock_ret = 1" | "weight Done = 0"

definition fuel :: "state \<Rightarrow> nat" where
  "fuel s = 8 * nat (102 - global_count s) + weight (pcs s Odd) + weight (pcs s Even)"

lemma step_fuel:
  assumes "inv s" and "step s s'"
  shows "fuel s' < fuel s"
proof -
  obtain t where t: "thread_step t s = Some s'" using assms(2) by (auto elim: stepE)
  show ?thesis
  proof (cases "pcs s t = Test \<and> \<not> must_wait t (global_count s)")
    case True
    then have s': "s' = at (s\<lparr>global_count := global_count s + 1\<rparr>) t Signal" using t by (simp add: thread_step_def)
    have "global_count s < 102" using True assms(1) by (cases t) (auto simp: inv_def all_tid)
    then have "nat (102 - global_count s) = Suc (nat (102 - (global_count s + 1)))" by simp
    then show ?thesis using True by (cases t) (simp_all add: s' fuel_def)
  next
    case False
    then show ?thesis
      using t by (cases t; cases "pcs s t") (auto simp: thread_step_def fuel_def split: if_splits)
  qed
qed

lemma fuel_init: "fuel init = 820"
  by (simp add: fuel_def init_def)

definition both_done :: "state \<Rightarrow> bool" where
  "both_done s \<longleftrightarrow> pcs s Odd = Done \<and> pcs s Even = Done"

interpretation alternate: terminating_system step init inv fuel both_done
proof
  show "inv init" by (rule inv_init)
  show "inv s \<Longrightarrow> step s s' \<Longrightarrow> inv s'" for s s' using step_any_inv regular by blast
  show "inv s \<Longrightarrow> step s s' \<Longrightarrow> fuel s' < fuel s" for s s' by (rule step_fuel)
  show "inv s \<Longrightarrow> \<not> both_done s \<Longrightarrow> \<exists>s'. step s s'" for s using progress by (simp add: both_done_def)
qed

lemma both_done_count: "inv s \<Longrightarrow> both_done s \<Longrightarrow> global_count s = 102"
  using invD(3, 5) [of s] invD(6) [of s] by (force simp: both_done_def)

section \<open>The printed values\<close>

text \<open>A thread that has been woken finds that it is its turn and that the value has not been
  printed; the values that have been printed belong to the thread that printed them.\<close>

definition fresh :: "state \<Rightarrow> bool" where
  "fresh s \<longleftrightarrow> 0 < global_count s \<and> (\<forall>x \<in> set (out s). snd x < global_count s)"

definition out_inv :: "state \<Rightarrow> bool" where
  "out_inv s \<longleftrightarrow> (\<forall>x \<in> set (out s). \<not> must_wait (fst x) (snd x) \<and> 0 < snd x \<and> snd x \<le> 101
       \<and> snd x \<le> global_count s)
     \<and> sorted_wrt (>) (map snd (out s))
     \<and> (\<forall>t. pcs s t \<in> {Woken, Print} \<longrightarrow> \<not> must_wait t (global_count s) \<and> fresh s)
     \<and> (\<forall>t. pcs s t = Signal \<longrightarrow> fresh s)"

lemma out_invD:
  assumes "out_inv s"
  shows "x \<in> set (out s) \<Longrightarrow> \<not> must_wait (fst x) (snd x) \<and> 0 < snd x \<and> snd x \<le> 101 \<and> snd x \<le> global_count s"
    and "sorted_wrt (>) (map snd (out s))"
    and "pcs s t = Woken \<or> pcs s t = Print \<Longrightarrow> \<not> must_wait t (global_count s) \<and> fresh s"
    and "pcs s t = Signal \<Longrightarrow> fresh s"
  using assms unfolding out_inv_def by blast+

lemma out_keep:
  assumes "out_inv s" and "out s' = out s" and "global_count s' = global_count s"
    and "\<And>u. pcs s' u \<in> {Woken, Print} \<Longrightarrow> pcs s u \<in> {Woken, Print} \<or> \<not> must_wait u (global_count s) \<and> fresh s"
    and "\<And>u. pcs s' u = Signal \<Longrightarrow> pcs s u = Signal"
  shows "out_inv s'"
proof -
  have "fresh s' \<longleftrightarrow> fresh s" using assms(2, 3) by (simp add: fresh_def)
  then show ?thesis using assms out_invD [OF assms(1)] unfolding out_inv_def by metis
qed

lemma out_increment:
  assumes "inv s" and "out_inv s" and "pcs s t = Test" and "\<not> must_wait t (global_count s)"
  shows "out_inv (at (s\<lparr>global_count := global_count s + 1\<rparr>) t Signal)"
proof -
  have "pcs s (other t) \<notin> {Woken, Print}"
    using out_invD(3) [OF assms(2), of "other t"] assms(4) must_wait_other by auto
  then have o: "pcs s u \<notin> {Woken, Print}" for u using assms(3) by (cases "u = t"; cases u; cases t) auto
  have "\<forall>x \<in> set (out s). snd x < global_count s + 1 \<and> snd x \<le> global_count s + 1"
    using out_invD(1) [OF assms(2)] by force
  moreover have "0 < global_count s + 1" using invD(2) [OF assms(1)] by simp
  ultimately show ?thesis
    using out_invD(1, 2) [OF assms(2)] o by (simp add: out_inv_def fresh_def)
qed

lemma out_print:
  assumes "inv s" and "out_inv s" and "pcs s t = Print"
  shows "out_inv (at (s\<lparr>out := (t, global_count s) # out s\<rparr>) t Test)"
proof -
  have t: "\<not> must_wait t (global_count s)" "fresh s" using out_invD(3) [OF assms(2), of t] assms(3) by auto
  have "pcs s (other t) \<notin> {Woken, Print}"
    using out_invD(3) [OF assms(2), of "other t"] t(1) must_wait_other by auto
  moreover have "\<not> in_lock (pcs s (other t))"
    using invD(1) [OF assms(1), of t] invD(1) [OF assms(1), of "other t"] assms(3) by auto
  ultimately have o: "pcs s u \<notin> {Woken, Signal} \<and> (u \<noteq> t \<longrightarrow> pcs s u \<noteq> Print)" for u
    using assms(3) by (cases "u = t"; cases u; cases t) auto
  have "global_count s \<noteq> 102"
    using invD(7) [OF assms(1)] t(1) assms(3) by (cases t) auto
  then have "global_count s \<le> 101" using invD(3) [OF assms(1)] by simp
  then show ?thesis
    using out_invD(1, 2) [OF assms(2)] o t by (auto simp: out_inv_def fresh_def)
qed

lemma out_thread_step:
  assumes "inv s" and "out_inv s" and "thread_step t s = Some s'"
  shows "out_inv s'"
proof (cases "pcs s t")
  case Test
  show ?thesis
  proof (cases "must_wait t (global_count s)")
    case True
    with Test assms(3) show ?thesis
      by (intro out_keep [OF assms(2)]) (auto simp: thread_step_def split: if_splits)
  qed (use Test assms out_increment [OF assms(1, 2) Test] in \<open>auto simp: thread_step_def\<close>)
next
  case Print
  with assms(3) out_print [OF assms(1, 2)] show ?thesis by (auto simp: thread_step_def)
next
  case Signal
  then have "must_wait t (global_count s)" using assms(1) by (auto simp: inv_def)
  then have "\<not> must_wait (other t) (global_count s) \<and> fresh s"
    using Signal out_invD(4) [OF assms(2)] must_wait_other by blast
  with Signal assms(3) show ?thesis
    by (intro out_keep [OF assms(2)]) (auto simp: thread_step_def split: if_splits)
qed (use assms(3) in \<open>auto intro!: out_keep [OF assms(2)] simp: thread_step_def split: if_splits\<close>)

interpretation printing: thread_system step init "\<lambda>s. inv s \<and> out_inv s"
proof
  show "inv init \<and> out_inv init" by (simp add: inv_init) (simp add: out_inv_def init_def)
  show "inv s \<and> out_inv s \<Longrightarrow> step s s' \<Longrightarrow> inv s' \<and> out_inv s'" for s s'
    using out_thread_step thread_step_inv by (auto elim!: stepE)
qed

section \<open>The main function\<close>

text \<open>The two thread functions; \<open>thread_step\<close> is their common text with the test of the inner
  loop as the difference.\<close>

definition odd_thread :: "state \<Rightarrow> state option" where
  "odd_thread s = thread_step Odd s"

definition even_thread :: "state \<Rightarrow> state option" where
  "even_thread s = thread_step Even s"

definition alternate_main :: "tid main_op list" where
  "alternate_main = [Create Odd, Create Even, Join Odd, Join Even, Destroy_mutex, Destroy_cond]"

definition alternate_program :: "(state, tid) program" where
  "alternate_program = \<lparr>
     thread_body = (\<lambda>t. case t of Odd \<Rightarrow> odd_thread | Even \<Rightarrow> even_thread), returned = (\<lambda>s t. pcs s t = Done),
     unlocked = (\<lambda>s. count_lock s = None),
     unawaited = (\<lambda>s. pcs s Odd \<notin> {Waiting, Woken} \<and> pcs s Even \<notin> {Waiting, Woken}),
     start = init, main_ops = alternate_main \<rparr>"

lemma alternate_program_simps [simp]:
  "thread_body alternate_program = thread_step" "returned alternate_program s t \<longleftrightarrow> pcs s t = Done"
  "unlocked alternate_program s \<longleftrightarrow> count_lock s = None"
  "unawaited alternate_program s \<longleftrightarrow> pcs s Odd \<notin> {Waiting, Woken} \<and> pcs s Even \<notin> {Waiting, Woken}"
  "start alternate_program = init" "main_ops alternate_program = alternate_main"
  by (simp_all add: alternate_program_def odd_thread_def even_thread_def fun_eq_iff split: tid.split)

interpretation alternate_joined: joined_program alternate_program
proof
  show "returned alternate_program s t \<Longrightarrow> thread_body alternate_program u s = Some s' \<Longrightarrow> returned alternate_program s' t"
    for s t u s'
    by (cases "pcs s u") (auto simp: thread_step_def split: if_splits)
qed

definition all_ok :: "tid \<Rightarrow> bool" where
  "all_ok t \<longleftrightarrow> True"

definition process_inv :: "(state, tid) process \<Rightarrow> bool" where
  "process_inv p \<longleftrightarrow> calls_inv alternate_program all_ok p \<and> inv (threads p)"

lemma process_inv_joins:
  assumes "process_inv p" and "ops p \<in> {[Join Odd, Join Even, Destroy_mutex, Destroy_cond],
      [Join Even, Destroy_mutex, Destroy_cond], [Destroy_mutex, Destroy_cond], [Destroy_cond], []}"
  shows "made p t"
  using assms by (cases t) (auto simp: process_inv_def calls_inv_def all_ok_def alternate_main_def
      append_eq_Cons_conv Cons_eq_append_conv)

lemma process_inv_joined:
  assumes "process_inv p" and "ops p \<in> {[Destroy_mutex, Destroy_cond], [Destroy_cond], []}"
  shows "both_done (threads p)"
  using assms by (auto simp: process_inv_def calls_inv_def alternate_main_def both_done_def
      append_eq_Cons_conv Cons_eq_append_conv)

lemma process_inv_ops:
  assumes "process_inv p"
  obtains "ops p = alternate_main" | "ops p = tl alternate_main"
  | "ops p = [Join Odd, Join Even, Destroy_mutex, Destroy_cond]" | "ops p = [Join Even, Destroy_mutex, Destroy_cond]"
  | "ops p = [Destroy_mutex, Destroy_cond]" | "ops p = [Destroy_cond]" | "ops p = []"
  using assms by (auto simp: process_inv_def calls_inv_def alternate_main_def Cons_eq_append_conv)

lemma both_done_free: "inv s \<Longrightarrow> both_done s \<Longrightarrow> count_lock s = None"
  using invD(1) [of s Odd] invD(1) [of s Even] by (cases "count_lock s") (auto simp: both_done_def, metis tid.exhaust)

lemma process_inv_step:
  assumes "process_inv p" and "process_step alternate_program all_ok p p'"
  shows "process_inv p'"
proof -
  have "calls_inv alternate_program all_ok p'"
    using alternate_joined.calls_inv_step assms by (auto simp: process_inv_def)
  moreover have "inv (threads p')"
    using assms(2)
  proof (cases rule: process_step.cases)
    case (thread t s')
    then show ?thesis using assms(1) thread_step_inv by (auto simp: process_inv_def)
  next
    case main
    then show ?thesis using assms(1) main_step_threads [OF main] by (simp add: process_inv_def)
  qed
  ultimately show ?thesis by (simp add: process_inv_def)
qed

lemma process_rest:
  assumes "process_inv p" and "process_step alternate_program all_ok p p'"
  shows "fuel (threads p') + length (ops p') < fuel (threads p) + length (ops p)"
  using assms(2)
proof (cases rule: process_step.cases)
  case (thread t s')
  then have "fuel s' < fuel (threads p)"
    using assms(1) step_fuel step.step by (auto simp: process_inv_def)
  with thread show ?thesis by simp
next
  case main
  then show ?thesis by (auto simp: main_step_def split: list.splits main_op.splits if_splits)
qed

lemma join_or_run:
  assumes "process_inv p" and "ops p = Join t # r" and "\<And>u. made p u"
  shows "\<exists>p'. process_step alternate_program all_ok p p'"
proof (cases "pcs (threads p) t = Done")
  case True
  with assms have "main_step alternate_program all_ok p = Some (Inr (p\<lparr>ops := r\<rparr>))"
    by (simp add: main_step_def)
  then show ?thesis by (blast intro: process_step.main)
next
  case False
  then have "\<not> both_done (threads p)" by (cases t) (simp_all add: both_done_def)
  then obtain s' where "step (threads p) s'"
    using assms(1) progress by (auto simp: process_inv_def both_done_def)
  then obtain u where "thread_step u (threads p) = Some s'" by (auto elim: stepE)
  then show ?thesis using assms(3) by (auto intro!: exI process_step.thread [of p u])
qed

lemma process_not_stuck:
  assumes "process_inv p" and "ops p \<noteq> []"
  shows "(\<exists>p'. process_step alternate_program all_ok p p') \<and> main_step alternate_program all_ok p \<noteq> Some (Inl e)"
proof -
  have made: "made p u" if "ops p \<noteq> alternate_main" "ops p \<noteq> tl alternate_main" for u
    using assms(1) that by (cases rule: process_inv_ops) (use process_inv_joins [OF assms(1)] in auto)
  have over: "count_lock (threads p) = None \<and> both_done (threads p)"
    if "ops p = [Destroy_mutex, Destroy_cond] \<or> ops p = [Destroy_cond]"
    using process_inv_joined [OF assms(1)] both_done_free assms(1) that by (auto simp: process_inv_def)
  have main: "\<exists>p'. process_step alternate_program all_ok p p'"
    if "main_step alternate_program all_ok p = Some (Inr q)" for q
    using process_step.main [OF that] by blast
  from assms(1) show ?thesis
  proof (cases rule: process_inv_ops)
    case 3
    with made have "\<And>u. made p u" by (simp add: alternate_main_def)
    then show ?thesis using 3 join_or_run [OF assms(1) 3] by (simp add: main_step_def)
  next
    case 4
    with made have "\<And>u. made p u" by (simp add: alternate_main_def)
    then show ?thesis using 4 join_or_run [OF assms(1) 4] by (simp add: main_step_def)
  next
    case 5
    with over main show ?thesis by (simp add: main_step_def)
  next
    case 6
    with over main show ?thesis by (simp add: main_step_def both_done_def)
  qed (use main assms(2) in \<open>simp_all add: main_step_def alternate_main_def\<close>)
qed

text \<open>A spurious wake-up: a thread that waits goes on as if it had been signalled.\<close>

inductive spurious_wake :: "(state, tid) process \<Rightarrow> (state, tid) process \<Rightarrow> bool" where
  spurious_wake: "pcs (threads p) t = Waiting \<Longrightarrow> spurious_wake p (p\<lparr>threads := at (threads p) t Woken\<rparr>)"

lemma process_inv_wake: "process_inv p \<Longrightarrow> spurious_wake p p' \<Longrightarrow> process_inv p'"
  by (auto simp: process_inv_def elim!: spurious_wake.cases intro!: calls_inv_threads step_any_inv [OF spurious])

lemma process_rest_wake:
  assumes "spurious_wake p p'"
  shows "fuel (threads p') + length (ops p') \<le> fuel (threads p) + length (ops p) + 3"
  using assms
proof cases
  case (spurious_wake t)
  then show ?thesis by (cases t) (simp_all add: fuel_def)
qed

interpretation process: disturbed_system "process_step alternate_program all_ok" "launch alternate_program"
  process_inv "\<lambda>p. fuel (threads p) + length (ops p)" "\<lambda>p. ops p = []" spurious_wake 3
proof
  show "process_inv (launch alternate_program)"
    using calls_inv_launch [of alternate_program all_ok] inv_init by (simp add: process_inv_def launch_def)
qed (use process_inv_step process_rest process_not_stuck process_inv_wake process_rest_wake in blast)+

lemma process_exit:
  assumes "process_inv p" and "ops p = []"
  shows "global_count (threads p) = 102" and "both_done (threads p)"
  using assms process_inv_joined [OF assms(1)] both_done_count by (auto simp: process_inv_def)

text \<open>A run in which the even thread has waited and printed.\<close>

definition first_line :: "tid list" where
  "first_line = [Even, Even, Odd, Odd, Odd, Odd, Odd, Even, Even]"

fun exec :: "tid list \<Rightarrow> state \<Rightarrow> state option" where
  "exec [] s = Some s"
| "exec (t # ts) s = (case thread_step t s of None \<Rightarrow> None | Some s' \<Rightarrow> exec ts s')"

lemma alternate_exec_reaches: "exec ts s = Some s' \<Longrightarrow> step\<^sup>*\<^sup>* s s'"
  by (induction ts arbitrary: s)
    (auto split: option.splits intro: converse_rtranclp_into_rtranclp step)

lemma first_line_runs: "case exec first_line init of None \<Rightarrow> False | Some s \<Rightarrow> out s = [(Even, 1)] \<and> pcs s Odd = Lock \<and> pcs s Even = Test"
  by code_simp

text \<open>A run of the program: \<open>main\<close> creates the threads, the even one waits and is woken
  spuriously.\<close>

lemma woken_run:
  "\<exists>p. counted_run (process_step alternate_program all_ok) spurious_wake (launch alternate_program) 5 1 p
    \<and> pcs (threads p) Even = Woken"
proof -
  let ?R = "counted_run (process_step alternate_program all_ok) spurious_wake (launch alternate_program)"
  let ?p = "\<lambda>s. \<lparr>threads = s, made = (\<lambda>_. False)(Odd := True, Even := True), ops = drop 2 alternate_main\<rparr>"
  let ?q = "\<lparr>threads = init, made = (\<lambda>_. False)(Odd := True), ops = tl alternate_main\<rparr>"
  let ?s = "at (init\<lparr>count_lock := Some Even\<rparr>) Even Test"
  let ?u = "at (?s\<lparr>count_lock := None\<rparr>) Even Waiting"
  have "main_step alternate_program all_ok (launch alternate_program) = Some (Inr ?q)"
    by (simp add: main_step_def launch_def alternate_main_def all_ok_def)
  then have q: "?R 1 0 ?q"
    using run_step [OF run_start, of "process_step alternate_program all_ok"] process_step.main by fastforce
  have "main_step alternate_program all_ok ?q = Some (Inr (?p init))"
    by (simp add: main_step_def alternate_main_def all_ok_def)
  from run_step [OF q] process_step.main [OF this] have i: "?R 2 0 (?p init)" by (simp add: eval_nat_numeral)
  have "thread_step Even init = Some ?s" "thread_step Even ?s = Some ?u"
    by (simp_all add: thread_step_def) (simp_all add: init_def)
  with process_step.thread [of "?p init" Even alternate_program ?s all_ok]
    process_step.thread [of "?p ?s" Even alternate_program ?u all_ok]
  have "process_step alternate_program all_ok (?p init) (?p ?s)" "process_step alternate_program all_ok (?p ?s) (?p ?u)"
    by simp_all
  with run_step [OF run_step [OF i]] have "?R 4 0 (?p ?u)" by (simp add: eval_nat_numeral)
  with run_disturb spurious_wake [of "?p ?u" Even] have "?R 5 1 (?p (at ?u Even Woken))"
    by (fastforce simp: eval_nat_numeral)
  then show ?thesis by (force intro!: exI [of _ "?p (at ?u Even Woken)"])
qed

section \<open>Properties\<close>

text \<open>C35. Safety, with spurious wake-ups: in every reachable state at most one thread is between
  its lock and its unlock, the mutex is owned by exactly that thread, the counter is at most 102,
  and a thread has returned only after the counter passed 100.\<close>

theorem alternate_safe:
  assumes "step_any\<^sup>*\<^sup>* init s"
  shows "\<not> (in_lock (pcs s Odd) \<and> in_lock (pcs s Even))
    \<and> (in_lock (pcs s t) \<longleftrightarrow> count_lock s = Some t)
    \<and> 0 \<le> global_count s \<and> global_count s \<le> 102
    \<and> (pcs s t = Done \<longrightarrow> 100 < global_count s)"
proof -
  have "inv s" using any.inv_reachable [OF assms] .
  from invD(1) [OF this] invD(2, 3) [OF this] invD(5) [OF this] show ?thesis by auto
qed

theorem alternate_safe_witness:
  "\<exists>s. exec first_line init = Some s \<and> pcs s Odd = Lock \<and> pcs s Even = Test
    \<and> \<not> (in_lock (pcs s Odd) \<and> in_lock (pcs s Even))
    \<and> (in_lock (pcs s Even) \<longleftrightarrow> count_lock s = Some Even)
    \<and> 0 \<le> global_count s \<and> global_count s \<le> 102"
proof -
  obtain s where s: "exec first_line init = Some s" "pcs s Odd = Lock" "pcs s Even = Test"
    using first_line_runs by (auto split: option.splits)
  have "step_any\<^sup>*\<^sup>* init s"
    using alternate_exec_reaches [OF s(1)] by (rule rtranclp_mono [THEN predicate2D, rotated]) (blast intro: regular)
  from alternate_safe [OF this, of Even] s show ?thesis by blast
qed

text \<open>C36. The whole program, when both threads can be created, with spurious wake-ups: \<open>main\<close>
  has no undefined behaviour; a run with \<open>k\<close> spurious wake-ups has at most \<open>826 + 4 * k\<close>
  steps, so only a run that is woken spuriously for ever does not end; and it can always go on,
  without spurious wake-ups, until \<open>main\<close> has destroyed the mutex and the condition variable, with both
  threads returned and the counter at 102.\<close>

theorem alternate_main_returns:
  assumes "counted_run (process_step alternate_program all_ok) spurious_wake (launch alternate_program) n k p"
  shows "n \<le> 826 + 4 * k \<and> main_step alternate_program all_ok p \<noteq> Some (Inl e)
    \<and> (ops p = [] \<or> (\<exists>p'. process_step alternate_program all_ok p p'))
    \<and> (\<exists>p'. (process_step alternate_program all_ok)\<^sup>*\<^sup>* p p' \<and> ops p' = []
         \<and> global_count (threads p') = 102 \<and> both_done (threads p'))"
proof -
  have inv: "process_inv p" using process.disturbed_run [OF assms] by blast
  obtain p' where "(process_step alternate_program all_ok)\<^sup>*\<^sup>* p p'" "process_inv p'" "ops p' = []"
    using process.can_finish [OF inv] by blast
  moreover have "n \<le> 826 + 4 * k"
    using process.disturbed_run [OF assms] by (simp add: launch_def fuel_init alternate_main_def)
  moreover have "main_step alternate_program all_ok p \<noteq> Some (Inl e)"
    using process_not_stuck [OF inv] by (cases "ops p = []") (auto simp: main_step_def)
  ultimately show ?thesis using process_not_stuck [OF inv] process_exit by blast
qed

text \<open>A run in which the even thread is woken spuriously.\<close>

theorem alternate_main_returns_witness:
  "\<exists>p. counted_run (process_step alternate_program all_ok) spurious_wake (launch alternate_program) 5 1 p
    \<and> pcs (threads p) Even = Woken \<and> (5 :: nat) \<le> 826 + 4 * 1
    \<and> main_step alternate_program all_ok p \<noteq> Some (Inl MutexMisuse)
    \<and> (\<exists>p'. (process_step alternate_program all_ok)\<^sup>*\<^sup>* p p' \<and> ops p' = []
         \<and> global_count (threads p') = 102 \<and> both_done (threads p'))"
proof -
  obtain p where p: "counted_run (process_step alternate_program all_ok) spurious_wake (launch alternate_program) 5 1 p"
    "pcs (threads p) Even = Woken" using woken_run by blast
  from alternate_main_returns [OF p(1), of MutexMisuse] p show ?thesis by blast
qed

text \<open>C37. The output, without spurious wake-ups: the printed values increase, they lie between 1
  and 101, and it is \<open>odd_thread\<close> that prints even values and \<open>even_thread\<close> that prints odd
  ones.\<close>

theorem alternate_output:
  assumes "step\<^sup>*\<^sup>* init s"
  shows "sorted_wrt (<) (map snd (rev (out s)))
    \<and> (\<forall>x \<in> set (out s). 1 \<le> snd x \<and> snd x \<le> 101 \<and> (fst x = Odd \<longleftrightarrow> even (snd x)))"
proof -
  have out: "out_inv s" using printing.inv_reachable [OF assms] by simp
  have "\<not> must_wait t v \<Longrightarrow> t = Odd \<longleftrightarrow> even v" for t v
    by (cases t) (simp_all add: even_iff_mod_2_eq_zero)
  then show ?thesis
    using out_invD(1, 2) [OF out] by (force simp: rev_map [symmetric] sorted_wrt_rev)
qed

theorem alternate_output_witness:
  "\<exists>s. exec first_line init = Some s \<and> out s = [(Even, 1)] \<and> sorted_wrt (<) (map snd (rev (out s)))
    \<and> (fst (hd (out s)) = Odd \<longleftrightarrow> even (snd (hd (out s))))"
proof -
  obtain s where s: "exec first_line init = Some s" "out s = [(Even, 1)]"
    using first_line_runs by (auto split: option.splits)
  from alternate_output [OF alternate_exec_reaches [OF s(1)]] s show ?thesis by simp
qed

end
