(* ===== verification/Mutex_Alt_Print.thy ===== *)
theory Mutex_Alt_Print
  imports Threads
begin

text \<open>
  \<open>mutex_alt_print.c\<close> (the same program in \<open>mutex_sempaphores\<close> and in \<open>pthread\<close>): two
  threads that are to print the even and the odd numbers.  Each takes the mutex once, and unlocks
  it whenever it finds that it is not its turn, without taking it again.  Every call of the library
  and every load and store of \<open>cnt_g\<close> is one step; the increment is a load and a store.
  Two things are undefined: to unlock a mutex that the thread does not own (\<open>MutexMisuse\<close>), and
  to access \<open>cnt_g\<close> in two threads, one of them writing, when nothing orders the accesses
  (\<open>DataRace\<close>).  \<open>func_step\<close> is the text of the thread functions and has the first error;
  \<open>func_checked\<close> adds the second: it keeps a vector clock per thread and for the mutex and the
  clocks of the accesses so far, so that it knows which of them happen before the next one.
\<close>

section \<open>State\<close>

datatype tid = Func1 | Func2

datatype pc =
    Lock     \<comment> \<open>\<open>pthread_mutex_lock\<close>\<close>
  | Test     \<comment> \<open>the test of the parity\<close>
  | Print    \<comment> \<open>\<open>printf\<close> of the value\<close>
  | Load     \<comment> \<open>\<open>cnt_g++\<close>, the load\<close>
  | Store    \<comment> \<open>\<open>cnt_g++\<close>, the store\<close>
  | Say      \<comment> \<open>\<open>printf\<close> of the unlocking\<close>
  | Unlock   \<comment> \<open>\<open>pthread_mutex_unlock\<close>\<close>
  | While    \<comment> \<open>the test \<open>cnt_g < 100\<close>\<close>
  | Done

datatype line = Val tid int | Unlocking tid int

record state =
  cnt_m :: "tid option"
  cnt_g :: int
  pcs :: "tid \<Rightarrow> pc"
  tmp :: "tid \<Rightarrow> int"   \<comment> \<open>the value loaded by the increment\<close>
  out :: "line list"     \<comment> \<open>the last line first\<close>

definition init :: state where
  "init = \<lparr> cnt_m = None, cnt_g = 0, pcs = (\<lambda>_. Lock), tmp = (\<lambda>_. 0), out = [] \<rparr>"

text \<open>The conditions of \<open>func1\<close> and \<open>func2\<close>.\<close>

fun turn :: "tid \<Rightarrow> int \<Rightarrow> bool" where
  "turn Func1 c \<longleftrightarrow> c mod 2 = 0"
| "turn Func2 c \<longleftrightarrow> c mod 2 \<noteq> 0"

definition at :: "state \<Rightarrow> tid \<Rightarrow> pc \<Rightarrow> state" where
  "at s t p = s\<lparr>pcs := (pcs s)(t := p)\<rparr>"

section \<open>Steps\<close>

definition func_step :: "tid \<Rightarrow> state \<Rightarrow> state cres option" where
  "func_step t s =
     (case pcs s t of
        Lock \<Rightarrow> if cnt_m s = None then Some (Inr (at (s\<lparr>cnt_m := Some t\<rparr>) t Test)) else None
      | Test \<Rightarrow> Some (Inr (at s t (if turn t (cnt_g s) then Print else Say)))
      | Print \<Rightarrow> Some (Inr (at (s\<lparr>out := Val t (cnt_g s) # out s\<rparr>) t Load))
      | Load \<Rightarrow> Some (Inr (at (s\<lparr>tmp := (tmp s)(t := cnt_g s)\<rparr>) t Store))
      | Store \<Rightarrow> Some (bindE (add32 (tmp s t) 1) (\<lambda>c. Inr (at (s\<lparr>cnt_g := c\<rparr>) t While)))
      | Say \<Rightarrow> Some (Inr (at (s\<lparr>out := Unlocking t (cnt_g s) # out s\<rparr>) t Unlock))
      | Unlock \<Rightarrow>
          if cnt_m s \<noteq> Some t then Some (Inl MutexMisuse)
          else Some (Inr (at (s\<lparr>cnt_m := None\<rparr>) t While))
      | While \<Rightarrow> Some (Inr (at s t (if cnt_g s < 100 then Test else Done)))
      | Done \<Rightarrow> None)"

text \<open>The two thread functions; \<open>func_step\<close> is their common text with the tested parity as the
  difference.\<close>

definition func1 :: "state \<Rightarrow> state cres option" where
  "func1 s = func_step Func1 s"

definition func2 :: "state \<Rightarrow> state cres option" where
  "func2 s = func_step Func2 s"

text \<open>All interleavings of the two threads, also those that go on after a data race.\<close>

inductive step :: "state \<Rightarrow> state \<Rightarrow> bool" where
  step: "func_step t s = Some (Inr s') \<Longrightarrow> step s s'"

inductive_cases stepE: "step s s'"

text \<open>Runs that are given by a schedule.\<close>

fun exec :: "tid list \<Rightarrow> state \<Rightarrow> state option" where
  "exec [] s = Some s"
| "exec (t # ts) s = (case func_step t s of Some (Inr s') \<Rightarrow> exec ts s' | _ \<Rightarrow> None)"

lemma alt_exec_reaches: "exec ts s = Some s' \<Longrightarrow> step\<^sup>*\<^sup>* s s'"
proof (induction ts arbitrary: s)
  case (Cons t ts)
  then show ?case
    by (auto split: option.splits sum.splits intro: converse_rtranclp_into_rtranclp step.step)
qed simp

lemma alt_at_simps [simp]:
  "pcs (at s t p) u = (if u = t then p else pcs s u)" "cnt_m (at s t p) = cnt_m s"
  "cnt_g (at s t p) = cnt_g s" "tmp (at s t p) = tmp s" "out (at s t p) = out s"
  by (simp_all add: at_def)

section \<open>Happens-before\<close>

text \<open>A clock counts, per thread, its unlocks.  \<open>clk t u\<close> is the part of thread \<open>u\<close> that
  happens before the next step of thread \<open>t\<close>: a thread that locks the mutex takes over the clock
  of the last unlock.  An access of thread \<open>u\<close> at time \<open>n\<close> happens before the next step of
  \<open>t\<close> when \<open>n \<le> clk t u\<close>.\<close>

type_synonym clock = "tid \<Rightarrow> nat"

record checked =
  base :: state
  clk :: "tid \<Rightarrow> clock"
  m_clk :: clock           \<comment> \<open>of the last unlock\<close>
  r_clk :: clock           \<comment> \<open>of the last read of \<open>cnt_g\<close> by each thread\<close>
  w_clk :: clock           \<comment> \<open>of its last write\<close>

definition checked_init :: checked where
  "checked_init = \<lparr> base = init, clk = (\<lambda>t u. if u = t then 1 else 0), m_clk = (\<lambda>_. 0),
     r_clk = (\<lambda>_. 0), w_clk = (\<lambda>_. 0) \<rparr>"

fun reads_cnt :: "pc \<Rightarrow> bool" where
  "reads_cnt Test = True" | "reads_cnt Print = True" | "reads_cnt Load = True" | "reads_cnt Say = True"
| "reads_cnt While = True" | "reads_cnt _ = False"

definition before :: "clock \<Rightarrow> clock \<Rightarrow> bool" where
  "before c d \<longleftrightarrow> c Func1 \<le> d Func1 \<and> c Func2 \<le> d Func2"

definition races :: "tid \<Rightarrow> checked \<Rightarrow> bool" where
  "races t s \<longleftrightarrow>
     reads_cnt (pcs (base s) t) \<and> \<not> before (w_clk s) (clk s t)
     \<or> pcs (base s) t = Store \<and> \<not> (before (w_clk s) (clk s t) \<and> before (r_clk s) (clk s t))"

text \<open>The clocks after a step of thread \<open>t\<close>.\<close>

definition tick :: "tid \<Rightarrow> checked \<Rightarrow> checked" where
  "tick t s =
     (case pcs (base s) t of
        Lock \<Rightarrow> s\<lparr>clk := (clk s)(t := \<lambda>u. max (clk s t u) (m_clk s u))\<rparr>
      | Unlock \<Rightarrow> s\<lparr>m_clk := clk s t, clk := (clk s)(t := (clk s t)(t := Suc (clk s t t)))\<rparr>
      | Store \<Rightarrow> s\<lparr>w_clk := (w_clk s)(t := clk s t t)\<rparr>
      | Done \<Rightarrow> s
      | _ \<Rightarrow> s\<lparr>r_clk := (r_clk s)(t := clk s t t)\<rparr>)"

definition func_checked :: "tid \<Rightarrow> checked \<Rightarrow> checked cres option" where
  "func_checked t s =
     (if races t s then Some (Inl DataRace)
      else case (case t of Func1 \<Rightarrow> func1 | Func2 \<Rightarrow> func2) (base s) of
             None \<Rightarrow> None
           | Some r \<Rightarrow> Some (bindE r (\<lambda>b. Inr ((tick t s)\<lparr>base := b\<rparr>))))"

inductive checked_step :: "checked \<Rightarrow> checked \<Rightarrow> bool" where
  checked: "func_checked t s = Some (Inr s') \<Longrightarrow> checked_step s s'"

inductive_simps checked_step_iff: "checked_step s s'"

text \<open>Up to the first undefined step the threads run as \<open>func_step\<close> says.\<close>

lemma func_checked_base:
  assumes "func_checked t s = Some (Inr s')"
  shows "func_step t (base s) = Some (Inr (base s'))" and "\<not> races t s"
  using assms
  by (auto simp: func_checked_def func1_def func2_def bindE_eq_Inr split: if_splits option.splits tid.splits)

lemma checked_step_base: "checked_step\<^sup>*\<^sup>* s s' \<Longrightarrow> step\<^sup>*\<^sup>* (base s) (base s')"
proof (induction rule: rtranclp_induct)
  case (step u v)
  then have "step (base u) (base v)"
    by (auto simp: checked_step_iff intro: step.step dest: func_checked_base(1))
  with step.IH show ?case by (rule rtranclp.rtrancl_into_rtrancl)
qed simp

section \<open>All runs without undefined behaviour\<close>

text \<open>The values in the order in which they are printed.\<close>

definition vals :: "state \<Rightarrow> (tid \<times> int) list" where
  "vals s = concat (map (\<lambda>l. case l of Val t v \<Rightarrow> [(t, v)] | _ \<Rightarrow> []) (rev (out s)))"

definition alt_succs :: "checked \<Rightarrow> checked list" where
  "alt_succs s = concat (map (\<lambda>t. case func_checked t s of Some (Inr s') \<Rightarrow> [s'] | _ \<Rightarrow> []) [Func1, Func2])"

definition undefined_next :: "tid \<Rightarrow> checked \<Rightarrow> bool" where
  "undefined_next t s \<longleftrightarrow> (case func_checked t s of Some (Inl _) \<Rightarrow> True | _ \<Rightarrow> False)"

definition fails_as :: "c_err list \<Rightarrow> tid \<Rightarrow> checked \<Rightarrow> bool" where
  "fails_as es t s \<longleftrightarrow> (case func_checked t s of Some (Inl e) \<Rightarrow> e \<in> set es | _ \<Rightarrow> True)"

text \<open>What holds in every state: a thread that can move or is at an undefined step, no other
  errors than the two, no thread has returned, and at most the values 0 and 1 are printed.\<close>

definition alt_good :: "checked \<Rightarrow> bool" where
  "alt_good s \<longleftrightarrow> (alt_succs s = [] \<longrightarrow> undefined_next Func1 s \<or> undefined_next Func2 s)
     \<and> fails_as [MutexMisuse, DataRace] Func1 s \<and> fails_as [MutexMisuse, DataRace] Func2 s
     \<and> pcs (base s) Func1 \<noteq> Done \<and> pcs (base s) Func2 \<noteq> Done
     \<and> vals (base s) \<in> set [[], [(Func1, 0)], [(Func1, 0), (Func2, 1)]]"

lemma checked_step_succs: "checked_step s s' \<longleftrightarrow> s' \<in> set (alt_succs s)"
proof -
  have "checked_step s s' \<longleftrightarrow> func_checked Func1 s = Some (Inr s') \<or> func_checked Func2 s = Some (Inr s')"
    by (auto simp: checked_step_iff) (metis tid.exhaust)
  then show ?thesis by (auto simp: alt_succs_def split: option.splits sum.splits)
qed

lemma alt_explored: "explore alt_succs alt_good 21 checked_init"
  by code_simp

interpretation alt: explored_system checked_step checked_init alt_succs alt_good 21
  by unfold_locales (rule checked_step_succs alt_explored)+

lemma alt_good_moves:
  assumes "alt_good s"
  shows "\<exists>t. func_checked t s \<noteq> None"
proof (cases "alt_succs s")
  case Nil
  then obtain t where "undefined_next t s" using assms by (auto simp: alt_good_def)
  then show ?thesis by (auto simp: undefined_next_def split: option.splits)
next
  case (Cons u us)
  then have "checked_step s u" by (simp add: checked_step_succs)
  then show ?thesis by (auto simp: checked_step_iff)
qed

lemma alt_good_fails: "alt_good s \<Longrightarrow> func_checked t s = Some (Inl e) \<Longrightarrow> e = MutexMisuse \<or> e = DataRace"
  by (cases t) (auto simp: alt_good_def fails_as_def)

fun exec_checked :: "tid list \<Rightarrow> checked \<Rightarrow> checked option" where
  "exec_checked [] s = Some s"
| "exec_checked (t # ts) s = (case func_checked t s of Some (Inr s') \<Rightarrow> exec_checked ts s' | _ \<Rightarrow> None)"

lemma exec_checked_run: "exec_checked ts s = Some s' \<Longrightarrow> (checked_step ^^ length ts) s s'"
proof (induction ts arbitrary: s)
  case (Cons t ts)
  then obtain u where u: "func_checked t s = Some (Inr u)" "exec_checked ts u = Some s'"
    by (auto split: option.splits sum.splits)
  then have "checked_step s u" by (auto simp: checked_step_iff)
  from relpowp_Suc_I2 [OF this Cons.IH [OF u(2)]] show ?case by simp
qed simp

text \<open>After both threads have had the mutex: the first one races for the counter, the second one
  unlocks the mutex again.\<close>

lemma both_errors_run:
  "case exec_checked (replicate 9 Func1 @ replicate 12 Func2) checked_init of None \<Rightarrow> False
   | Some s \<Rightarrow> vals (base s) = [(Func1, 0), (Func2, 1)]
       \<and> (case func_checked Func1 s of Some (Inl e) \<Rightarrow> e = DataRace | _ \<Rightarrow> False)
       \<and> (case func_checked Func2 s of Some (Inl e) \<Rightarrow> e = MutexMisuse | _ \<Rightarrow> False)"
  by code_simp

section \<open>Ownership\<close>

definition unlockings :: "tid \<Rightarrow> state \<Rightarrow> nat" where
  "unlockings t s = length (filter (\<lambda>l. case l of Unlocking u _ \<Rightarrow> u = t | _ \<Rightarrow> False) (out s))"

text \<open>A thread that is past its lock owns the mutex until its first
  \<open>pthread_mutex_unlock\<close> and never again.\<close>

definition own_inv :: "state \<Rightarrow> bool" where
  "own_inv s \<longleftrightarrow> (\<forall>t. unlockings t s =
     (if pcs s t = Lock \<or> cnt_m s = Some t then 0 else 1) + (if pcs s t = Unlock then 1 else 0))
     \<and> (\<forall>t. cnt_m s = Some t \<longrightarrow> pcs s t \<noteq> Lock)"

lemma own_keep:
  assumes "own_inv s" and "pcs s t \<notin> {Lock, Unlock}" and "p \<notin> {Lock, Unlock}"
    and "cnt_m s' = cnt_m s" and "\<And>u. unlockings u s' = unlockings u s" and "pcs s' = (pcs s)(t := p)"
  shows "own_inv s'"
  using assms by (simp add: own_inv_def)

lemma own_func_step:
  assumes "func_step t s = Some (Inr s')" and "own_inv s"
  shows "own_inv s'"
proof (cases "pcs s t")
  case Store
  then obtain c where "s' = at (s\<lparr>cnt_g := c\<rparr>) t While"
    using assms(1) by (auto simp: func_step_def bindE_eq_Inr)
  with Store show ?thesis by (intro own_keep [OF assms(2), of t "pcs s' t"]) (simp_all add: at_def unlockings_def)
next
  case Unlock
  then have o: "cnt_m s = Some t" and s': "s' = at (s\<lparr>cnt_m := None\<rparr>) t While"
    using assms(1) by (simp_all add: func_step_def split: if_splits)
  have "unlockings u s' = unlockings u s" for u by (simp add: s' unlockings_def)
  moreover have "cnt_m s = Some u \<longleftrightarrow> u = t" for u using o by auto
  ultimately show ?thesis using assms(2) Unlock by (simp add: own_inv_def s')
next
  case Lock
  then have o: "cnt_m s = None" and s': "s' = at (s\<lparr>cnt_m := Some t\<rparr>) t Test"
    using assms(1) by (simp_all add: func_step_def split: if_splits)
  have "unlockings u s' = unlockings u s" for u by (simp add: s' unlockings_def)
  with o Lock assms(2) show ?thesis by (simp add: own_inv_def s')
next
  case Say
  then have s': "s' = at (s\<lparr>out := Unlocking t (cnt_g s) # out s\<rparr>) t Unlock"
    using assms(1) by (simp add: func_step_def)
  have "unlockings u s' = unlockings u s + (if u = t then 1 else 0)" for u
    by (auto simp: s' unlockings_def)
  with Say assms(2) show ?thesis by (simp add: own_inv_def s')
next
  case Test
  with assms(1) show ?thesis
    by (intro own_keep [OF assms(2), of t "pcs s' t"]) (auto simp: func_step_def at_def unlockings_def split: if_splits)
next
  case Print
  with assms(1) show ?thesis
    by (intro own_keep [OF assms(2), of t "pcs s' t"]) (auto simp: func_step_def at_def unlockings_def split: if_splits)
next
  case Load
  with assms(1) show ?thesis
    by (intro own_keep [OF assms(2), of t "pcs s' t"]) (auto simp: func_step_def at_def unlockings_def split: if_splits)
next
  case While
  with assms(1) show ?thesis
    by (intro own_keep [OF assms(2), of t "pcs s' t"]) (auto simp: func_step_def at_def unlockings_def split: if_splits)
qed (use assms(1) in \<open>simp add: func_step_def\<close>)

interpretation own: thread_system step init own_inv
proof
  show "own_inv init" by (simp add: own_inv_def init_def unlockings_def)
  show "own_inv s \<Longrightarrow> step s s' \<Longrightarrow> own_inv s'" for s s' using own_func_step by (auto elim: stepE)
qed

lemma second_unlock_run:
  "case exec (replicate 12 Func1) init of None \<Rightarrow> False
   | Some s \<Rightarrow> pcs s Func1 = Unlock \<and> unlockings Func1 s = 2 \<and> cnt_g s = 1"
  by code_simp

section \<open>The main function\<close>

definition alt_main :: "tid main_op list" where
  "alt_main = [Create Func1, Create Func2, Join Func1, Join Func2]"

definition alt_program :: "(checked, tid) program" where
  "alt_program = \<lparr>
     thread_body = (\<lambda>t s. case func_checked t s of Some (Inr s') \<Rightarrow> Some s' | _ \<Rightarrow> None),
     returned = (\<lambda>s t. pcs (base s) t = Done), unlocked = (\<lambda>s. cnt_m (base s) = None), unawaited = (\<lambda>s. True),
     start = checked_init, main_ops = alt_main \<rparr>"

lemma alt_program_simps [simp]:
  "thread_body alt_program t s = Some s' \<longleftrightarrow> func_checked t s = Some (Inr s')"
  "returned alt_program s t \<longleftrightarrow> pcs (base s) t = Done"
  "start alt_program = checked_init" "main_ops alt_program = alt_main"
  by (auto simp: alt_program_def split: option.splits sum.splits)

lemma func_step_done: "func_step u s = Some (Inr s') \<Longrightarrow> pcs s t = Done \<Longrightarrow> pcs s' t = Done"
  by (cases "pcs s u") (auto simp: func_step_def bindE_eq_Inr split: if_splits)

interpretation alt_joined: joined_program alt_program
proof
  show "returned alt_program s t \<Longrightarrow> thread_body alt_program u s = Some s' \<Longrightarrow> returned alt_program s' t" for s t u s'
    by (auto intro: func_step_done dest: func_checked_base(1))
qed

lemma thread_steps_alt: "thread_steps alt_program = checked_step"
  by (auto simp: thread_steps_def fun_eq_iff checked_step_iff)

section \<open>Properties\<close>

text \<open>C30. Undefined behaviour is unavoidable: as long as none has happened, at most 21 steps are
  made, the program is not stuck, no thread function has returned, and the values printed are
  none, 0, or 0 and 1; the next step of a thread is undefined only by a misuse of the mutex or a
  data race on the counter, and such a step can always be reached.  A run can end in no other way.\<close>

theorem mutex_alt_doomed:
  assumes "(checked_step ^^ n) checked_init s"
  shows "n \<le> 21 \<and> (\<exists>t. func_checked t s \<noteq> None) \<and> pcs (base s) t \<noteq> Done
    \<and> vals (base s) \<in> {[], [(Func1, 0)], [(Func1, 0), (Func2, 1)]}
    \<and> (func_checked t s = Some (Inl e) \<longrightarrow> e = MutexMisuse \<or> e = DataRace)
    \<and> (\<exists>s' t e. checked_step\<^sup>*\<^sup>* s s' \<and> func_checked t s' = Some (Inl e))"
proof -
  have n: "n \<le> 21" and x: "explore alt_succs alt_good (21 - n) s" using alt.run_explored [OF assms] by auto
  have good: "alt_good s" using explore_good [OF x] .
  obtain s' where s': "checked_step\<^sup>*\<^sup>* s s'" "alt_good s'" "alt_succs s' = []"
    using alt.ends_somewhere [OF x] by blast
  then obtain u where "undefined_next u s'" by (auto simp: alt_good_def)
  with s'(1) have "\<exists>s' t e. checked_step\<^sup>*\<^sup>* s s' \<and> func_checked t s' = Some (Inl e)"
    by (auto simp: undefined_next_def split: option.splits sum.splits)
  moreover have "pcs (base s) t \<noteq> Done" using good by (cases t) (simp_all add: alt_good_def)
  moreover have "vals (base s) \<in> {[], [(Func1, 0)], [(Func1, 0), (Func2, 1)]}" using good by (simp add: alt_good_def)
  ultimately show ?thesis using n alt_good_moves [OF good] alt_good_fails [OF good] by blast
qed

theorem mutex_alt_doomed_witness:
  "\<exists>s. (checked_step ^^ 21) checked_init s \<and> vals (base s) = [(Func1, 0), (Func2, 1)]
    \<and> func_checked Func1 s = Some (Inl DataRace) \<and> func_checked Func2 s = Some (Inl MutexMisuse)
    \<and> pcs (base s) Func1 \<noteq> Done \<and> (21 :: nat) \<le> 21"
proof -
  obtain s where s: "exec_checked (replicate 9 Func1 @ replicate 12 Func2) checked_init = Some s"
    "vals (base s) = [(Func1, 0), (Func2, 1)]"
    "func_checked Func1 s = Some (Inl DataRace)" "func_checked Func2 s = Some (Inl MutexMisuse)"
    using both_errors_run by (auto split: option.splits sum.splits)
  then have "(checked_step ^^ 21) checked_init s" using exec_checked_run [OF s(1)] by simp
  with mutex_alt_doomed [OF this, of Func1 DataRace] s(2-) show ?thesis by blast
qed

text \<open>\<open>main\<close> does not get past its joins, whichever threads could be created.\<close>

theorem alt_main_never_returns:
  assumes "(process_step alt_program ok)\<^sup>*\<^sup>* (launch alt_program) p"
  shows "ops p \<noteq> []"
proof
  assume "ops p = []"
  note joined = alt_joined.joined_all [OF assms this]
  have "pcs (base (threads p)) Func1 = Done" using joined(1) [of Func1] by (simp add: alt_main_def)
  moreover obtain n where "(checked_step ^^ n) checked_init (threads p)"
    using joined(2) rtranclp_imp_relpowp [of checked_step] by (auto simp: thread_steps_alt)
  from explore_good [OF conjunct2 [OF alt.run_explored [OF this]]] have "alt_good (threads p)" .
  ultimately show False by (simp add: alt_good_def)
qed

text \<open>C32. Over all interleavings up to the first misuse of the mutex (\<open>step\<close> goes on after a data
  race): a thread that comes to \<open>pthread_mutex_unlock\<close> a second time unlocks a mutex that it
  does not own; this is exactly when the program misuses the mutex.\<close>

theorem second_unlock_undefined:
  assumes "step\<^sup>*\<^sup>* init s"
  shows "func_step t s = Some (Inl MutexMisuse) \<longleftrightarrow> pcs s t = Unlock \<and> unlockings t s = 2"
proof -
  have "unlockings t s = (if pcs s t = Lock \<or> cnt_m s = Some t then 0 else 1) + (if pcs s t = Unlock then 1 else 0)"
    using own.inv_reachable [OF assms] by (simp add: own_inv_def)
  then show ?thesis
    by (cases "pcs s t") (auto simp: func_step_def add32_def)
qed

theorem second_unlock_undefined_witness:
  "\<exists>s. exec (replicate 12 Func1) init = Some s \<and> cnt_g s = 1
    \<and> func_step Func1 s = Some (Inl MutexMisuse)"
proof -
  obtain s where s: "exec (replicate 12 Func1) init = Some s"
    "pcs s Func1 = Unlock" "unlockings Func1 s = 2" "cnt_g s = 1"
    using second_unlock_run by (auto split: option.splits)
  from second_unlock_undefined [OF alt_exec_reaches [OF s(1)], of Func1] s show ?thesis by blast
qed

end
