(* ===== verification/Sem_Problem.thy ===== *)
theory Sem_Problem
  imports Threads
begin

text \<open>
  \<open>mutex_sempaphores/sem_problem.c\<close>: six producers count themselves under a mutex and wait on a
  condition variable; the sixth one posts a semaphore, on which the consumer waits to set the
  count back and to wake all of them.  A step of a thread is one call of the library, or the
  accesses to \<open>count\<close> and the lines printed between two calls, at a program counter named after
  it.  \<open>step\<close> wakes a waiting thread by \<open>pthread_cond_broadcast\<close> only, \<open>step_any\<close> adds
  the spurious wake-ups of POSIX.  \<open>main\<close> is modelled as the sequence of its calls.  \<open>count\<close> is
  an unbounded integer: without spurious wake-ups it stays between 0 and 6 (\<open>barrier_bounds\<close>).
\<close>

section \<open>State\<close>

datatype thread = Producer nat | Consumer

datatype ppc =
    P_lock     \<comment> \<open>\<open>pthread_mutex_lock\<close>\<close>
  | P_count    \<comment> \<open>\<open>count++\<close> and the line that shows it\<close>
  | P_test     \<comment> \<open>\<open>if(count == 6)\<close>\<close>
  | P_post     \<comment> \<open>\<open>sem_post\<close>\<close>
  | P_wait     \<comment> \<open>the call of \<open>pthread_cond_wait\<close>\<close>
  | P_blocked  \<comment> \<open>blocked in \<open>pthread_cond_wait\<close>, the mutex is released\<close>
  | P_woken    \<comment> \<open>woken up in \<open>pthread_cond_wait\<close>, needs the mutex\<close>
  | P_unlock   \<comment> \<open>\<open>pthread_mutex_unlock\<close>\<close>

datatype cpc = C_wait | C_lock | C_reset | C_broadcast | C_unlock

datatype line =
    Count_line nat int | Signalling_consumer | Waiting_line nat
  | In_consumer | Reinit_count | Signalling_cond

record state =
  c_sem :: nat
  count :: int
  mutex1 :: "thread option"
  ppcs :: "nat \<Rightarrow> ppc"
  cpcs :: cpc
  out :: "line list"   \<comment> \<open>the last line first\<close>

definition init :: state where
  "init = \<lparr> c_sem = 0, count = 0, mutex1 = None, ppcs = (\<lambda>_. P_lock), cpcs = C_wait, out = [] \<rparr>"

text \<open>The loop of \<open>main\<close> creates the producers 0 to 5.\<close>

definition NPROD :: nat where "NPROD = 6"

section \<open>Steps\<close>

definition p_at :: "state \<Rightarrow> nat \<Rightarrow> ppc \<Rightarrow> state" where
  "p_at s n p = s\<lparr>ppcs := (ppcs s)(n := p)\<rparr>"

definition c_at :: "state \<Rightarrow> cpc \<Rightarrow> state" where
  "c_at s p = s\<lparr>cpcs := p\<rparr>"

definition print :: "state \<Rightarrow> line \<Rightarrow> state" where
  "print s l = s\<lparr>out := l # out s\<rparr>"

text \<open>One step of a producer, \<open>None\<close> when it is blocked.\<close>

definition producer_thread :: "nat \<Rightarrow> state \<Rightarrow> state option" where
  "producer_thread n s =
     (case ppcs s n of
        P_lock \<Rightarrow>
          if mutex1 s = None then Some (p_at (s\<lparr>mutex1 := Some (Producer n)\<rparr>) n P_count) else None
      | P_count \<Rightarrow>
          Some (p_at (print (s\<lparr>count := count s + 1\<rparr>) (Count_line n (count s + 1))) n P_test)
      | P_test \<Rightarrow> Some (p_at s n (if count s = 6 then P_post else P_wait))
      | P_post \<Rightarrow> Some (p_at (print (s\<lparr>c_sem := c_sem s + 1\<rparr>) Signalling_consumer) n P_wait)
      | P_wait \<Rightarrow> Some (p_at (print (s\<lparr>mutex1 := None\<rparr>) (Waiting_line n)) n P_blocked)
      | P_blocked \<Rightarrow> None
      | P_woken \<Rightarrow>
          if mutex1 s = None then Some (p_at (s\<lparr>mutex1 := Some (Producer n)\<rparr>) n P_unlock) else None
      | P_unlock \<Rightarrow> Some (p_at (s\<lparr>mutex1 := None\<rparr>) n P_lock))"

fun wake :: "ppc \<Rightarrow> ppc" where
  "wake P_blocked = P_woken"
| "wake p = p"

definition broadcast :: "state \<Rightarrow> state" where
  "broadcast s = s\<lparr>ppcs := (\<lambda>n. wake (ppcs s n))\<rparr>"

definition consumer_thread :: "state \<Rightarrow> state option" where
  "consumer_thread s =
     (case cpcs s of
        C_wait \<Rightarrow>
          if 0 < c_sem s then Some (c_at (print (s\<lparr>c_sem := c_sem s - 1\<rparr>) In_consumer) C_lock) else None
      | C_lock \<Rightarrow>
          if mutex1 s = None then Some (c_at (s\<lparr>mutex1 := Some Consumer\<rparr>) C_reset) else None
      | C_reset \<Rightarrow> Some (c_at (print (s\<lparr>count := 0\<rparr>) Reinit_count) C_broadcast)
      | C_broadcast \<Rightarrow> Some (c_at (broadcast (print s Signalling_cond)) C_unlock)
      | C_unlock \<Rightarrow> Some (c_at (s\<lparr>mutex1 := None\<rparr>) C_wait))"

fun thread_step :: "thread \<Rightarrow> state \<Rightarrow> state option" where
  "thread_step (Producer n) s = (if n < NPROD then producer_thread n s else None)"
| "thread_step Consumer s = consumer_thread s"

inductive step :: "state \<Rightarrow> state \<Rightarrow> bool" where
  step: "thread_step t s = Some s' \<Longrightarrow> step s s'"

inductive step_any :: "state \<Rightarrow> state \<Rightarrow> bool" where
  regular: "step s s' \<Longrightarrow> step_any s s'"
| spurious: "ppcs s n = P_blocked \<Longrightarrow> step_any s (p_at s n P_woken)"

inductive_cases stepE: "step s s'"

text \<open>Runs that are given by a schedule.\<close>

datatype event = Run thread | Spurious nat

fun exec :: "event list \<Rightarrow> state \<Rightarrow> state option" where
  "exec [] s = Some s"
| "exec (Run t # es) s = (case thread_step t s of None \<Rightarrow> None | Some s' \<Rightarrow> exec es s')"
| "exec (Spurious n # es) s = (if ppcs s n = P_blocked then exec es (p_at s n P_woken) else None)"

section \<open>The main function\<close>

text \<open>The arguments are the return values of \<open>sem_init\<close> and of the calls of
  \<open>pthread_create\<close>, which reports an error by a positive number; a successful call stores the
  identifier of the thread, here its number, in the array.\<close>

function create_loop :: "(nat \<Rightarrow> int) \<Rightarrow> nat \<Rightarrow> nat option list \<Rightarrow> int \<Rightarrow> (nat option list \<times> int) cres" where
  "create_loop create i prod_thread ret_val =
     (if i \<le> 5 then
        bindE (if create i = 0 then wr prod_thread i (Some i) else Inr prod_thread) (\<lambda>prod_thread.
        create_loop create (i + 1) prod_thread (if create i = -1 then -1 else ret_val))
      else Inr (prod_thread, ret_val))"
  by pat_completeness auto

termination
  by (relation "measure (\<lambda>(_, i, _). 6 - i)") auto

declare create_loop.simps [simp del]

text \<open>\<open>main\<close> up to its first \<open>pthread_join\<close>, on the consumer, with the value of \<open>ret_val\<close>
  there; neither \<open>consumer_thread\<close> (for a semaphore that works) nor \<open>producer_thread\<close>
  returns, so \<open>main\<close> does not get past it.\<close>

definition sem_problem_main :: "int \<Rightarrow> (nat \<Rightarrow> int) \<Rightarrow> int \<Rightarrow> (thread \<times> int) cres" where
  "sem_problem_main sem_init create create_cons =
     bindE (create_loop create 0 (replicate 5 None) (if sem_init = -1 then -1 else 0)) (\<lambda>(prod_thread, ret_val).
     let ret_val = (if create_cons = -1 then -1 else ret_val) in
     if create_cons = 0 then Inr (Consumer, ret_val) else Inl Uninit)"

section \<open>Invariant\<close>

text \<open>The program points at which a producer owns the mutex, and those between its increment
  and its next wake-up.\<close>

fun p_holds :: "ppc \<Rightarrow> bool" where
  "p_holds P_lock = False" | "p_holds P_blocked = False" | "p_holds P_woken = False"
| "p_holds _ = True"

fun c_holds :: "cpc \<Rightarrow> bool" where
  "c_holds C_wait = False" | "c_holds C_lock = False" | "c_holds _ = True"

fun arrived :: "ppc \<Rightarrow> bool" where
  "arrived P_test = True" | "arrived P_post = True" | "arrived P_wait = True"
| "arrived P_blocked = True" | "arrived _ = False"

text \<open>The number of lines a producer has printed with a count, and of broadcasts.\<close>

definition passes :: "nat \<Rightarrow> state \<Rightarrow> nat" where
  "passes n s = length (filter (\<lambda>l. case l of Count_line k _ \<Rightarrow> k = n | _ \<Rightarrow> False) (out s))"

definition rounds :: "state \<Rightarrow> nat" where
  "rounds s = length (filter (\<lambda>l. l = Signalling_cond) (out s))"

text \<open>The counts in the order in which they are printed.\<close>

definition counts :: "state \<Rightarrow> int list" where
  "counts s = concat (map (\<lambda>l. case l of Count_line _ c \<Rightarrow> [c] | _ \<Rightarrow> []) (rev (out s)))"

definition mutex_inv :: "state \<Rightarrow> bool" where
  "mutex_inv s \<longleftrightarrow> (\<forall>n. p_holds (ppcs s n) \<longleftrightarrow> mutex1 s = Some (Producer n))
     \<and> (c_holds (cpcs s) \<longleftrightarrow> mutex1 s = Some Consumer)"

text \<open>The count is the number of producers that have arrived, except between the reset and the
  broadcast, when all of them are blocked.  The semaphore has been posted and not yet answered
  exactly when all have arrived and the last one has called \<open>sem_post\<close>.\<close>

definition count_inv :: "state \<Rightarrow> bool" where
  "count_inv s \<longleftrightarrow>
     (if cpcs s = C_broadcast then count s = 0 \<and> (\<forall>n<NPROD. ppcs s n = P_blocked)
      else count s = int (tally NPROD arrived (ppcs s)))
     \<and> (\<forall>n. ppcs s n = P_post \<longrightarrow> count s = 6)"

definition sem_inv :: "state \<Rightarrow> bool" where
  "sem_inv s \<longleftrightarrow> c_sem s + (if cpcs s \<in> {C_lock, C_reset} then 1 else 0)
     = (if count s = 6 \<and> (\<forall>n. ppcs s n \<notin> {P_test, P_post}) then 1 else 0)"

definition out_inv :: "state \<Rightarrow> bool" where
  "out_inv s \<longleftrightarrow> (\<forall>n<NPROD. passes n s = rounds s + (if arrived (ppcs s n) then 1 else 0))
     \<and> (\<exists>m. counts s = map (\<lambda>i. int (i mod 6) + 1) [0..<m]
            \<and> m = 6 * rounds s + (if cpcs s = C_broadcast then 6 else nat (count s)))"

definition inv :: "state \<Rightarrow> bool" where
  "inv s \<longleftrightarrow> mutex_inv s \<and> count_inv s \<and> sem_inv s \<and> out_inv s \<and> (\<forall>n\<ge>NPROD. ppcs s n = P_lock)"

lemmas barrier_state_simps [simp] = p_at_def c_at_def print_def broadcast_def

lemma barrier_step_cases [consumes 1, case_names P_lock P_count P_test P_post P_wait P_woken P_unlock
    C_wait C_lock C_reset C_broadcast C_unlock]:
  assumes "thread_step t s = Some s'"
  obtains n where "n < NPROD" "ppcs s n = P_lock" "mutex1 s = None"
      "s' = p_at (s\<lparr>mutex1 := Some (Producer n)\<rparr>) n P_count"
  | n where "n < NPROD" "ppcs s n = P_count"
      "s' = p_at (print (s\<lparr>count := count s + 1\<rparr>) (Count_line n (count s + 1))) n P_test"
  | n where "n < NPROD" "ppcs s n = P_test" "s' = p_at s n (if count s = 6 then P_post else P_wait)"
  | n where "n < NPROD" "ppcs s n = P_post"
      "s' = p_at (print (s\<lparr>c_sem := c_sem s + 1\<rparr>) Signalling_consumer) n P_wait"
  | n where "n < NPROD" "ppcs s n = P_wait"
      "s' = p_at (print (s\<lparr>mutex1 := None\<rparr>) (Waiting_line n)) n P_blocked"
  | n where "n < NPROD" "ppcs s n = P_woken" "mutex1 s = None"
      "s' = p_at (s\<lparr>mutex1 := Some (Producer n)\<rparr>) n P_unlock"
  | n where "n < NPROD" "ppcs s n = P_unlock" "s' = p_at (s\<lparr>mutex1 := None\<rparr>) n P_lock"
  | "cpcs s = C_wait" "0 < c_sem s" "s' = c_at (print (s\<lparr>c_sem := c_sem s - 1\<rparr>) In_consumer) C_lock"
  | "cpcs s = C_lock" "mutex1 s = None" "s' = c_at (s\<lparr>mutex1 := Some Consumer\<rparr>) C_reset"
  | "cpcs s = C_reset" "s' = c_at (print (s\<lparr>count := 0\<rparr>) Reinit_count) C_broadcast"
  | "cpcs s = C_broadcast" "s' = c_at (broadcast (print s Signalling_cond)) C_unlock"
  | "cpcs s = C_unlock" "s' = c_at (s\<lparr>mutex1 := None\<rparr>) C_wait"
proof (cases t)
  case (Producer n)
  with assms that show ?thesis
    by (cases "ppcs s n") (auto simp: producer_thread_def split: if_splits)
next
  case Consumer
  with assms that show ?thesis
    by (cases "cpcs s") (auto simp: consumer_thread_def split: if_splits)
qed

lemma barrier_wake_simps [simp]:
  "p_holds (wake p) \<longleftrightarrow> p_holds p" "wake p = P_post \<longleftrightarrow> p = P_post" "wake p = P_test \<longleftrightarrow> p = P_test"
  by (cases p; simp)+

lemma mutex_inv_owner:
  assumes "mutex_inv s" and "p_holds (ppcs s n)"
  shows "mutex1 s = Some (Producer n)" and "p_holds (ppcs s k) \<longleftrightarrow> k = n" and "\<not> c_holds (cpcs s)"
  using assms by (auto simp: mutex_inv_def)

lemma mutex_inv_consumer:
  assumes "mutex_inv s" and "c_holds (cpcs s)"
  shows "mutex1 s = Some Consumer" and "\<not> p_holds (ppcs s n)"
  using assms by (auto simp: mutex_inv_def)

lemma mutex_step:
  assumes "thread_step t s = Some s'" and "mutex_inv s"
  shows "mutex_inv s'"
  using assms(1)
proof (cases rule: barrier_step_cases)
  case (P_test n)
  with mutex_inv_owner(1) [OF assms(2), of n] assms(2) show ?thesis by (simp add: mutex_inv_def)
next
  case (P_wait n)
  with mutex_inv_owner [OF assms(2), of n] assms(2) show ?thesis by (simp add: mutex_inv_def)
next
  case (P_unlock n)
  with mutex_inv_owner [OF assms(2), of n] assms(2) show ?thesis by (simp add: mutex_inv_def)
next
  case C_broadcast
  then have "\<forall>n. \<not> p_holds (ppcs s n)" using mutex_inv_consumer [OF assms(2)] by simp
  with C_broadcast assms(2) show ?thesis by (simp add: mutex_inv_def)
next
  case (P_count n)
  with mutex_inv_owner(1) [OF assms(2), of n] assms(2) show ?thesis by (simp add: mutex_inv_def)
next
  case (P_post n)
  with mutex_inv_owner(1) [OF assms(2), of n] assms(2) show ?thesis by (simp add: mutex_inv_def)
qed (use assms(2) in \<open>simp_all add: mutex_inv_def\<close>)

text \<open>When the consumer sets the count back, all producers are blocked.\<close>

lemma reset_all_blocked:
  assumes "mutex_inv s" and "count_inv s" and "sem_inv s" and "cpcs s = C_reset" and "n < NPROD"
  shows "ppcs s n = P_blocked"
proof -
  have "count s = 6" using assms(3, 4) by (simp add: sem_inv_def split: if_splits)
  then have "tally NPROD arrived (ppcs s) = NPROD" using assms(2, 4) by (simp add: count_inv_def NPROD_def)
  then have "arrived (ppcs s n)" using assms(5) tally_all by blast
  moreover have "\<not> p_holds (ppcs s n)" using mutex_inv_consumer(2) [OF assms(1)] assms(4) by simp
  ultimately show ?thesis by (cases "ppcs s n") auto
qed

lemma post_unique:
  assumes "mutex_inv s" and "p_holds (ppcs s n)" and "k \<noteq> n"
  shows "ppcs s k \<noteq> P_post" and "ppcs s k \<noteq> P_test"
  using mutex_inv_owner(2) [OF assms(1, 2), of k] assms(3) by auto

lemma count_keep:
  assumes "count_inv s" and "\<not> c_holds (cpcs s)" and "arrived p \<longleftrightarrow> arrived (ppcs s n)"
    and "p = P_post \<longrightarrow> count s = 6"
    and "count s' = count s" and "cpcs s' = cpcs s" and "ppcs s' = (ppcs s)(n := p)"
  shows "count_inv s'"
proof -
  have "cpcs s \<noteq> C_broadcast" using assms(2) by auto
  with assms show ?thesis by (auto simp: count_inv_def tally_upd_same)
qed

lemma producer_moves:
  assumes "mutex_inv s" and "p_holds (ppcs s n) \<or> mutex1 s = None"
  shows "\<not> c_holds (cpcs s)"
  using assms by (auto simp: mutex_inv_def)

lemma count_step:
  assumes "thread_step t s = Some s'" and "mutex_inv s" and "count_inv s" and "sem_inv s"
  shows "count_inv s'"
  using assms(1)
proof (cases rule: barrier_step_cases)
  case (P_count n)
  then have "cpcs s \<noteq> C_broadcast" using producer_moves [OF assms(2), of n] by auto
  moreover have "\<forall>k. ppcs s k \<noteq> P_post"
  proof
    fix k
    show "ppcs s k \<noteq> P_post" using post_unique(1) [OF assms(2), of n k] P_count by (cases "k = n") simp_all
  qed
  moreover have "tally NPROD arrived ((ppcs s)(n := P_test)) = Suc (tally NPROD arrived (ppcs s))"
    using P_count by (intro tally_upd_new) simp_all
  ultimately show ?thesis using P_count assms(3) by (simp add: count_inv_def)
next
  case C_reset
  then have "\<not> ppcs s n = P_post" for n using mutex_inv_consumer(2) [OF assms(2), of n] by auto
  with C_reset reset_all_blocked [OF assms(2-4)] show ?thesis by (simp add: count_inv_def)
next
  case C_broadcast
  then have "\<not> ppcs s n = P_post" for n using mutex_inv_consumer(2) [OF assms(2), of n] by auto
  moreover have "tally NPROD arrived (\<lambda>n. wake (ppcs s n)) = 0"
    using C_broadcast assms(3) by (intro tally_none) (simp add: count_inv_def)
  ultimately show ?thesis using C_broadcast assms(3) by (simp add: count_inv_def)
next
  case (P_lock n)
  with producer_moves [OF assms(2), of n] show ?thesis by (intro count_keep [OF assms(3)]) simp_all
next
  case (P_test n)
  with producer_moves [OF assms(2), of n] show ?thesis by (intro count_keep [OF assms(3)]) simp_all
next
  case (P_post n)
  with producer_moves [OF assms(2), of n] show ?thesis by (intro count_keep [OF assms(3)]) simp_all
next
  case (P_wait n)
  with producer_moves [OF assms(2), of n] show ?thesis by (intro count_keep [OF assms(3)]) simp_all
next
  case (P_woken n)
  with producer_moves [OF assms(2), of n] show ?thesis by (intro count_keep [OF assms(3)]) simp_all
next
  case (P_unlock n)
  with producer_moves [OF assms(2), of n] show ?thesis by (intro count_keep [OF assms(3)]) simp_all
qed (use assms(3) in \<open>auto simp: count_inv_def\<close>)

lemma sem_keep:
  assumes "sem_inv s" and "p \<in> {P_test, P_post} \<longleftrightarrow> ppcs s n \<in> {P_test, P_post}"
    and "c_sem s' = c_sem s" and "count s' = count s" and "cpcs s' = cpcs s"
    and "ppcs s' = (ppcs s)(n := p)"
  shows "sem_inv s'"
proof -
  have "(\<forall>k. ppcs s' k \<notin> {P_test, P_post}) \<longleftrightarrow> (\<forall>k. ppcs s k \<notin> {P_test, P_post})"
    using assms(2, 6) by (metis fun_upd_apply)
  with assms(1) show ?thesis unfolding sem_inv_def assms(3-5) by simp
qed

lemma sem_step:
  assumes "thread_step t s = Some s'" and "mutex_inv s" and "count_inv s" and "sem_inv s"
  shows "sem_inv s'"
  using assms(1)
proof (cases rule: barrier_step_cases)
  case (P_count n)
  then have "cpcs s \<noteq> C_broadcast" using producer_moves [OF assms(2), of n] by auto
  then have "count s < 6"
    using assms(3) tally_less [of n NPROD arrived "ppcs s"] P_count by (simp add: count_inv_def NPROD_def)
  with P_count assms(4) show ?thesis by (auto simp: sem_inv_def split: if_splits)
next
  case (P_test n)
  show ?thesis
  proof (cases "count s = 6")
    case True
    with P_test show ?thesis by (intro sem_keep [OF assms(4), of P_post n]) simp_all
  next
    case False
    with P_test assms(4) show ?thesis by (auto simp: sem_inv_def split: if_splits)
  qed
next
  case (P_post n)
  then have "count s = 6" using assms(3) by (auto simp: count_inv_def)
  moreover have "(\<exists>k. ppcs s k = P_test \<or> ppcs s k = P_post)" using P_post by blast
  moreover have "\<forall>k. k \<noteq> n \<longrightarrow> ppcs s k \<noteq> P_test \<and> ppcs s k \<noteq> P_post"
    using post_unique [OF assms(2), of n] P_post by simp
  ultimately show ?thesis using P_post(3) assms(4) by (auto simp: sem_inv_def split: if_splits)
next
  case (P_lock n)
  then show ?thesis by (intro sem_keep [OF assms(4), of P_count n]) simp_all
next
  case (P_wait n)
  then show ?thesis by (intro sem_keep [OF assms(4), of P_blocked n]) simp_all
next
  case (P_woken n)
  then show ?thesis by (intro sem_keep [OF assms(4), of P_unlock n]) simp_all
next
  case (P_unlock n)
  then show ?thesis by (intro sem_keep [OF assms(4), of P_lock n]) simp_all
qed (use assms(4) in \<open>auto simp: sem_inv_def split: if_splits\<close>)

lemmas out_defs = passes_def rounds_def counts_def

lemma barrier_out_keep:
  assumes "out_inv s" and "arrived p \<longleftrightarrow> arrived (ppcs s n)" and "\<not> c_holds (cpcs s)"
    and "count s' = count s" and "cpcs s' = cpcs s" and "ppcs s' = (ppcs s)(n := p)"
    and "\<And>k. passes k s' = passes k s" and "rounds s' = rounds s" and "counts s' = counts s"
  shows "out_inv s'"
  using assms by (auto simp: out_inv_def)

lemma out_step_count:
  assumes "mutex_inv s" and "count_inv s" and "out_inv s" and "n < NPROD" and "ppcs s n = P_count"
  shows "out_inv (p_at (print (s\<lparr>count := count s + 1\<rparr>) (Count_line n (count s + 1))) n P_test)"
    (is "out_inv ?s")
proof -
  have c: "cpcs s \<noteq> C_broadcast" using producer_moves [OF assms(1), of n] assms(5) by auto
  obtain c where c6: "count s = int c" "c < 6"
    using assms(2) c tally_less [of n NPROD arrived "ppcs s"] assms(4, 5)
    by (simp add: count_inv_def NPROD_def)
  have "counts s = map (\<lambda>i. int (i mod 6) + 1) [0..<6 * rounds s + c]"
    using assms(3) c c6 by (auto simp: out_inv_def)
  moreover have "counts ?s = counts s @ [count s + 1]" by (simp add: counts_def)
  ultimately have "counts ?s = map (\<lambda>i. int (i mod 6) + 1) [0..<6 * rounds s + c + 1]"
    using c6 by (simp add: mod_add_left_eq)
  moreover have "rounds ?s = rounds s" and "count ?s = int (c + 1)" and "cpcs ?s = cpcs s"
    using c6 by (simp_all add: rounds_def)
  moreover have "\<forall>k<NPROD. passes k ?s = rounds s + (if arrived (ppcs ?s k) then 1 else 0)"
  proof -
    have "passes k ?s = passes k s + (if k = n then 1 else 0)" for k by (auto simp: passes_def)
    then show ?thesis using assms(3, 5) by (simp add: out_inv_def)
  qed
  ultimately show ?thesis using c unfolding out_inv_def by (auto simp: nat_add_distrib)
qed

lemma out_step:
  assumes "thread_step t s = Some s'" and "mutex_inv s" and "count_inv s" and "sem_inv s" and "out_inv s"
  shows "out_inv s'"
  using assms(1)
proof (cases rule: barrier_step_cases)
  case (P_count n)
  with out_step_count [OF assms(2, 3, 5)] show ?thesis by simp
next
  case C_reset
  then have "count s = 6" using assms(4) by (simp add: sem_inv_def split: if_splits)
  with C_reset assms(5) show ?thesis by (simp add: out_inv_def out_defs)
next
  case C_broadcast
  then have "count s = 0" and "\<forall>n<NPROD. ppcs s n = P_blocked"
    using assms(3) by (simp_all add: count_inv_def)
  then show ?thesis using C_broadcast assms(5) by (simp add: out_inv_def out_defs add.commute)
next
  case (P_lock n)
  with producer_moves [OF assms(2), of n] show ?thesis
    by (intro barrier_out_keep [OF assms(5)]) (simp_all add: out_defs)
next
  case (P_test n)
  with producer_moves [OF assms(2), of n] show ?thesis
    by (intro barrier_out_keep [OF assms(5)]) (simp_all add: out_defs)
next
  case (P_post n)
  with producer_moves [OF assms(2), of n] show ?thesis
    by (intro barrier_out_keep [OF assms(5)]) (simp_all add: out_defs)
next
  case (P_wait n)
  with producer_moves [OF assms(2), of n] show ?thesis
    by (intro barrier_out_keep [OF assms(5)]) (simp_all add: out_defs)
next
  case (P_woken n)
  with producer_moves [OF assms(2), of n] show ?thesis
    by (intro barrier_out_keep [OF assms(5)]) (simp_all add: out_defs)
next
  case (P_unlock n)
  with producer_moves [OF assms(2), of n] show ?thesis
    by (intro barrier_out_keep [OF assms(5)]) (simp_all add: out_defs)
qed (use assms(5) in \<open>simp_all add: out_inv_def out_defs\<close>)

lemma idle_step: "thread_step t s = Some s' \<Longrightarrow> NPROD \<le> n \<Longrightarrow> ppcs s n = P_lock \<Longrightarrow> ppcs s' n = P_lock"
  by (cases rule: barrier_step_cases) auto

lemma barrier_inv_step: "thread_step t s = Some s' \<Longrightarrow> inv s \<Longrightarrow> inv s'"
  using mutex_step count_step sem_step out_step idle_step by (auto simp: inv_def)

lemma init_inv: "inv init"
  by (simp add: inv_def init_def mutex_inv_def count_inv_def sem_inv_def out_inv_def out_defs tally_none)

section \<open>Progress\<close>

lemma producer_runs: "n < NPROD \<Longrightarrow> p_holds (ppcs s n) \<or> mutex1 s = None \<and> ppcs s n \<noteq> P_blocked \<Longrightarrow> \<exists>s'. step s s'"
  by (intro exI [of _ "the (thread_step (Producer n) s)"] step.step [of "Producer n"], cases "ppcs s n")
    (auto simp: producer_thread_def)

lemma consumer_runs:
  "c_holds (cpcs s) \<or> cpcs s = C_lock \<and> mutex1 s = None \<or> cpcs s = C_wait \<and> 0 < c_sem s \<Longrightarrow> \<exists>s'. step s s'"
  by (intro exI [of _ "the (thread_step Consumer s)"] step.step [of Consumer], cases "cpcs s")
    (auto simp: consumer_thread_def)

lemma no_deadlock:
  assumes "inv s"
  shows "\<exists>s'. step s s'"
proof (cases "mutex1 s")
  case (Some t)
  show ?thesis
  proof (cases t)
    case (Producer n)
    then have "p_holds (ppcs s n)" using Some assms by (simp add: inv_def mutex_inv_def)
    moreover from this have "n < NPROD" using assms by (auto simp: inv_def not_less [symmetric])
    ultimately show ?thesis using producer_runs by blast
  next
    case Consumer
    then show ?thesis using Some assms consumer_runs by (simp add: inv_def mutex_inv_def)
  qed
next
  case None
  then have free: "\<forall>n. \<not> p_holds (ppcs s n)" "\<not> c_holds (cpcs s)"
    using assms by (auto simp: inv_def mutex_inv_def)
  show ?thesis
  proof (cases "\<forall>n<NPROD. ppcs s n = P_blocked")
    case True
    then have "tally NPROD arrived (ppcs s) = NPROD" by (simp add: tally_all)
    moreover have "cpcs s \<noteq> C_broadcast" using free(2) by auto
    ultimately have "count s = 6" using assms by (simp add: inv_def count_inv_def NPROD_def)
    moreover have "ppcs s n \<notin> {P_test, P_post}" for n using free(1) by (metis insertE p_holds.simps singletonD)
    ultimately have "0 < c_sem s" if "cpcs s = C_wait"
      using assms that by (simp add: inv_def sem_inv_def)
    then show ?thesis using consumer_runs None free(2) by (metis c_holds.simps cpc.exhaust)
  qed (use None producer_runs in blast)
qed

text \<open>The work that is left until the next broadcast.\<close>

fun p_weight :: "ppc \<Rightarrow> nat" where
  "p_weight P_woken = 7" | "p_weight P_unlock = 6" | "p_weight P_lock = 5" | "p_weight P_count = 4"
| "p_weight P_test = 3" | "p_weight P_post = 2" | "p_weight P_wait = 1" | "p_weight P_blocked = 0"

fun c_weight :: "cpc \<Rightarrow> nat" where
  "c_weight C_unlock = 4" | "c_weight C_wait = 3" | "c_weight C_lock = 2" | "c_weight C_reset = 1"
| "c_weight C_broadcast = 0"

definition rest :: "state \<Rightarrow> nat" where
  "rest s = (\<Sum>n<NPROD. p_weight (ppcs s n)) + c_weight (cpcs s)"

lemma rest_le: "rest s \<le> 46"
proof -
  have "p_weight p \<le> 7" for p by (cases p) auto
  then have "(\<Sum>n<NPROD. p_weight (ppcs s n)) \<le> NPROD * 7"
    using sum_bounded_above [of "{..<NPROD}" "\<lambda>n. p_weight (ppcs s n)" 7] by simp
  moreover have "c_weight (cpcs s) \<le> 4" by (cases "cpcs s") auto
  ultimately show ?thesis by (simp add: rest_def NPROD_def)
qed

lemma rest_producer:
  assumes "n < NPROD" and "p_weight p < p_weight (ppcs s n)"
    and "ppcs s' = (ppcs s)(n := p)" and "cpcs s' = cpcs s"
  shows "rest s' < rest s"
  using sum_upd_less [of n NPROD p_weight p "ppcs s"] assms(1, 2) by (simp add: rest_def assms(3, 4))

lemma round_or_rest_step:
  assumes "thread_step t s = Some s'"
  shows "rounds s' = rounds s \<and> rest s' < rest s \<or> rounds s' = Suc (rounds s) \<and> rest s' \<le> 46"
  using assms
proof (cases rule: barrier_step_cases)
  case (P_lock n) then show ?thesis using rest_producer [of n P_count s s'] by (simp add: rounds_def)
next
  case (P_count n) then show ?thesis using rest_producer [of n P_test s s'] by (simp add: rounds_def)
next
  case (P_test n) then show ?thesis
    using rest_producer [of n "if count s = 6 then P_post else P_wait" s s'] by (simp add: rounds_def)
next
  case (P_post n) then show ?thesis using rest_producer [of n P_wait s s'] by (simp add: rounds_def)
next
  case (P_wait n) then show ?thesis using rest_producer [of n P_blocked s s'] by (simp add: rounds_def)
next
  case (P_woken n) then show ?thesis using rest_producer [of n P_unlock s s'] by (simp add: rounds_def)
next
  case (P_unlock n) then show ?thesis using rest_producer [of n P_lock s s'] by (simp add: rounds_def)
next
  case C_broadcast then show ?thesis using rest_le [of s'] by (simp add: rounds_def)
qed (simp_all add: rest_def rounds_def)

interpretation barrier: recurring_system step init inv rest rounds 46
proof
  show "inv s \<Longrightarrow> step s s' \<Longrightarrow> inv s'" for s s' using barrier_inv_step by (auto elim: stepE)
  show "inv s \<Longrightarrow> step s s' \<Longrightarrow>
      rounds s' = rounds s \<and> rest s' < rest s \<or> rounds s' = Suc (rounds s) \<and> rest s' \<le> 46" for s s'
    using round_or_rest_step by (elim stepE)
qed (simp_all add: init_inv, simp add: init_def rounds_def)

lemma rest_init: "rest init = 33"
  by (simp add: rest_def init_def NPROD_def)

lemma barrier_exec_reaches: "exec es s = Some s' \<Longrightarrow> step_any\<^sup>*\<^sup>* s s'"
proof (induction es s rule: exec.induct)
  case (2 t es s)
  then show ?case
    by (auto split: option.splits intro: converse_rtranclp_into_rtranclp regular step.step)
next
  case (3 n es s)
  then show ?case by (auto split: if_splits intro: converse_rtranclp_into_rtranclp spurious)
qed auto

lemma exec_regular: "exec (map Run ts) s = Some s' \<Longrightarrow> step\<^sup>*\<^sup>* s s'"
  by (induction ts arbitrary: s)
    (auto split: option.splits intro: converse_rtranclp_into_rtranclp step.step)

lemma exec_steps: "exec (map Run ts) s = Some s' \<Longrightarrow> (step ^^ length ts) s s'"
proof (induction ts arbitrary: s)
  case (Cons t ts)
  then obtain u where "thread_step t s = Some u" "(step ^^ length ts) u s'" by (auto split: option.splits)
  then show ?case using relpowp_Suc_I2 [of step s u "length ts" s'] step.step by (metis length_Cons)
qed simp

text \<open>A run of one round.\<close>

definition one_round :: "thread list" where
  "one_round = concat (map (\<lambda>n. replicate (if n = 5 then 5 else 4) (Producer n)) [0..<6]) @ replicate 4 Consumer"

lemma one_round_runs:
  "case exec (map Run one_round) init of None \<Rightarrow> False
   | Some s \<Rightarrow> rounds s = 1 \<and> passes 0 s = 1 \<and> count s = 0 \<and> counts s = [1, 2, 3, 4, 5, 6]"
  by code_simp

text \<open>What one producer can do alone from a state in which all threads are at the start of their
  loops: count itself and wake up spuriously, or, as the sixth, be answered by the consumer.\<close>

definition quiet :: "state \<Rightarrow> bool" where
  "quiet s \<longleftrightarrow> mutex1 s = None \<and> c_sem s = 0 \<and> cpcs s = C_wait \<and> (\<forall>n. ppcs s n = P_lock)"

definition spurious_turn :: "nat \<Rightarrow> event list" where
  "spurious_turn i = replicate 4 (Run (Producer i)) @ Spurious i # replicate 2 (Run (Producer i))"

definition answered_turn :: "nat \<Rightarrow> event list" where
  "answered_turn i = replicate 5 (Run (Producer i)) @ replicate 5 (Run Consumer) @ replicate 2 (Run (Producer i))"

lemmas exec_producer_simps = eval_nat_numeral producer_thread_def consumer_thread_def passes_def rounds_def

lemma spurious_turn_counts:
  assumes "quiet s" and "i < NPROD" and "count s \<noteq> 5"
  shows "\<exists>s'. exec (spurious_turn i) s = Some s' \<and> quiet s' \<and> count s' = count s + 1 \<and> rounds s' = rounds s
    \<and> (\<forall>j. passes j s' = passes j s + (if j = i then 1 else 0))"
  using assms by (simp add: spurious_turn_def quiet_def exec_producer_simps)

lemma answered_turn_resets:
  assumes "quiet s" and "i < NPROD" and "count s = 5"
  shows "\<exists>s'. exec (answered_turn i) s = Some s' \<and> quiet s' \<and> count s' = 0 \<and> rounds s' = rounds s + 1
    \<and> (\<forall>j. passes j s' = passes j s + (if j = i then 1 else 0))"
  using assms by (simp add: answered_turn_def quiet_def exec_producer_simps)

text \<open>The states that producer \<open>i\<close> reaches alone after \<open>r\<close> rounds and \<open>k\<close> turns of the next one.\<close>

definition alone :: "nat \<Rightarrow> nat \<Rightarrow> nat \<Rightarrow> state \<Rightarrow> bool" where
  "alone i r k s \<longleftrightarrow> step_any\<^sup>*\<^sup>* init s \<and> quiet s \<and> count s = int k \<and> rounds s = r
     \<and> (\<forall>j. passes j s = (if j = i then 6 * r + k else 0))"

lemma alone_turns:
  assumes "alone i r 0 s" and "i < NPROD"
  shows "k \<le> 5 \<Longrightarrow> \<exists>s'. alone i r k s'"
proof (induction k)
  case 0
  then show ?case using assms(1) by blast
next
  case (Suc k)
  then obtain u where u: "alone i r k u" by auto
  then obtain s' where "exec (spurious_turn i) u = Some s'" "quiet s'" "count s' = count u + 1"
    "rounds s' = rounds u" "\<forall>j. passes j s' = passes j u + (if j = i then 1 else 0)"
    using spurious_turn_counts [of u i] assms(2) Suc.prems by (auto simp: alone_def)
  with u barrier_exec_reaches [of "spurious_turn i" u s'] have "alone i r (Suc k) s'" by (auto simp: alone_def)
  then show ?case by blast
qed

lemma alone_rounds:
  assumes "i < NPROD"
  shows "\<exists>s. alone i r 0 s"
proof (induction r)
  case 0
  have "alone i 0 0 init" by (simp add: alone_def quiet_def init_def passes_def rounds_def)
  then show ?case by blast
next
  case (Suc r)
  then obtain u where u: "alone i r 5 u" using alone_turns [OF _ assms, of r _ 5] by auto
  then obtain s' where "exec (answered_turn i) u = Some s'" "quiet s'" "count s' = 0"
    "rounds s' = rounds u + 1" "\<forall>j. passes j s' = passes j u + (if j = i then 1 else 0)"
    using answered_turn_resets [of u i] assms by (auto simp: alone_def)
  with u barrier_exec_reaches [of "answered_turn i" u s'] have "alone i (Suc r) 0 s'" by (auto simp: alone_def)
  then show ?case by blast
qed

lemma create_loop_overflow:
  assumes "create 5 = 0" and "i \<le> 5" and "length a = 5"
  shows "create_loop create i a r = Inl OutOfBounds"
  using assms(2, 3)
proof (induction "5 - i" arbitrary: i a r)
  case 0
  then have "i = 5" by simp
  with 0 assms(1) show ?case by (subst create_loop.simps) (simp add: wr_def)
next
  case (Suc k)
  then have "i < 5" by simp
  with Suc.prems Suc.hyps(1) [of "Suc i"] Suc.hyps(2) show ?case
    by (subst create_loop.simps) (simp add: wr_def)
qed

section \<open>Properties\<close>

text \<open>C27. The barrier, without spurious wake-ups: every producer has counted itself once for each
  broadcast, and at most once more; at the reset of the count all six have done so and are
  blocked.  The counts are printed in the order 1, 2, ..., 6, 1, 2, ...\<close>

theorem barrier_rounds:
  assumes "step\<^sup>*\<^sup>* init s" and "i < NPROD"
  shows "rounds s \<le> passes i s \<and> passes i s \<le> rounds s + 1
    \<and> (cpcs s \<in> {C_reset, C_broadcast} \<longrightarrow> ppcs s i = P_blocked \<and> passes i s = rounds s + 1)
    \<and> counts s = map (\<lambda>k. int (k mod 6) + 1) [0..<length (counts s)]"
proof -
  have inv: "inv s" using barrier.inv_reachable [OF assms(1)] .
  have "ppcs s i = P_blocked" if "cpcs s = C_reset"
    using reset_all_blocked [OF _ _ _ that assms(2)] inv unfolding inv_def by blast
  moreover have "ppcs s i = P_blocked" if "cpcs s = C_broadcast"
    using inv that assms(2) by (simp add: inv_def count_inv_def)
  moreover have "passes i s = rounds s + (if arrived (ppcs s i) then 1 else 0)"
    using inv assms(2) by (simp add: inv_def out_inv_def)
  moreover obtain m where "counts s = map (\<lambda>k. int (k mod 6) + 1) [0..<m]"
    using inv unfolding inv_def out_inv_def by blast
  ultimately show ?thesis by simp
qed

theorem barrier_rounds_witness:
  "\<exists>s. exec (map Run one_round) init = Some s \<and> rounds s = 1 \<and> 1 \<le> passes 3 s \<and> passes 3 s \<le> 2
    \<and> counts s = map (\<lambda>k. int (k mod 6) + 1) [0..<length (counts s)]"
proof -
  obtain s where s: "exec (map Run one_round) init = Some s" "rounds s = 1"
    using one_round_runs by (auto split: option.splits)
  have "(3 :: nat) < NPROD" by (simp add: NPROD_def)
  from barrier_rounds [OF exec_regular [OF s(1)] this] s show ?thesis by auto
qed

text \<open>Bounds of the shared variables and mutual exclusion, without spurious wake-ups: the
  count stays between 0 and 6, the semaphore is 0 or 1, and the mutex is owned by exactly the
  thread that is between its lock and its unlock or wait.\<close>

theorem barrier_bounds:
  assumes "step\<^sup>*\<^sup>* init s"
  shows "0 \<le> count s \<and> count s \<le> 6 \<and> c_sem s \<le> 1
    \<and> (p_holds (ppcs s i) \<longleftrightarrow> mutex1 s = Some (Producer i)) \<and> (c_holds (cpcs s) \<longleftrightarrow> mutex1 s = Some Consumer)"
proof -
  have inv: "inv s" using barrier.inv_reachable [OF assms] .
  then have "0 \<le> count s \<and> count s \<le> 6"
    using tally_le [of NPROD arrived "ppcs s"] by (auto simp: inv_def count_inv_def NPROD_def split: if_splits)
  moreover have "c_sem s \<le> 1" using inv by (auto simp: inv_def sem_inv_def split: if_splits)
  ultimately show ?thesis using inv by (simp add: inv_def mutex_inv_def)
qed

theorem barrier_bounds_witness:
  "\<exists>s. exec (map Run one_round) init = Some s \<and> rounds s = 1 \<and> 0 \<le> count s \<and> count s \<le> 6 \<and> c_sem s \<le> 1
    \<and> (c_holds (cpcs s) \<longleftrightarrow> mutex1 s = Some Consumer)"
proof -
  obtain s where s: "exec (map Run one_round) init = Some s" "rounds s = 1"
    using one_round_runs by (auto split: option.splits)
  from barrier_bounds [OF exec_regular [OF s(1)], of 0] s show ?thesis by auto
qed

text \<open>C28. The rounds go on, under any scheduling and without spurious wake-ups: no reachable state
  is a deadlock, and a run of \<open>n\<close> steps has made so many broadcasts that \<open>n\<close> is at most 33
  plus 47 for each of them.\<close>

theorem barrier_recurs:
  assumes "(step ^^ n) init s"
  shows "(\<exists>s'. step s s') \<and> n \<le> 33 + 47 * rounds s"
  using barrier.run_rounds [OF assms] no_deadlock [OF barrier.inv_run [OF assms]]
  by (simp add: rest_init)

theorem barrier_recurs_witness:
  "\<exists>s. exec (map Run one_round) init = Some s \<and> rounds s = 1 \<and> length one_round = 29
    \<and> (\<exists>s'. step s s') \<and> length one_round \<le> 33 + 47 * rounds s"
proof -
  obtain s where s: "exec (map Run one_round) init = Some s" "rounds s = 1"
    using one_round_runs by (auto split: option.splits)
  moreover have "length one_round = 29" by code_simp
  ultimately show ?thesis using barrier_recurs [OF exec_steps [OF s(1)]] by auto
qed

text \<open>C29. \<open>pthread_cond_wait\<close> is not called in a loop that tests a condition: with spurious
  wake-ups, which POSIX allows, any single producer can take all six places alone, again and
  again.  For every number \<open>r\<close> there is a reachable state with \<open>r\<close> broadcasts of the consumer,
  for which this producer has counted itself \<open>6 * r\<close> times, while no other producer has
  counted itself and all of them are at their \<open>pthread_mutex_lock\<close>.\<close>

theorem spurious_breaks_barrier:
  assumes "i < NPROD"
  shows "\<exists>s. step_any\<^sup>*\<^sup>* init s \<and> rounds s = r \<and> passes i s = 6 * r \<and> ppcs s i = P_lock
    \<and> (\<forall>j. j \<noteq> i \<longrightarrow> passes j s = 0 \<and> ppcs s j = P_lock)"
  using alone_rounds [OF assms, of r] by (auto simp: alone_def quiet_def)

theorem spurious_breaks_barrier_witness:
  "\<exists>s. step_any\<^sup>*\<^sup>* init s \<and> rounds s = 2 \<and> passes 4 s = 12 \<and> ppcs s 4 = P_lock
    \<and> (\<forall>j. j \<noteq> 4 \<longrightarrow> passes j s = 0 \<and> ppcs s j = P_lock)"
  using spurious_breaks_barrier [of 4 2] by (simp add: NPROD_def)

text \<open>\<open>main\<close> creates six producers in an array of five: when the sixth \<open>pthread_create\<close>
  succeeds it stores the identifier out of bounds, whatever the other calls return.\<close>

theorem sem_problem_main_overflow:
  assumes "create 5 = 0"
  shows "sem_problem_main sem_init create create_cons = Inl OutOfBounds"
  using create_loop_overflow [of create 0 "replicate 5 None"] assms by (simp add: sem_problem_main_def)

theorem sem_problem_main_overflow_witness:
  "sem_problem_main 0 (\<lambda>_. 0) 0 = Inl OutOfBounds"
  using sem_problem_main_overflow [of "\<lambda>_. 0" 0 0] by simp

end
