(* ===== verification/Sem_Usage.thy ===== *)
theory Sem_Usage
  imports Threads
begin

text \<open>
  \<open>mutex_sempaphores/sem_usage.c\<close>: five threads that wait on a condition variable and count each
  time they are woken up, and a thread that broadcasts the condition variable in an endless loop.
  A step is one call of the library together with the lines printed after it; the increment of
  \<open>count\<close> is checked for overflow.  \<open>step_any\<close> has the spurious wake-ups of POSIX, \<open>step\<close>
  has not.
\<close>

section \<open>State\<close>

datatype thread = Func nat | Cons

datatype fpc =
    F_lock     \<comment> \<open>\<open>pthread_mutex_lock\<close>\<close>
  | F_wait     \<comment> \<open>the call of \<open>pthread_cond_wait\<close>\<close>
  | F_blocked  \<comment> \<open>blocked in \<open>pthread_cond_wait\<close>, the mutex is released\<close>
  | F_woken    \<comment> \<open>woken up in \<open>pthread_cond_wait\<close>, needs the mutex\<close>
  | F_count    \<comment> \<open>\<open>count++\<close> and the line that shows it\<close>
  | F_unlock   \<comment> \<open>\<open>pthread_mutex_unlock\<close>\<close>

datatype kpc = K_lock | K_print | K_broadcast | K_unlock

datatype line = Func_line nat int | Cons_line int

record state =
  my_mutex :: "thread option"
  count :: int
  fpcs :: "nat \<Rightarrow> fpc"
  kpcs :: kpc
  out :: "line list"   \<comment> \<open>the last line first\<close>

definition init :: state where
  "init = \<lparr> my_mutex = None, count = 0, fpcs = (\<lambda>_. F_lock), kpcs = K_lock, out = [] \<rparr>"

definition NFUNC :: nat where "NFUNC = 5"

section \<open>Steps\<close>

definition f_at :: "state \<Rightarrow> nat \<Rightarrow> fpc \<Rightarrow> state" where
  "f_at s n p = s\<lparr>fpcs := (fpcs s)(n := p)\<rparr>"

definition func_thread :: "nat \<Rightarrow> state \<Rightarrow> state cres option" where
  "func_thread n s =
     (case fpcs s n of
        F_lock \<Rightarrow>
          if my_mutex s = None then Some (Inr (f_at (s\<lparr>my_mutex := Some (Func n)\<rparr>) n F_wait)) else None
      | F_wait \<Rightarrow> Some (Inr (f_at (s\<lparr>my_mutex := None\<rparr>) n F_blocked))
      | F_blocked \<Rightarrow> None
      | F_woken \<Rightarrow>
          if my_mutex s = None then Some (Inr (f_at (s\<lparr>my_mutex := Some (Func n)\<rparr>) n F_count)) else None
      | F_count \<Rightarrow>
          Some (bindE (add32 (count s) 1) (\<lambda>c.
            Inr (f_at (s\<lparr>count := c, out := Func_line n c # out s\<rparr>) n F_unlock)))
      | F_unlock \<Rightarrow> Some (Inr (f_at (s\<lparr>my_mutex := None\<rparr>) n F_lock)))"

fun wake :: "fpc \<Rightarrow> fpc" where
  "wake F_blocked = F_woken"
| "wake p = p"

definition broadcast :: "state \<Rightarrow> state" where
  "broadcast s = s\<lparr>fpcs := (\<lambda>n. wake (fpcs s n))\<rparr>"

definition cons_thread :: "state \<Rightarrow> state option" where
  "cons_thread s =
     (case kpcs s of
        K_lock \<Rightarrow> if my_mutex s = None then Some (s\<lparr>my_mutex := Some Cons, kpcs := K_print\<rparr>) else None
      | K_print \<Rightarrow> Some (s\<lparr>out := Cons_line (count s) # out s, kpcs := K_broadcast\<rparr>)
      | K_broadcast \<Rightarrow> Some ((broadcast s)\<lparr>kpcs := K_unlock\<rparr>)
      | K_unlock \<Rightarrow> Some (s\<lparr>my_mutex := None, kpcs := K_lock\<rparr>))"

fun thread_step :: "thread \<Rightarrow> state \<Rightarrow> state cres option" where
  "thread_step (Func n) s = (if n < NFUNC then func_thread n s else None)"
| "thread_step Cons s = map_option Inr (cons_thread s)"

inductive step :: "state \<Rightarrow> state \<Rightarrow> bool" where
  step: "thread_step t s = Some (Inr s') \<Longrightarrow> step s s'"

inductive step_any :: "state \<Rightarrow> state \<Rightarrow> bool" where
  regular: "step s s' \<Longrightarrow> step_any s s'"
| spurious: "fpcs s n = F_blocked \<Longrightarrow> step_any s (f_at s n F_woken)"

inductive_cases stepE: "step s s'"

text \<open>Runs that are given by a schedule.\<close>

fun exec :: "thread list \<Rightarrow> state \<Rightarrow> state option" where
  "exec [] s = Some s"
| "exec (t # ts) s = (case thread_step t s of Some (Inr s') \<Rightarrow> exec ts s' | _ \<Rightarrow> None)"

section \<open>The main function\<close>

definition usage_main :: "thread main_op list" where
  "usage_main = map (\<lambda>n. Create (Func n)) [0..<NFUNC] @ [Create Cons] @ map (\<lambda>n. Join (Func n)) [0..<NFUNC]"

text \<open>No thread returns.\<close>

definition usage_program :: "(state, thread) program" where
  "usage_program = \<lparr>
     thread_body = (\<lambda>t s. case thread_step t s of Some (Inr s') \<Rightarrow> Some s' | _ \<Rightarrow> None),
     returned = (\<lambda>s t. False), unlocked = (\<lambda>s. my_mutex s = None),
     unawaited = (\<lambda>s. list_all (\<lambda>n. fpcs s n \<notin> {F_blocked, F_woken}) [0..<NFUNC]),
     start = init, main_ops = usage_main \<rparr>"

section \<open>Invariant\<close>

fun f_holds :: "fpc \<Rightarrow> bool" where
  "f_holds F_lock = False" | "f_holds F_blocked = False" | "f_holds F_woken = False" | "f_holds _ = True"

fun called :: "fpc \<Rightarrow> bool" where
  "called F_woken = True" | "called F_count = True" | "called _ = False"

text \<open>The counts in the order in which they are printed, the lines of one thread, and those of the
  broadcasting thread.\<close>

definition counts :: "state \<Rightarrow> int list" where
  "counts s = concat (map (\<lambda>l. case l of Func_line _ c \<Rightarrow> [c] | _ \<Rightarrow> []) (rev (out s)))"

definition passes :: "nat \<Rightarrow> state \<Rightarrow> nat" where
  "passes n s = length (filter (\<lambda>l. case l of Func_line k _ \<Rightarrow> k = n | _ \<Rightarrow> False) (out s))"

definition calls :: "state \<Rightarrow> nat" where
  "calls s = length (filter (\<lambda>l. case l of Cons_line _ \<Rightarrow> True | _ \<Rightarrow> False) (out s))"

definition inv :: "state \<Rightarrow> bool" where
  "inv s \<longleftrightarrow> (\<forall>n. f_holds (fpcs s n) \<longleftrightarrow> my_mutex s = Some (Func n))
     \<and> (kpcs s \<noteq> K_lock \<longleftrightarrow> my_mutex s = Some Cons)
     \<and> (\<forall>n\<ge>NFUNC. fpcs s n = F_lock)
     \<and> 0 \<le> count s \<and> count s < 2 ^ 31 \<and> counts s = map (\<lambda>k. int k + 1) [0..<nat (count s)]"

definition called_inv :: "state \<Rightarrow> bool" where
  "called_inv s \<longleftrightarrow> (\<forall>n. passes n s + (if called (fpcs s n) then 1 else 0)
     + (if kpcs s = K_broadcast then 1 else 0) \<le> calls s)"

lemmas usage_state_simps [simp] = f_at_def broadcast_def

lemma f_holds_wake [simp]: "f_holds (wake p) \<longleftrightarrow> f_holds p"
  by (cases p) simp_all

lemma usage_step_cases [consumes 1, case_names F_lock F_wait F_woken F_count F_unlock
    K_lock K_print K_broadcast K_unlock]:
  assumes "thread_step t s = Some (Inr s')"
  obtains n where "n < NFUNC" "fpcs s n = F_lock" "my_mutex s = None"
      "s' = f_at (s\<lparr>my_mutex := Some (Func n)\<rparr>) n F_wait"
  | n where "n < NFUNC" "fpcs s n = F_wait" "s' = f_at (s\<lparr>my_mutex := None\<rparr>) n F_blocked"
  | n where "n < NFUNC" "fpcs s n = F_woken" "my_mutex s = None"
      "s' = f_at (s\<lparr>my_mutex := Some (Func n)\<rparr>) n F_count"
  | n where "n < NFUNC" "fpcs s n = F_count" "- (2 ^ 31) \<le> count s + 1" "count s + 1 < 2 ^ 31"
      "s' = f_at (s\<lparr>count := count s + 1, out := Func_line n (count s + 1) # out s\<rparr>) n F_unlock"
  | n where "n < NFUNC" "fpcs s n = F_unlock" "s' = f_at (s\<lparr>my_mutex := None\<rparr>) n F_lock"
  | "kpcs s = K_lock" "my_mutex s = None" "s' = s\<lparr>my_mutex := Some Cons, kpcs := K_print\<rparr>"
  | "kpcs s = K_print" "s' = s\<lparr>out := Cons_line (count s) # out s, kpcs := K_broadcast\<rparr>"
  | "kpcs s = K_broadcast" "s' = (broadcast s)\<lparr>kpcs := K_unlock\<rparr>"
  | "kpcs s = K_unlock" "s' = s\<lparr>my_mutex := None, kpcs := K_lock\<rparr>"
proof (cases t)
  case (Func n)
  with assms that show ?thesis
    by (cases "fpcs s n") (auto simp: func_thread_def bindE_eq_Inr add32_def split: if_splits)
next
  case Cons
  with assms that show ?thesis
    by (cases "kpcs s") (auto simp: cons_thread_def split: if_splits)
qed

lemma inv_owner:
  assumes "inv s" and "f_holds (fpcs s n)"
  shows "my_mutex s = Some (Func n)" and "n < NFUNC"
proof -
  show "my_mutex s = Some (Func n)" using assms by (simp add: inv_def)
  have "fpcs s n = F_lock" if "NFUNC \<le> n" using assms(1) that by (simp add: inv_def)
  then show "n < NFUNC" using assms(2) by (cases "n < NFUNC") (auto simp: not_less)
qed

lemma usage_inv_step:
  assumes "thread_step t s = Some (Inr s')" and "inv s"
  shows "inv s'"
  using assms(1)
proof (cases rule: usage_step_cases)
  case (F_wait n)
  with inv_owner(1) [OF assms(2), of n] assms(2) show ?thesis by (simp add: inv_def counts_def)
next
  case (F_count n)
  then have "nat (count s + 1) = Suc (nat (count s))" using assms(2) by (simp add: inv_def Suc_nat_eq_nat_zadd1 add.commute)
  with F_count inv_owner(1) [OF assms(2), of n] assms(2) show ?thesis by (simp add: inv_def counts_def)
next
  case (F_unlock n)
  with inv_owner(1) [OF assms(2), of n] assms(2) show ?thesis by (simp add: inv_def counts_def)
qed (use assms(2) in \<open>simp_all add: inv_def counts_def\<close>)

lemma called_keep:
  assumes "called_inv s" and "called p \<longrightarrow> called (fpcs s n)"
    and "fpcs s' = (fpcs s)(n := p)" and "kpcs s' = kpcs s" and "out s' = out s"
  shows "called_inv s'"
  unfolding called_inv_def
proof
  fix k
  have "passes k s + (if called (fpcs s k) then 1 else 0) + (if kpcs s = K_broadcast then 1 else 0) \<le> calls s"
    using assms(1) by (simp add: called_inv_def)
  then show "passes k s' + (if called (fpcs s' k) then 1 else 0) + (if kpcs s' = K_broadcast then 1 else 0) \<le> calls s'"
    using assms(2-5) by (auto simp: passes_def calls_def split: if_splits)
qed

lemma called_thread_step:
  assumes "thread_step t s = Some (Inr s')" and "called_inv s"
  shows "called_inv s'"
  using assms(1)
proof (cases rule: usage_step_cases)
  case (F_count n)
  have "passes k s' + (if called (fpcs s' k) then 1 else 0) = passes k s + (if called (fpcs s k) then 1 else 0)" for k
    using F_count by (auto simp: passes_def)
  moreover have "calls s' = calls s" "kpcs s' = kpcs s" using F_count by (simp_all add: calls_def)
  ultimately show ?thesis using assms(2) by (simp add: called_inv_def)
next
  case K_print
  have "passes k s' = passes k s" for k using K_print by (simp add: passes_def)
  moreover have "calls s' = Suc (calls s)" "fpcs s' = fpcs s" using K_print by (simp_all add: calls_def)
  ultimately show ?thesis using assms(2) K_print by (simp add: called_inv_def)
next
  case K_broadcast
  have p: "passes k s' = passes k s" "calls s' = calls s" for k using K_broadcast by (simp_all add: passes_def calls_def)
  have "passes k s + (if called (wake (fpcs s k)) then 1 else 0) \<le> calls s" for k
    using spec [OF assms(2) [unfolded called_inv_def], of k] K_broadcast(1) by auto
  then show ?thesis using p K_broadcast by (simp add: called_inv_def)
next
  case K_lock
  then show ?thesis using assms(2) by (simp add: called_inv_def passes_def calls_def)
next
  case K_unlock
  then show ?thesis using assms(2) by (simp add: called_inv_def passes_def calls_def)
next
  case (F_lock n)
  then show ?thesis by (intro called_keep [OF assms(2), of F_wait n]) simp_all
next
  case (F_wait n)
  then show ?thesis by (intro called_keep [OF assms(2), of F_blocked n]) simp_all
next
  case (F_woken n)
  then show ?thesis by (intro called_keep [OF assms(2), of F_count n]) simp_all
next
  case (F_unlock n)
  then show ?thesis by (intro called_keep [OF assms(2), of F_lock n]) simp_all
qed

lemma inv_spurious:
  assumes "inv s" and "fpcs s n = F_blocked"
  shows "inv (f_at s n F_woken)"
proof -
  have "my_mutex s \<noteq> Some (Func n)" using assms by (metis f_holds.simps(2) inv_def)
  moreover have "n < NFUNC" using assms by (metis fpc.distinct(3) inv_def not_less)
  ultimately show ?thesis using assms by (simp add: inv_def counts_def)
qed

interpretation any: thread_system step_any init inv
proof
  show "inv init" by (simp add: inv_def init_def counts_def)
  show "inv s \<Longrightarrow> step_any s s' \<Longrightarrow> inv s'" for s s'
    using usage_inv_step inv_spurious by (auto elim!: step_any.cases stepE)
qed

interpretation woken: thread_system step init "\<lambda>s. inv s \<and> called_inv s"
proof
  show "inv init \<and> called_inv init" using any.inv_init by (simp add: called_inv_def init_def passes_def calls_def)
  show "inv s \<and> called_inv s \<Longrightarrow> step s s' \<Longrightarrow> inv s' \<and> called_inv s'" for s s'
    using usage_inv_step called_thread_step by (auto elim: stepE)
qed

lemma usage_exec_reaches: "exec ts s = Some s' \<Longrightarrow> step\<^sup>*\<^sup>* s s'"
  by (induction ts arbitrary: s)
    (auto split: option.splits sum.splits intro: converse_rtranclp_into_rtranclp step.step)

section \<open>Progress and schedules\<close>

lemma not_blocked:
  assumes "inv s"
  shows "\<exists>t. thread_step t s \<noteq> None"
proof (cases "my_mutex s")
  case None
  then have "thread_step Cons s \<noteq> None" using assms by (simp add: inv_def cons_thread_def)
  then show ?thesis by blast
next
  case (Some t)
  show ?thesis
  proof (cases t)
    case (Func n)
    then have h: "f_holds (fpcs s n)" using Some assms by (simp add: inv_def)
    then have "thread_step (Func n) s \<noteq> None"
      using inv_owner(2) [OF assms h] by (cases "fpcs s n") (simp_all add: func_thread_def)
    then show ?thesis by blast
  next
    case Cons
    then have "thread_step Cons s \<noteq> None"
      using Some assms by (cases "kpcs s") (simp_all add: inv_def cons_thread_def)
    then show ?thesis by blast
  qed
qed

text \<open>All threads before their locks.\<close>

definition quiet :: "int \<Rightarrow> line list \<Rightarrow> state" where
  "quiet c ls = \<lparr> my_mutex = None, count = c, fpcs = (\<lambda>_. F_lock), kpcs = K_lock, out = ls \<rparr>"

lemma cons_alone: "exec [Cons, Cons, Cons, Cons] (quiet c ls) = Some (quiet c (Cons_line c # ls))"
  by (simp add: quiet_def cons_thread_def)

text \<open>One round of the first thread, up to its increment.\<close>

definition counting :: "int \<Rightarrow> line list \<Rightarrow> state" where
  "counting c ls = \<lparr> my_mutex = Some (Func 0), count = c, fpcs = (\<lambda>_. F_lock)(0 := F_count), kpcs = K_lock,
     out = Cons_line c # ls \<rparr>"

lemma round_of_first:
  "exec [Func 0, Func 0, Cons, Cons, Cons, Cons, Func 0] (quiet c ls) = Some (counting c ls)"
proof -
  have "(\<lambda>n. wake (((\<lambda>_. F_lock)(0 := F_blocked)) n))(0 := F_count) = (\<lambda>_. F_lock)(0 := F_count)" by auto
  then show ?thesis
    by (simp add: quiet_def counting_def cons_thread_def func_thread_def NFUNC_def)
qed

lemma count_of_first:
  assumes "0 \<le> c" and "c + 1 < 2 ^ 31"
  shows "exec [Func 0, Func 0] (counting c ls) = Some (quiet (c + 1) (Func_line 0 (c + 1) # Cons_line c # ls))"
proof -
  have "add32 c 1 = Inr (c + 1)" using assms by (simp add: add32_def)
  moreover have "(\<lambda>_. F_lock)(0 := F_lock) = (\<lambda>_. F_lock)" by auto
  ultimately show ?thesis by (simp add: quiet_def counting_def func_thread_def NFUNC_def)
qed

lemma reaches_starved: "\<exists>ls. step\<^sup>*\<^sup>* init (quiet 0 ls) \<and> calls (quiet 0 ls) = n"
proof (induction n)
  case 0
  show ?case by (intro exI [of _ "[]"]) (simp add: calls_def quiet_def init_def)
next
  case (Suc n)
  then obtain ls where ls: "step\<^sup>*\<^sup>* init (quiet 0 ls)" "calls (quiet 0 ls) = n" by blast
  moreover have "step\<^sup>*\<^sup>* (quiet 0 ls) (quiet 0 (Cons_line 0 # ls))" using usage_exec_reaches [OF cons_alone] .
  ultimately have "step\<^sup>*\<^sup>* init (quiet 0 (Cons_line 0 # ls))" by (meson rtranclp_trans)
  with ls(2) show ?case by (intro exI [of _ "Cons_line 0 # ls"]) (simp add: calls_def quiet_def)
qed

lemma reaches_count: "int n < 2 ^ 31 \<Longrightarrow> \<exists>ls. step\<^sup>*\<^sup>* init (quiet (int n) ls)"
proof (induction n)
  case 0
  show ?case by (intro exI [of _ "[]"]) (simp add: quiet_def init_def)
next
  case (Suc n)
  then obtain ls where ls: "step\<^sup>*\<^sup>* init (quiet (int n) ls)" by auto
  moreover have "step\<^sup>*\<^sup>* (quiet (int n) ls) (counting (int n) ls)" using usage_exec_reaches [OF round_of_first] .
  moreover have "step\<^sup>*\<^sup>* (counting (int n) ls) (quiet (int n + 1) (Func_line 0 (int n + 1) # Cons_line (int n) # ls))"
    using usage_exec_reaches [OF count_of_first] Suc.prems by simp
  ultimately have "step\<^sup>*\<^sup>* init (quiet (int n + 1) (Func_line 0 (int n + 1) # Cons_line (int n) # ls))"
    by (meson rtranclp_trans)
  then show ?case by (auto simp: add.commute)
qed

lemma usage_program_simps [simp]:
  "returned usage_program s t = False" "main_ops usage_program = usage_main" "start usage_program = init"
  by (simp_all add: usage_program_def)

interpretation usage: joined_program usage_program
  by unfold_locales simp

section \<open>Properties\<close>

text \<open>C33. The counts, also with spurious wake-ups: the lines of the waiting threads show 1, 2, 3, ...
  in this order, \<open>count\<close> is the number of these lines, and the mutex is owned by exactly the thread
  that is between its lock and its unlock or wait.\<close>

theorem usage_counts:
  assumes "step_any\<^sup>*\<^sup>* init s"
  shows "counts s = map (\<lambda>k. int k + 1) [0..<nat (count s)] \<and> int (length (counts s)) = count s
    \<and> (f_holds (fpcs s n) \<longleftrightarrow> my_mutex s = Some (Func n)) \<and> (kpcs s \<noteq> K_lock \<longleftrightarrow> my_mutex s = Some Cons)"
  using any.inv_reachable [OF assms] by (simp add: inv_def)

theorem usage_counts_witness:
  "\<exists>ls. (let s = quiet 1 ls in step\<^sup>*\<^sup>* init s \<and> counts s = [1] \<and> int (length (counts s)) = count s)"
proof -
  obtain ls where ls: "step\<^sup>*\<^sup>* init (quiet 1 ls)" using reaches_count [of 1] by auto
  then have "step_any\<^sup>*\<^sup>* init (quiet 1 ls)" by (rule mono_rtranclp [rule_format, rotated]) (rule regular)
  from usage_counts [OF this] ls show ?thesis by (auto simp: quiet_def Let_def)
qed

text \<open>Without spurious wake-ups a thread counts at most once for each broadcast; no reachable
  state is a deadlock; but nothing makes a thread count: for every number there is a run in which
  that many broadcasts have found no thread waiting and the count is still 0.\<close>

theorem usage_wakeups:
  assumes "step\<^sup>*\<^sup>* init s"
  shows "passes n s \<le> calls s \<and> (\<exists>t. thread_step t s \<noteq> None)
    \<and> (\<exists>u. step\<^sup>*\<^sup>* init u \<and> calls u = k \<and> count u = 0)"
proof -
  have inv: "inv s" "called_inv s" using woken.inv_reachable [OF assms] by auto
  then have "passes n s \<le> calls s" by (auto simp: called_inv_def split: if_splits dest: spec [of _ n])
  moreover have "\<exists>u. step\<^sup>*\<^sup>* init u \<and> calls u = k \<and> count u = 0"
    using reaches_starved [of k] by (metis quiet_def select_convs(2))
  ultimately show ?thesis using not_blocked [OF inv(1)] by blast
qed

theorem usage_wakeups_witness:
  "passes 0 init \<le> calls init \<and> (\<exists>t. thread_step t init \<noteq> None)
    \<and> (\<exists>u. step\<^sup>*\<^sup>* init u \<and> calls u = 1000 \<and> count u = 0)"
  using usage_wakeups [of init 0 1000] by simp

text \<open>C34. The count is never set back: it reaches the largest value of \<open>int\<close>, and the next
  increment is a signed overflow.\<close>

theorem usage_count_overflows:
  "\<exists>s. step\<^sup>*\<^sup>* init s \<and> count s = 2 ^ 31 - 1 \<and> thread_step (Func 0) s = Some (Inl IntOverflow)"
proof -
  obtain ls where "step\<^sup>*\<^sup>* init (quiet (2 ^ 31 - 1) ls)" using reaches_count [of "2 ^ 31 - 1"] by auto
  then have "step\<^sup>*\<^sup>* init (counting (2 ^ 31 - 1) ls)"
    using usage_exec_reaches [OF round_of_first [of "2 ^ 31 - 1" ls]] by (rule rtranclp_trans)
  moreover have "thread_step (Func 0) (counting (2 ^ 31 - 1) ls) = Some (Inl IntOverflow)"
    by (simp add: counting_def func_thread_def NFUNC_def add32_def)
  ultimately show ?thesis by (intro exI [of _ "counting (2 ^ 31 - 1) ls"]) (simp add: counting_def)
qed

text \<open>\<open>main\<close> never returns, whichever threads could be created.\<close>

theorem usage_main_never_returns:
  assumes "(process_step usage_program ok)\<^sup>*\<^sup>* (launch usage_program) p"
  shows "ops p \<noteq> []"
  using usage.joined_all(1) [OF assms, of "Func 0"] by (auto simp: usage_main_def NFUNC_def)

theorem usage_main_never_returns_witness:
  "ops (launch usage_program) \<noteq> []"
  using usage_main_never_returns [of "\<lambda>_. True" "launch usage_program"] by simp

end
