(* ===== verification/Producer_Consumer.thy ===== *)
theory Producer_Consumer
  imports Threads
begin

text \<open>
  \<open>mutex_sempaphores/prod_consumer.c\<close>: five producers and five consumers with two counting
  semaphores and a mutex.  A step of a thread is one call of the library or one access to the
  buffer; it is an error value when it writes outside \<open>buffer\<close>, and \<open>None\<close> when the thread is
  blocked or has returned.  \<open>prod_consumer_main\<close> is \<open>main\<close> up to its joins; the steps are
  those of the threads after it has created all of them.
\<close>

section \<open>State\<close>

definition BUF_LEN :: nat where "BUF_LEN = 5"
definition NITERS :: int where "NITERS = 5"
definition NCP :: nat where "NCP = 5"

datatype thread = Producer nat | Consumer nat

datatype ppc =
    Sem_wait | Mutex_lock | Write | Mutex_unlock | Sem_post | Returned

record shared =
  buffer :: "int list"
  my_mutex :: "thread option"
  buf_full :: nat
  buf_empty :: nat
  tpc :: "thread \<Rightarrow> ppc"
  loop_i :: "thread \<Rightarrow> int"
  printed :: "(thread \<times> int) list"   \<comment> \<open>the last line first\<close>

definition start :: shared where
  "start = \<lparr> buffer = replicate BUF_LEN 0, my_mutex = None, buf_full = 1, buf_empty = BUF_LEN,
     tpc = (\<lambda>t. Sem_wait),
     loop_i = (\<lambda>t. case t of Producer _ \<Rightarrow> 0 | Consumer _ \<Rightarrow> NITERS), printed = [] \<rparr>"

text \<open>The threads that \<open>main\<close> creates.\<close>

fun created :: "thread \<Rightarrow> bool" where
  "created (Producer n) \<longleftrightarrow> n < NCP"
| "created (Consumer n) \<longleftrightarrow> n < NCP"

definition goto :: "shared \<Rightarrow> thread \<Rightarrow> ppc \<Rightarrow> shared" where
  "goto s t p = s\<lparr>tpc := (tpc s)(t := p)\<rparr>"

section \<open>Steps\<close>

text \<open>\<open>buffer[i] = i\<close> and the \<open>printf\<close> after it; an index of \<open>BUF_LEN\<close> or more lies outside
  the array (in the struct the mutex follows).\<close>

definition write_and_print :: "thread \<Rightarrow> shared \<Rightarrow> shared cres" where
  "write_and_print t s =
     (let i = loop_i s t in
      if i < 0 then Inl OutOfBounds else
      bindE (wr (buffer s) (nat i) i) (\<lambda>b.
      bindE (rd b (nat i)) (\<lambda>v.
      Inr (s\<lparr>buffer := b, printed := (t, v) # printed s\<rparr>))))"

definition mutex_lock :: "thread \<Rightarrow> shared \<Rightarrow> shared option" where
  "mutex_lock t s = (if my_mutex s = None then Some (goto (s\<lparr>my_mutex := Some t\<rparr>) t Write) else None)"

fun produce_step :: "nat \<Rightarrow> shared \<Rightarrow> shared cres option" where
  "produce_step n s =
     (let t = Producer n in
      case tpc s t of
        Sem_wait \<Rightarrow> if 0 < buf_empty s then Some (Inr (goto (s\<lparr>buf_empty := buf_empty s - 1\<rparr>) t Mutex_lock)) else None
      | Mutex_lock \<Rightarrow> map_option Inr (mutex_lock t s)
      | Write \<Rightarrow> Some (bindE (write_and_print t s) (\<lambda>s. Inr (goto s t Mutex_unlock)))
      | Mutex_unlock \<Rightarrow> Some (Inr (goto (s\<lparr>my_mutex := None\<rparr>) t Sem_post))
      | Sem_post \<Rightarrow>
          (let s = s\<lparr>buf_full := buf_full s + 1, loop_i := (loop_i s)(t := loop_i s t + 1)\<rparr>
           in Some (Inr (goto s t (if loop_i s t \<le> NITERS then Sem_wait else Returned))))
      | Returned \<Rightarrow> None)"

fun consume_step :: "nat \<Rightarrow> shared \<Rightarrow> shared cres option" where
  "consume_step n s =
     (let t = Consumer n in
      case tpc s t of
        Sem_wait \<Rightarrow> if 0 < buf_full s then Some (Inr (goto (s\<lparr>buf_full := buf_full s - 1\<rparr>) t Mutex_lock)) else None
      | Mutex_lock \<Rightarrow> map_option Inr (mutex_lock t s)
      | Write \<Rightarrow> Some (bindE (write_and_print t s) (\<lambda>s. Inr (goto s t Mutex_unlock)))
      | Mutex_unlock \<Rightarrow> Some (Inr (goto (s\<lparr>my_mutex := None\<rparr>) t Sem_post))
      | Sem_post \<Rightarrow>
          (let s = s\<lparr>buf_empty := buf_empty s + 1, loop_i := (loop_i s)(t := loop_i s t - 1)\<rparr>
           in Some (Inr (goto s t (if 0 \<le> loop_i s t then Sem_wait else Returned))))
      | Returned \<Rightarrow> None)"

fun run_thread :: "thread \<Rightarrow> shared \<Rightarrow> shared cres option" where
  "run_thread (Producer n) s = produce_step n s"
| "run_thread (Consumer n) s = consume_step n s"

inductive step :: "shared \<Rightarrow> shared \<Rightarrow> bool" where
  step: "created t \<Longrightarrow> run_thread t s = Some (Inr s') \<Longrightarrow> step s s'"

inductive_cases stepE: "step s s'"

section \<open>The main function\<close>

text \<open>The two creation loops, with the results of \<open>pthread_create\<close> as a parameter: \<open>tnum\<close> is
  filled, and the loop is left with \<open>False\<close> at the first failure.  The list holds the threads
  that run.\<close>

function create_threads :: "(nat \<Rightarrow> thread) \<Rightarrow> (thread \<Rightarrow> int) \<Rightarrow> nat \<Rightarrow> int list \<Rightarrow> thread list
    \<Rightarrow> (int list \<times> thread list \<times> bool) cres" where
  "create_threads kind create i tnum ts =
     (if i < NCP then
        bindE (wr tnum i (int i)) (\<lambda>tnum.
        if create (kind i) \<noteq> 0 then Inr (tnum, ts, False)
        else create_threads kind create (i + 1) tnum (ts @ [kind i]))
      else Inr (tnum, ts, True))"
  by pat_completeness auto

termination
  by (relation "measure (\<lambda>(_, _, i, _). NCP - i)") auto

declare create_threads.simps [simp del]

text \<open>The threads that run, and the result of \<open>main\<close>: \<open>Some (-1)\<close> when a thread could not be
  created, \<open>None\<close> when it goes on to \<open>pthread_join\<close>.\<close>

definition prod_consumer_main :: "(thread \<Rightarrow> int) \<Rightarrow> (int list \<times> thread list \<times> int option) cres" where
  "prod_consumer_main create =
     bindE (create_threads Producer create 0 (replicate NCP 0) []) (\<lambda>(tnum, ts, ok).
     if \<not> ok then Inr (tnum, ts, Some (-1)) else
     bindE (create_threads Consumer create 0 tnum ts) (\<lambda>(tnum, ts, ok).
     Inr (tnum, ts, if ok then None else Some (-1))))"

section \<open>Invariant\<close>

text \<open>Up to the write of an iteration.\<close>

fun before_write :: "ppc \<Rightarrow> bool" where
  "before_write Sem_wait = True" | "before_write Mutex_lock = True" | "before_write Write = True"
| "before_write _ = False"

fun in_mutex :: "ppc \<Rightarrow> bool" where
  "in_mutex Write = True" | "in_mutex Mutex_unlock = True" | "in_mutex _ = False"

text \<open>The mutex is owned by the thread in its critical section, the buffer keeps its length, and
  no consumer gets past its first write; there is always a consumer that has passed its semaphore,
  or one that can.\<close>

definition pinv :: "shared \<Rightarrow> bool" where
  "pinv s \<longleftrightarrow> length (buffer s) = BUF_LEN
     \<and> (\<forall>t. in_mutex (tpc s t) \<longleftrightarrow> my_mutex s = Some t)
     \<and> (\<forall>n. before_write (tpc s (Consumer n)) \<and> loop_i s (Consumer n) = NITERS)"

definition passed :: "shared \<Rightarrow> nat" where
  "passed s = tally NCP (\<lambda>p. p \<noteq> Sem_wait) (\<lambda>n. tpc s (Consumer n))"

definition sinv :: "shared \<Rightarrow> bool" where
  "sinv s \<longleftrightarrow> pinv s \<and> (\<forall>t. \<not> created t \<longrightarrow> tpc s t = Sem_wait) \<and> 1 \<le> buf_full s + passed s"

lemma goto_simps [simp]:
  "tpc (goto s t p) u = (if u = t then p else tpc s u)" "my_mutex (goto s t p) = my_mutex s"
  "buffer (goto s t p) = buffer s" "loop_i (goto s t p) = loop_i s"
  "buf_full (goto s t p) = buf_full s" "buf_empty (goto s t p) = buf_empty s"
  by (simp_all add: goto_def)

lemma pinv_start: "pinv start"
  by (simp add: pinv_def start_def)

lemma consumer_write_overflows:
  assumes "pinv s" and "tpc s (Consumer n) = Write"
  shows "consume_step n s = Some (Inl OutOfBounds)"
  using assms by (simp add: pinv_def write_and_print_def NITERS_def BUF_LEN_def wr_def)

lemma write_keeps:
  "write_and_print t s = Inr s' \<Longrightarrow> length (buffer s') = length (buffer s) \<and> my_mutex s' = my_mutex s
     \<and> tpc s' = tpc s \<and> loop_i s' = loop_i s"
  by (auto simp: write_and_print_def Let_def wr_eq_Inr bindE_eq_Inr split: if_splits)

lemma pinv_mutex: "pinv s \<Longrightarrow> in_mutex (tpc s t) \<longleftrightarrow> my_mutex s = Some t"
  by (simp add: pinv_def)

lemma produce_step_pinv:
  assumes "pinv s" and "produce_step n s = Some (Inr s')"
  shows "pinv s'"
proof (cases "tpc s (Producer n)")
  case Write
  then obtain u where "write_and_print (Producer n) s = Inr u" "s' = goto u (Producer n) Mutex_unlock"
    using assms(2) by (auto simp: bindE_eq_Inr Let_def)
  with write_keeps [OF this(1)] Write assms(1) show ?thesis by (auto simp: pinv_def)
qed (use assms pinv_mutex [OF assms(1), of "Producer n"] in
    \<open>auto simp: pinv_def mutex_lock_def Let_def split: if_splits\<close>)

lemma consume_step_pinv:
  assumes "pinv s" and "consume_step n s = Some (Inr s')"
  shows "pinv s'"
proof -
  have "before_write (tpc s (Consumer n))" using assms(1) by (simp add: pinv_def)
  moreover have "tpc s (Consumer n) \<noteq> Write" using assms consumer_write_overflows [of s n] by auto
  ultimately consider "tpc s (Consumer n) = Sem_wait" | "tpc s (Consumer n) = Mutex_lock"
    by (cases "tpc s (Consumer n)") auto
  then show ?thesis
    using assms pinv_mutex [OF assms(1), of "Consumer n"]
    by cases (auto simp: pinv_def mutex_lock_def Let_def split: if_splits)
qed

lemma run_thread_pinv: "pinv s \<Longrightarrow> run_thread t s = Some (Inr s') \<Longrightarrow> pinv s'"
  by (cases t) (auto simp del: produce_step.simps consume_step.simps
      intro: produce_step_pinv consume_step_pinv)

lemma run_thread_others:
  assumes "run_thread t s = Some (Inr s')" and "u \<noteq> t"
  shows "tpc s' u = tpc s u"
proof (cases t)
  case (Producer n)
  then show ?thesis using assms write_keeps [of t s]
    by (cases "tpc s t") (auto simp: mutex_lock_def Let_def bindE_eq_Inr split: if_splits)
next
  case (Consumer n)
  then show ?thesis using assms write_keeps [of t s]
    by (cases "tpc s t") (auto simp: mutex_lock_def Let_def bindE_eq_Inr split: if_splits)
qed

lemma produce_full:
  assumes "run_thread (Producer n) s = Some (Inr s')"
  shows "buf_full s \<le> buf_full s'" and "passed s' = passed s"
proof -
  have keep: "buf_full u = buf_full s" if "write_and_print t s = Inr u" for t u
    using that by (auto simp: write_and_print_def Let_def bindE_eq_Inr split: if_splits)
  show "buf_full s \<le> buf_full s'" using assms keep
    by (cases "tpc s (Producer n)") (auto simp: mutex_lock_def Let_def bindE_eq_Inr split: if_splits)
  show "passed s' = passed s"
    unfolding passed_def by (rule tally_cong) (simp add: run_thread_others [OF assms])
qed

lemma consume_cases:
  assumes "pinv s" and "run_thread (Consumer n) s = Some (Inr s')"
  obtains (Sem) "tpc s (Consumer n) = Sem_wait" "0 < buf_full s"
      "s' = goto (s\<lparr>buf_full := buf_full s - 1\<rparr>) (Consumer n) Mutex_lock"
  | (Lock) "tpc s (Consumer n) = Mutex_lock" "my_mutex s = None"
      "s' = goto (s\<lparr>my_mutex := Some (Consumer n)\<rparr>) (Consumer n) Write"
proof -
  have "before_write (tpc s (Consumer n))" using assms(1) by (simp add: pinv_def)
  moreover have "tpc s (Consumer n) \<noteq> Write" using assms consumer_write_overflows [of s n] by auto
  ultimately show thesis using assms(2) that
    by (cases "tpc s (Consumer n)") (auto simp: mutex_lock_def Let_def split: if_splits)
qed

lemma sinv_run_thread:
  assumes "sinv s" and "created t" and "run_thread t s = Some (Inr s')"
  shows "sinv s'"
proof -
  have p: "pinv s" "pinv s'" using assms run_thread_pinv by (auto simp: sinv_def)
  have idle: "\<forall>u. \<not> created u \<longrightarrow> tpc s' u = Sem_wait"
    using assms run_thread_others [OF assms(3)] by (metis sinv_def)
  have "1 \<le> buf_full s' + passed s'"
  proof (cases t)
    case (Producer n)
    then show ?thesis using produce_full [of n s s'] assms by (auto simp: sinv_def)
  next
    case (Consumer n)
    then have "n < NCP" and run: "run_thread (Consumer n) s = Some (Inr s')" using assms by auto
    from p(1) run show ?thesis
    proof (cases rule: consume_cases)
      case Sem
      have "(\<lambda>k. tpc s' (Consumer k)) = (\<lambda>k. tpc s (Consumer k))(n := Mutex_lock)" using Sem by auto
      then have "passed s' = Suc (passed s)"
        using \<open>n < NCP\<close> Sem(1) by (simp add: passed_def tally_upd_new)
      then show ?thesis by simp
    next
      case Lock
      have "(\<lambda>k. tpc s' (Consumer k)) = (\<lambda>k. tpc s (Consumer k))(n := Write)" using Lock by auto
      then have "passed s' = passed s" using Lock(1) by (simp add: passed_def tally_upd_same)
      then show ?thesis using assms(1) Lock(3) by (simp add: sinv_def)
    qed
  qed
  with p idle show ?thesis by (simp add: sinv_def)
qed

section \<open>Progress\<close>

definition overflows :: "shared \<Rightarrow> bool" where
  "overflows s \<longleftrightarrow> (\<exists>t. created t \<and> run_thread t s = Some (Inl OutOfBounds))"

lemma write_error: "write_and_print t s = Inl e \<Longrightarrow> e = OutOfBounds"
  by (auto simp: write_and_print_def Let_def bindE_eq_Inl wr_def rd_def split: if_splits)

lemma run_thread_error: "run_thread t s = Some (Inl e) \<Longrightarrow> e = OutOfBounds"
  using write_error by (cases t; cases "tpc s t")
    (auto simp: Let_def mutex_lock_def bindE_eq_Inl split: if_splits)

lemma in_mutex_runs: "in_mutex (tpc s t) \<Longrightarrow> run_thread t s \<noteq> None"
  by (cases t; cases "tpc s t") (simp_all add: Let_def)

lemma some_thread_runs:
  assumes "sinv s"
  shows "\<exists>t. created t \<and> run_thread t s \<noteq> None"
proof (cases "my_mutex s")
  case (Some t)
  then have t: "in_mutex (tpc s t)" using assms by (simp add: sinv_def pinv_def)
  moreover have "created t" using assms t by (metis in_mutex.simps(3) sinv_def)
  ultimately show ?thesis using in_mutex_runs by blast
next
  case None
  then have free: "\<not> in_mutex (tpc s t)" for t using assms by (simp add: sinv_def pinv_def)
  show ?thesis
  proof (cases "\<exists>n<NCP. tpc s (Consumer n) \<noteq> Sem_wait")
    case True
    then obtain n where n: "n < NCP" "tpc s (Consumer n) \<noteq> Sem_wait" by blast
    moreover have "before_write (tpc s (Consumer n))" using assms by (simp add: sinv_def pinv_def)
    ultimately have "tpc s (Consumer n) = Mutex_lock"
      using free [of "Consumer n"] by (cases "tpc s (Consumer n)") auto
    then have "created (Consumer n)" "run_thread (Consumer n) s \<noteq> None"
      using n None by (simp_all add: mutex_lock_def Let_def)
    then show ?thesis by blast
  next
    case False
    then have "passed s = 0" unfolding passed_def by (intro tally_none) auto
    then have "0 < buf_full s" using assms by (simp add: sinv_def)
    moreover have "tpc s (Consumer 0) = Sem_wait" using False by (simp add: NCP_def)
    ultimately have "created (Consumer 0)" "run_thread (Consumer 0) s \<noteq> None" by (simp_all add: NCP_def Let_def)
    then show ?thesis by blast
  qed
qed

text \<open>The steps that are left for a producer in iteration \<open>i\<close> and for a consumer in its first.\<close>

fun ppc_rest :: "ppc \<Rightarrow> nat" where
  "ppc_rest Sem_wait = 5" | "ppc_rest Mutex_lock = 4" | "ppc_rest Write = 3" | "ppc_rest Mutex_unlock = 2"
| "ppc_rest Sem_post = 1" | "ppc_rest Returned = 0"

fun p_rest :: "ppc \<times> int \<Rightarrow> nat" where
  "p_rest (p, i) = 5 * nat (NITERS - i) + ppc_rest p"

definition rest :: "shared \<Rightarrow> nat" where
  "rest s = (\<Sum>n<NCP. p_rest (tpc s (Producer n), loop_i s (Producer n)))
     + (\<Sum>n<NCP. ppc_rest (tpc s (Consumer n)) - 3)"

lemma produce_moves:
  assumes "run_thread (Producer n) s = Some (Inr s')"
  shows "p_rest (tpc s' (Producer n), loop_i s' (Producer n)) < p_rest (tpc s (Producer n), loop_i s (Producer n))"
    and "u \<noteq> Producer n \<Longrightarrow> loop_i s' u = loop_i s u"
proof -
  let ?i = "loop_i s (Producer n)"
  have i: "nat (NITERS - ?i) = Suc (nat (NITERS - (?i + 1)))" if "?i + 1 \<le> NITERS" using that by simp
  show "p_rest (tpc s' (Producer n), loop_i s' (Producer n)) < p_rest (tpc s (Producer n), loop_i s (Producer n))"
    using assms write_keeps [of "Producer n" s] i
    by (cases "tpc s (Producer n)") (auto simp: mutex_lock_def Let_def bindE_eq_Inr split: if_splits)
  show "u \<noteq> Producer n \<Longrightarrow> loop_i s' u = loop_i s u"
    using assms write_keeps [of "Producer n" s]
    by (cases "tpc s (Producer n)") (auto simp: mutex_lock_def Let_def bindE_eq_Inr split: if_splits)
qed

lemma rest_run_thread:
  assumes "sinv s" and "created t" and "run_thread t s = Some (Inr s')"
  shows "rest s' < rest s"
proof (cases t)
  case (Producer n)
  then have n: "n < NCP" and run: "run_thread (Producer n) s = Some (Inr s')" using assms by auto
  let ?f = "\<lambda>k. (tpc s (Producer k), loop_i s (Producer k))"
  have "(\<lambda>k. (tpc s' (Producer k), loop_i s' (Producer k)))
      = ?f(n := (tpc s' (Producer n), loop_i s' (Producer n)))"
    using run_thread_others [OF run] produce_moves(2) [OF run] by auto
  then have "(\<Sum>k<NCP. p_rest (tpc s' (Producer k), loop_i s' (Producer k))) < (\<Sum>k<NCP. p_rest (?f k))"
    using sum_upd_less [of n NCP p_rest _ ?f, OF n produce_moves(1) [OF run]] by metis
  moreover have "tpc s' (Consumer k) = tpc s (Consumer k)" for k using run_thread_others [OF run] by simp
  ultimately show ?thesis by (simp add: rest_def del: p_rest.simps)
next
  case (Consumer n)
  then have n: "n < NCP" and run: "run_thread (Consumer n) s = Some (Inr s')" using assms by auto
  have p: "pinv s" using assms(1) by (simp add: sinv_def)
  let ?w = "\<lambda>p. ppc_rest p - 3" and ?f = "\<lambda>k. tpc s (Consumer k)"
  have less: "?w (tpc s' (Consumer n)) < ?w (?f n)" and same: "loop_i s' = loop_i s"
    using p run by (cases rule: consume_cases; simp)+
  have "(\<lambda>k. tpc s' (Consumer k)) = ?f(n := tpc s' (Consumer n))" using run_thread_others [OF run] by auto
  then have "(\<Sum>k<NCP. ?w (tpc s' (Consumer k))) < (\<Sum>k<NCP. ?w (?f k))"
    using sum_upd_less [of n NCP ?w _ ?f, OF n less] by metis
  moreover have "tpc s' (Producer k) = tpc s (Producer k)" for k using run_thread_others [OF run] by simp
  ultimately show ?thesis by (simp add: rest_def same)
qed

interpretation pc: terminating_system step start sinv rest overflows
proof
  show "sinv start"
    using pinv_start by (simp add: sinv_def) (simp add: start_def)
  show "sinv s \<Longrightarrow> step s s' \<Longrightarrow> sinv s'" for s s' using sinv_run_thread by (auto elim: stepE)
  show "sinv s \<Longrightarrow> step s s' \<Longrightarrow> rest s' < rest s" for s s' using rest_run_thread by (auto elim: stepE)
  show "\<exists>s'. step s s'" if inv: "sinv s" and no: "\<not> overflows s" for s
  proof -
    obtain t r where t: "created t" "run_thread t s = Some r" using some_thread_runs [OF inv] by blast
    moreover have "r \<noteq> Inl e" for e using t no run_thread_error by (auto simp: overflows_def)
    ultimately show ?thesis by (cases r) (auto intro: step.step)
  qed
qed

lemma rest_start: "rest start = 160"
  by (simp add: rest_def start_def NCP_def NITERS_def)

lemma create_threads_all:
  assumes "\<And>n. create (kind n) = 0" and "i \<le> NCP" and "length tnum = NCP" and "take i tnum = map int [0..<i]"
  shows "create_threads kind create i tnum ts = Inr (map int [0..<NCP], ts @ map kind [i..<NCP], True)"
  using assms(2-4)
proof (induction "NCP - i" arbitrary: i tnum ts)
  case 0
  then show ?case by (subst create_threads.simps) simp
next
  case (Suc k)
  then have i: "i < NCP" by simp
  have "take (Suc i) (tnum[i := int i]) = map int [0..<Suc i]"
    using Suc.prems i by (simp add: take_Suc_conv_app_nth)
  with Suc.hyps(1) [of "Suc i" "tnum[i := int i]" "ts @ [kind i]"] Suc.hyps(2) Suc.prems i assms(1)
  show ?case by (subst create_threads.simps) (simp add: wr_def upt_conv_Cons)
qed

lemma prod_consumer_main_creates:
  assumes "\<And>t. create t = 0"
  shows "\<exists>ts. prod_consumer_main create = Inr (map int [0..<NCP], ts, None) \<and> set ts = {t. created t}"
proof -
  have "created t \<longleftrightarrow> t \<in> Producer ` {0..<NCP} \<union> Consumer ` {0..<NCP}" for t by (cases t) auto
  then show ?thesis
    using assms by (auto simp: prod_consumer_main_def create_threads_all)
qed

section \<open>Properties\<close>

text \<open>C38. Every consumer starts at index \<open>NITERS\<close>, which is past the end of the buffer, and the
  program cannot avoid it: no run without undefined behaviour has more than 160 steps, the
  threads never block each other for good before a write out of bounds is due, and in every state
  the mutex protects the buffer and a consumer that has passed the mutex is about to write out of
  bounds.\<close>

theorem prod_consumer_doomed:
  assumes "(step ^^ k) start s"
  shows "k \<le> 160 \<and> (overflows s \<or> (\<exists>s'. step s s')) \<and> (\<exists>s'. step\<^sup>*\<^sup>* s s' \<and> overflows s')
    \<and> (in_mutex (tpc s t) \<longleftrightarrow> my_mutex s = Some t)
    \<and> (in_mutex (tpc s (Consumer n)) \<longrightarrow> run_thread (Consumer n) s = Some (Inl OutOfBounds))"
proof -
  have inv: "sinv s" using pc.inv_run [OF assms] .
  have "run_thread (Consumer n) s = Some (Inl OutOfBounds)" if "in_mutex (tpc s (Consumer n))"
  proof -
    have "before_write (tpc s (Consumer n))" using inv by (simp add: sinv_def pinv_def)
    then have "tpc s (Consumer n) = Write" using that by (cases "tpc s (Consumer n)") auto
    then show ?thesis using consumer_write_overflows inv by (simp add: sinv_def del: consume_step.simps)
  qed
  moreover have "in_mutex (tpc s t) \<longleftrightarrow> my_mutex s = Some t" using inv by (simp add: sinv_def pinv_def)
  ultimately show ?thesis
    using pc.run_bounded [OF assms] pc.not_stuck [OF inv] pc.can_finish [OF inv] by (auto simp: rest_start)
qed

theorem prod_consumer_doomed_witness:
  "0 \<le> (160 :: nat) \<and> (overflows start \<or> (\<exists>s'. step start s')) \<and> (\<exists>s'. step\<^sup>*\<^sup>* start s' \<and> overflows s')
    \<and> (in_mutex (tpc start (Consumer 0)) \<longleftrightarrow> my_mutex start = Some (Consumer 0))"
  using prod_consumer_doomed [of 0 start "Consumer 0" 0] by simp

end
