(* ===== verification/Small_Programs.thy ===== *)
theory Small_Programs
  imports C_Prelude
begin

text \<open>
  The single-file programs on strings and representations: \<open>reverse_string.c\<close> (reversal in place
  with an exchange by exclusive or), \<open>Interview_Questions/MS/last_ten_lines.c\<close> (the last lines of
  a text, searched from its end), \<open>endianchk.c\<close>, \<open>void_ptr_usage.c\<close> and \<open>helloworld.c\<close>.  Strings are arrays of
  bytes with their terminator; a pointer into a string is an index, and moving it below the array is
  an error like a dereference outside of it.
\<close>

section \<open>The reversal of a string\<close>

definition STR_LEN :: nat where "STR_LEN = 256"

text \<open>\<open>swap(&str[i], &str[j])\<close>, one assignment after the other.\<close>

definition xor_into :: "byte list \<Rightarrow> nat \<Rightarrow> nat \<Rightarrow> nat \<Rightarrow> byte list cres" where
  "xor_into a t i j = bindE (rd a i) (\<lambda>x. bindE (rd a j) (\<lambda>y. wr a t (x XOR y)))"

definition swap :: "byte list \<Rightarrow> nat \<Rightarrow> nat \<Rightarrow> byte list cres" where
  "swap a s c = bindE (xor_into a s s c) (\<lambda>a. bindE (xor_into a c s c) (\<lambda>a. xor_into a s s c))"

function reverse_loop :: "byte list \<Rightarrow> nat \<Rightarrow> nat \<Rightarrow> byte list cres" where
  "reverse_loop str len i =
     (if i < len div 2 then bindE (swap str i (len - i - 1)) (\<lambda>str. reverse_loop str len (i + 1))
      else Inr str)"
  by pat_completeness auto

termination
  by (relation "measure (\<lambda>(_, len, i). len div 2 - i)") auto

declare reverse_loop.simps [simp del]

text \<open>\<open>gets\<close> with the line that is read, without its end; \<open>None\<close> stands for the end of the
  input, which leaves the array as it is.\<close>

definition gets :: "byte list option \<Rightarrow> byte list \<Rightarrow> byte list cres" where
  "gets input str = (case input of None \<Rightarrow> Inr str | Some line \<Rightarrow> wr_block str 0 (line @ [0]))"

text \<open>\<open>main\<close>: whether \<open>malloc\<close> succeeds and the input are parameters, the result is the string
  that is printed.  \<open>malloc\<close> leaves any bytes in the block.\<close>

definition reverse_main :: "byte list option \<Rightarrow> byte list option \<Rightarrow> byte list cres" where
  "reverse_main block input =
     (case block of
        None \<Rightarrow> Inl NullDeref
      | Some str \<Rightarrow>
          bindE (wr_block str 0 (replicate STR_LEN 0)) (\<lambda>str.
          bindE (gets input str) (\<lambda>str.
          bindE (strlen_at str 0) (\<lambda>len.
          bindE (reverse_loop str len 0) (\<lambda>str.
          cstring_at str 0)))))"

section \<open>The last lines of a text\<close>

definition DELIM :: byte where "DELIM = 10"

text \<open>\<open>strrchr\<close>: the index of the last occurrence.\<close>

fun strrchr :: "byte list \<Rightarrow> byte \<Rightarrow> nat option" where
  "strrchr [] c = None"
| "strrchr (x # xs) c =
     (case strrchr xs c of Some k \<Rightarrow> Some (Suc k) | None \<Rightarrow> if x = c then Some 0 else None)"

text \<open>The loop, with the pointer as an index.\<close>

function back_loop :: "byte list \<Rightarrow> int \<Rightarrow> int \<Rightarrow> int cres" where
  "back_loop str n p =
     (if n \<ge> 0 then
        if p < 0 then Inl OutOfBounds else
        bindE (rd str (nat p)) (\<lambda>x.
        if x = DELIM then
          if p - 2 < 0 then Inl OutOfBounds else back_loop str (n - 1) (p - 2)
        else if p - 1 < 0 then Inl OutOfBounds else back_loop str n (p - 1))
      else Inr p)"
  by pat_completeness auto

termination
  by (relation "measure (\<lambda>(_, _, p). nat (p + 1))") auto

declare back_loop.simps [simp del]

text \<open>\<open>main\<close> for a text and the number that \<open>scanf\<close> reads (\<open>None\<close> when it reads none); the
  result is the string that is printed after the heading.\<close>

definition last_lines :: "byte list \<Rightarrow> int option \<Rightarrow> byte list cres" where
  "last_lines text input =
     (case input of
        None \<Rightarrow> Inl Uninit
      | Some n \<Rightarrow>
          let str = text @ [0] in
          (case strrchr text DELIM of
             None \<Rightarrow> Inl NullDeref
           | Some last_ptr \<Rightarrow>
               bindE (back_loop str n (int last_ptr)) (\<lambda>p. cstring_at str (nat (p + 2)))))"

definition bytes_of :: "string \<Rightarrow> byte list" where
  "bytes_of s = map (\<lambda>c. of_nat (of_char c)) s"

definition text_lines :: "byte list list" where
  "text_lines = map bytes_of [''This is a new line'', ''This is a part of docs that are of no use'',
     ''And then blah blah'', ''And then blah blah 2'', ''And then blah blah 3'',
     ''And then blah blah 4'', ''And then blah blah 5'']"

definition unlines :: "byte list list \<Rightarrow> byte list" where
  "unlines ls = concat (map (\<lambda>l. l @ [DELIM]) ls)"

definition last_lines_main :: "int option \<Rightarrow> byte list cres" where
  "last_lines_main input = last_lines (unlines text_lines) input"

section \<open>Byte order, untyped pointers, a constant line\<close>

datatype verdict = Little_endian | Big_endian | Only_God_Knows

text \<open>The byte at the lowest address of an \<open>int\<close> of four bytes.\<close>

definition endianchk_main :: "endian \<Rightarrow> verdict" where
  "endianchk_main en =
     (let c = hd (store32 en 0x0102) in
      if c = 0x02 then Little_endian else if c = 0x01 then Big_endian else Only_God_Knows)"

datatype pointee = Function "int \<Rightarrow> int \<Rightarrow> int cres" | Object int

definition sum2 :: "int \<Rightarrow> int \<Rightarrow> int cres" where
  "sum2 a b = add32 a b"

fun call :: "pointee \<Rightarrow> int \<Rightarrow> int \<Rightarrow> int cres" where
  "call (Function f) a b = f a b"
| "call (Object _) a b = Inl BadPointer"

fun deref :: "pointee \<Rightarrow> int cres" where
  "deref (Object v) = Inr v"
| "deref (Function _) = Inl BadPointer"

definition void_ptr_main :: "int list cres" where
  "void_ptr_main =
     (let ptr = Function sum2 in
      bindE (call ptr 2 3) (\<lambda>a.
      let ptr = Object 10 in
      bindE (deref ptr) (\<lambda>b. Inr [a, b])))"

definition helloworld_main :: "byte list" where
  "helloworld_main = bytes_of ''Hello world'' @ [10]"

section \<open>Lemmas on the reversal\<close>

lemma swap_distinct:
  assumes "i < length a" and "j < length a" and "i \<noteq> j"
  shows "swap a i j = Inr (a[i := a ! j, j := a ! i])"
proof -
  have "(x XOR y) XOR y = x" "(x XOR y) XOR x = y" for x y :: byte
    by (auto simp: bit_eq_iff bit_xor_iff)
  then have "swap a i j = Inr (a[i := a ! i XOR a ! j, j := a ! i, i := a ! j])"
    using assms by (simp add: swap_def xor_into_def rd_def wr_def)
  also have "a[i := a ! i XOR a ! j, j := a ! i, i := a ! j] = a[i := a ! j, j := a ! i]"
    using assms(3) by (simp add: list_update_swap)
  finally show ?thesis .
qed

text \<open>An exchange of a cell with itself would clear it; the loop stops before the middle.\<close>

lemma swap_same: "i < length a \<Longrightarrow> swap a i i = Inr (a[i := 0])"
  by (simp add: swap_def xor_into_def rd_def wr_def)

lemma reverse_loop_middle:
  assumes "length p = i" and "length q = i" and "len = length (p @ m @ q)"
  shows "reverse_loop (p @ m @ q @ r) len i = Inr (p @ rev m @ q @ r)"
  using assms
proof (induction "length m" arbitrary: p m q i rule: less_induct)
  case less
  show ?case
  proof (cases "length m < 2")
    case True
    then have "rev m = m" by (cases m) auto
    moreover have "\<not> i < len div 2" using less.prems True by simp
    ultimately show ?thesis by (subst reverse_loop.simps) simp
  next
    case False
    then obtain x m' y where m: "m = x # m' @ [y]"
      by (metis One_nat_def length_Cons length_append_singleton less_2_cases_iff list.size(3) neq_Nil_conv rev_exhaust)
    have i: "i < len div 2" "len - i - 1 = length (p @ x # m')" using less.prems m by simp_all
    let ?a = "p @ m @ q @ r"
    have "?a ! i = x" "?a ! (len - i - 1) = y" using less.prems i(2) m by (simp_all add: nth_append)
    then have "swap ?a i (len - i - 1) = Inr (?a[i := y, len - i - 1 := x])"
      using less.prems i m by (subst swap_distinct) simp_all
    also have "?a[i := y, len - i - 1 := x] = (p @ [y]) @ m' @ (x # q) @ r"
      using less.prems i(2) m by (simp add: list_update_append)
    finally have "reverse_loop ?a len i = reverse_loop ((p @ [y]) @ m' @ (x # q) @ r) len (i + 1)"
      using i(1) by (subst reverse_loop.simps) simp
    also have "\<dots> = Inr ((p @ [y]) @ rev m' @ (x # q) @ r)"
      using less.prems m by (intro less.hyps) simp_all
    finally show ?thesis using m by simp
  qed
qed

lemma reverse_loop_string: "reverse_loop (s @ r) (length s) 0 = Inr (rev s @ r)"
  using reverse_loop_middle [of "[]" 0 "[]" "length s" s r] by simp

lemma reverse_and_print:
  assumes "0 \<notin> set s"
  shows "bindE (strlen_at (s @ 0 # r) 0) (\<lambda>len. bindE (reverse_loop (s @ 0 # r) len 0) (\<lambda>str. cstring_at str 0))
    = Inr (rev s)"
  using assms by (simp add: reverse_loop_string)

lemma first_string:
  obtains r where "line @ 0 # z = takeWhile (\<lambda>b. b \<noteq> (0 :: byte)) line @ 0 # r"
proof (cases "dropWhile (\<lambda>b. b \<noteq> 0) line")
  case Nil
  then have "takeWhile (\<lambda>b. b \<noteq> 0) line = line" by (simp add: takeWhile_eq_all_conv dropWhile_eq_Nil_conv)
  then show ?thesis using that [of z] by metis
next
  case (Cons b r)
  then have "b = 0" by (simp add: dropWhile_eq_Cons_conv)
  have "line @ 0 # z = (takeWhile (\<lambda>b. b \<noteq> 0) line @ dropWhile (\<lambda>b. b \<noteq> 0) line) @ 0 # z" by simp
  then show ?thesis using that [of "r @ 0 # z"] Cons \<open>b = 0\<close> by (simp del: takeWhile_dropWhile_id)
qed

section \<open>Lemmas on the search from the end\<close>

lemma strrchr_append_none: "c \<notin> set ys \<Longrightarrow> strrchr ys c = None"
  by (induction ys) auto

lemma strrchr_last: "strrchr (xs @ [c]) c = Some (length xs)"
  by (induction xs) auto

text \<open>From inside a line back to the end of the line before it.\<close>

lemma back_step:
  assumes "0 \<le> n" and "rd str q = Inr x"
  shows "back_loop str n (int q) =
    (if x = DELIM then if q < 2 then Inl OutOfBounds else back_loop str (n - 1) (int q - 2)
     else if q = 0 then Inl OutOfBounds else back_loop str n (int q - 1))"
  using assms by (subst back_loop.simps) auto

lemma back_char:
  assumes "0 \<le> n" and "DELIM \<notin> set l" and "k < length l"
  shows "back_loop (A @ l @ r) n (int (length A + k)) =
    (if length A + k = 0 then Inl OutOfBounds else back_loop (A @ l @ r) n (int (length A + k) - 1))"
proof -
  have "(A @ l @ r) ! (length A + k) = l ! k" using assms(3) by (simp add: nth_append)
  moreover have "l ! k \<noteq> DELIM" using assms(2, 3) by (metis nth_mem)
  moreover have "rd (A @ l @ r) (length A + k) = Inr ((A @ l @ r) ! (length A + k))"
    using assms(3) by (simp add: rd_def)
  ultimately show ?thesis using back_step [OF assms(1), of "A @ l @ r" "length A + k" "l ! k"] by simp
qed

lemma back_to_start:
  assumes "0 \<le> n" and "DELIM \<notin> set l" and "k \<le> length l" and "A \<noteq> []"
  shows "back_loop (A @ l @ r) n (int (length A + k) - 1) = back_loop (A @ l @ r) n (int (length A) - 1)"
  using assms(3)
proof (induction k)
  case (Suc k)
  then show ?case using back_char [OF assms(1, 2), of k A r] assms(4) by simp
qed simp

lemma back_out:
  assumes "0 \<le> n" and "DELIM \<notin> set l" and "k \<le> length l"
  shows "back_loop (l @ r) n (int k - 1) = Inl OutOfBounds"
  using assms(3)
proof (induction k)
  case 0
  then show ?case using assms(1) by (subst back_loop.simps) simp
next
  case (Suc k)
  then show ?case using back_char [OF assms(1, 2), of k "[]" r] by (auto split: if_splits)
qed

text \<open>At the end of a line.\<close>

lemma back_delim:
  assumes "0 \<le> n" and "l \<noteq> []"
  shows "back_loop (A @ l @ DELIM # r) n (int (length A + length l)) =
    (if length A + length l < 2 then Inl OutOfBounds
     else back_loop (A @ l @ DELIM # r) (n - 1) (int (length A + (length l - 1)) - 1))"
proof -
  have "rd (A @ l @ DELIM # r) (length A + length l) = Inr DELIM"
    using rd_at_length [of "A @ l" DELIM r] by simp
  moreover have "int (length A + length l) - 2 = int (length A + (length l - 1)) - 1"
    using assms(2) by (cases l) simp_all
  ultimately show ?thesis using back_step [OF assms(1), of _ "length A + length l" DELIM] by metis
qed

lemma back_line:
  assumes "0 < n" and "l \<noteq> []" and "DELIM \<notin> set l" and "A \<noteq> []"
  shows "back_loop (A @ l @ DELIM # r) n (int (length A + length l))
    = back_loop (A @ l @ DELIM # r) (n - 1) (int (length A) - 1)"
proof -
  have "\<not> length A + length l < 2" using assms(2, 4) by (cases A; cases l) auto
  then show ?thesis
    using back_delim [of n l A r] back_to_start [of "n - 1" l "length l - 1" A "DELIM # r"] assms by simp
qed

lemma unlines_snoc [simp]: "unlines (ls @ [l]) = unlines ls @ l @ [DELIM]"
  by (simp add: unlines_def)

lemma unlines_Nil [simp]: "unlines [] = []"
  by (simp add: unlines_def)

lemma unlines_nonempty: "ls \<noteq> [] \<Longrightarrow> unlines ls \<noteq> []"
  by (cases ls) (simp_all add: unlines_def)

definition plain :: "byte list list \<Rightarrow> bool" where
  "plain ls \<longleftrightarrow> list_all (\<lambda>l. l \<noteq> [] \<and> DELIM \<notin> set l \<and> 0 \<notin> set l) ls"

lemma unlines_end: "int (length (unlines (ls @ [l]))) - 1 = int (length (unlines ls) + length l)"
  by simp

lemma back_stop: "n < 0 \<Longrightarrow> back_loop str n p = Inr p"
  by (subst back_loop.simps) simp

lemma back_lines:
  assumes "plain ls" and "2 \<le> length (hd ls)" and "n < length ls"
  shows "back_loop (unlines ls @ r) (int n) (int (length (unlines ls)) - 1)
    = Inr (int (length (unlines (take (length ls - n) ls))) - 3)"
  using assms
proof (induction n arbitrary: ls r)
  case 0
  then obtain ls' l where ls: "ls = ls' @ [l]" by (cases ls rule: rev_exhaust) auto
  then have l: "l \<noteq> []" using 0 by (simp add: plain_def)
  have two: "\<not> length (unlines ls') + length l < 2"
  proof (cases "ls' = []")
    case True
    then show ?thesis using 0 ls by simp
  next
    case False
    then show ?thesis using unlines_nonempty [OF False] l by (cases "unlines ls'"; cases l) auto
  qed
  have "int (length (unlines ls') + (length l - 1)) - 1 = int (length (unlines ls)) - 3"
    using l ls by (cases l) simp_all
  moreover have "back_loop (unlines ls' @ l @ DELIM # r) 0 (int (length (unlines ls') + length l))
    = Inr (int (length (unlines ls') + (length l - 1)) - 1)"
    using two back_delim [of 0 l "unlines ls'" r] l by (simp add: back_stop)
  ultimately show ?case by (simp add: ls)
next
  case (Suc n)
  then obtain ls' l where ls: "ls = ls' @ [l]" by (cases ls rule: rev_exhaust) auto
  with Suc.prems have ls': "plain ls'" "2 \<le> length (hd ls')" "n < length ls'" "ls' \<noteq> []"
    by (auto simp: plain_def hd_append split: if_splits)
  have "back_loop (unlines ls @ r) (int (Suc n)) (int (length (unlines ls)) - 1)
    = back_loop (unlines ls' @ l @ DELIM # r) (int n) (int (length (unlines ls')) - 1)"
    using back_line [of "int (Suc n)" l "unlines ls'" r] Suc.prems ls unlines_nonempty [OF ls'(4)]
    by (simp add: plain_def)
  also have "\<dots> = Inr (int (length (unlines (take (length ls' - n) ls'))) - 3)"
    using Suc.IH [OF ls'(1-3), of "l @ DELIM # r"] by simp
  finally show ?case using ls by simp
qed

lemma back_lines_out:
  assumes "plain ls" and "int (length ls) \<le> n"
  shows "back_loop (unlines ls @ r) n (int (length (unlines ls)) - 1) = Inl OutOfBounds"
  using assms
proof (induction ls arbitrary: n r rule: rev_induct)
  case Nil
  then show ?case by (subst back_loop.simps) simp
next
  case (snoc l ls)
  then have l: "l \<noteq> []" "DELIM \<notin> set l" "plain ls" "int (length ls) \<le> n - 1" "0 < n"
    by (auto simp: plain_def)
  show ?case
  proof (cases "ls = []")
    case True
    then show ?thesis
      using back_delim [of n l "[]" r] back_out [of "n - 1" l "length l - 1" "DELIM # r"] l
      by (simp add: unlines_def split: if_splits)
  next
    case False
    have "back_loop (unlines (ls @ [l]) @ r) n (int (length (unlines (ls @ [l]))) - 1)
      = back_loop (unlines ls @ l @ DELIM # r) (n - 1) (int (length (unlines ls)) - 1)"
      using back_line [OF l(5, 1, 2) unlines_nonempty [OF False], of r] by simp
    also have "\<dots> = Inl OutOfBounds" using snoc.IH [OF l(3, 4), of "l @ DELIM # r"] by simp
    finally show ?thesis .
  qed
qed

lemma unlines_append: "unlines (xs @ ys) = unlines xs @ unlines ys"
  by (simp add: unlines_def)

lemma unlines_nonzero: "plain ls \<Longrightarrow> 0 \<notin> set (unlines ls)"
  by (auto simp: plain_def unlines_def list_all_iff DELIM_def)

text \<open>The string from the end of a line on.\<close>

lemma string_from_line_end:
  assumes "plain ls" and "0 < k" and "k \<le> length ls"
  shows "cstring_at (unlines ls @ [0]) (length (unlines (take k ls)) - 1) = Inr (DELIM # unlines (drop k ls))"
proof -
  obtain A where A: "unlines (take k ls) = A @ [DELIM]"
  proof -
    have "take k ls \<noteq> []" using assms(2, 3) by auto
    then obtain xs x where "take k ls = xs @ [x]" by (cases "take k ls" rule: rev_exhaust) auto
    then show ?thesis using that [of "unlines xs @ x"] by simp
  qed
  have "unlines ls = A @ DELIM # unlines (drop k ls)"
    using unlines_append [of "take k ls" "drop k ls"] A by simp
  moreover from this have "0 \<notin> set (DELIM # unlines (drop k ls))" using unlines_nonzero [OF assms(1)] by auto
  ultimately show ?thesis
    using A cstring_at_length [of "DELIM # unlines (drop k ls)" A "[]"] by simp
qed

lemma strrchr_unlines: "ls \<noteq> [] \<Longrightarrow> strrchr (unlines ls) DELIM = Some (length (unlines ls) - 1)"
  using strrchr_last [of "unlines (butlast ls) @ last ls" DELIM] unlines_snoc [of "butlast ls" "last ls"] by simp

lemma last_lines_in:
  assumes "plain ls" and "2 \<le> length (hd ls)" and "m < length ls"
  shows "last_lines (unlines ls) (Some (int m)) = Inr (DELIM # unlines (drop (length ls - m) ls))"
proof -
  have ne: "ls \<noteq> []" using assms(3) by auto
  let ?k = "length ls - m"
  have "take ?k ls \<noteq> []" using assms(3) by auto
  then have pos: "0 < length (unlines (take ?k ls))" using unlines_nonempty by blast
  have "int (length (unlines ls) - 1) = int (length (unlines ls)) - 1"
    using unlines_nonempty [OF ne] by (cases "unlines ls") simp_all
  then have "back_loop (unlines ls @ [0]) (int m) (int (length (unlines ls) - 1))
      = Inr (int (length (unlines (take ?k ls))) - 3)"
    using back_lines [OF assms, of "[0]"] by simp
  moreover have "nat (int (length (unlines (take ?k ls))) - 3 + 2) = length (unlines (take ?k ls)) - 1"
    using pos by linarith
  ultimately show ?thesis
    using string_from_line_end [OF assms(1), of ?k] strrchr_unlines [OF ne] assms(3)
    by (simp add: last_lines_def Let_def)
qed

lemma last_lines_outside:
  assumes "plain ls" and "ls \<noteq> []" and "n < 0 \<or> int (length ls) \<le> n"
  shows "last_lines (unlines ls) (Some n) = Inl OutOfBounds"
proof -
  have len: "int (length (unlines ls) - 1) = int (length (unlines ls)) - 1"
    using unlines_nonempty [OF assms(2)] by (cases "unlines ls") simp_all
  show ?thesis
  proof (cases "n < 0")
    case True
    have "nat (int (length (unlines ls)) - 1 + 2) = length (unlines ls @ [0])" by simp
    moreover have "cstring_at a (length a) = Inl OutOfBounds" for a by (simp add: cstring_at_def strlen_at_def)
    ultimately show ?thesis
      using True strrchr_unlines [OF assms(2)] len by (simp add: last_lines_def Let_def back_stop del: length_append)
  next
    case False
    then show ?thesis
      using assms back_lines_out [OF assms(1), of n "[0]"] strrchr_unlines [OF assms(2)] len
      by (simp add: last_lines_def Let_def)
  qed
qed

lemma text_lines_plain: "plain text_lines" "2 \<le> length (hd text_lines)" "length text_lines = 7"
  by code_simp+

section \<open>Properties\<close>

text \<open>C39. \<open>reverse_string.c\<close> prints the reversed line (up to a zero byte in it) when the line has
  fewer than 256 bytes; a longer line overflows the buffer in \<open>gets\<close>.\<close>

theorem reverse_main_prints:
  assumes "length block = STR_LEN"
  shows "reverse_main (Some block) (Some line) =
    (if length line < STR_LEN then Inr (rev (takeWhile (\<lambda>b. b \<noteq> 0) line)) else Inl OutOfBounds)"
proof (cases "length line < STR_LEN")
  case True
  then obtain k where k: "STR_LEN = length line + Suc k" by (metis less_iff_Suc_add add_Suc_right)
  then have "replicate STR_LEN 0 = replicate (length line) 0 @ 0 # replicate k (0 :: byte)"
    by (simp only: k replicate_add replicate_Suc)
  then have "wr_block (replicate STR_LEN 0) 0 (line @ [0]) = Inr (line @ 0 # replicate k 0)"
    using wr_block_0 [of "replicate (length line) 0 @ [0]" "line @ [0]" "replicate k 0"] by simp
  moreover obtain r where "line @ 0 # replicate k 0 = takeWhile (\<lambda>b. b \<noteq> 0) line @ 0 # r"
    by (rule first_string)
  moreover have "0 \<notin> set (takeWhile (\<lambda>b. b \<noteq> 0) line)" by (auto dest: set_takeWhileD)
  ultimately show ?thesis
    using True assms reverse_and_print [of "takeWhile (\<lambda>b. b \<noteq> 0) line" r]
    by (simp add: reverse_main_def gets_def wr_block_def)
next
  case False
  with assms show ?thesis by (simp add: reverse_main_def gets_def wr_block_def)
qed

theorem reverse_main_prints_witness:
  "reverse_main (Some (replicate 256 7)) (Some [97, 98, 99]) = Inr [99, 98, 97]
    \<and> reverse_main (Some (replicate 256 7)) (Some (replicate 256 97)) = Inl OutOfBounds"
  using reverse_main_prints [of "replicate 256 7" "[97, 98, 99]"]
    reverse_main_prints [of "replicate 256 7" "replicate 256 97"] by (simp add: STR_LEN_def)

text \<open>C40. \<open>last_ten_lines.c\<close> prints, after an empty line, exactly the last \<open>n\<close> lines of a text
  of non-empty lines (the first of at least two bytes) when \<open>n\<close> is at least 0 and less than the
  number of lines; for every other \<open>n\<close>, the whole text included, it leaves the array.\<close>

theorem last_lines_prints:
  assumes "plain ls" and "ls \<noteq> []" and "2 \<le> length (hd ls)"
  shows "last_lines (unlines ls) (Some n) =
    (if 0 \<le> n \<and> n < int (length ls) then Inr (DELIM # unlines (drop (length ls - nat n) ls))
     else Inl OutOfBounds)"
  using last_lines_in [OF assms(1, 3), of "nat n"] last_lines_outside [OF assms(1, 2), of n] by auto

theorem last_lines_prints_witness:
  "last_lines_main (Some 2) = Inr (DELIM # unlines (drop 5 text_lines))
    \<and> last_lines_main (Some 7) = Inl OutOfBounds \<and> last_lines_main (Some (-1)) = Inl OutOfBounds"
proof -
  have ne: "text_lines \<noteq> []" using text_lines_plain(3) by auto
  note all = last_lines_prints [OF text_lines_plain(1) ne text_lines_plain(2)]
  show ?thesis using all [of 2] all [of 7] all [of "-1"] by (simp add: last_lines_main_def text_lines_plain(3))
qed

text \<open>\<open>endianchk.c\<close> recognises a little-endian machine, but never a big-endian one: there the
  first byte of the four-byte value \<open>0x0102\<close> is 0.\<close>

theorem endianchk_verdicts:
  "endianchk_main LittleE = Little_endian \<and> endianchk_main BigE = Only_God_Knows"
  by code_simp

text \<open>The function and the object behind the untyped pointer are used at their types.\<close>

lemma void_ptr_main_prints: "void_ptr_main = Inr [5, 10]"
  by (simp add: void_ptr_main_def sum2_def add32_def)

end
