(* ===== verification/Spec2Isabelle.thy ===== *)
theory Spec2Isabelle
  imports Dns_Server Icmp_Ping Ping6 Linked_Lists Add_Lists Search_Trees Tree_Programs
    Alternate_Print Mutex_Alt_Print Sem_Problem Sem_Usage Producer_Consumer Small_Programs
begin

text \<open>
  Verification of a collection of C programs: a DNS forwarder, three ping programs, linked
  lists, binary trees, and pthread examples.  The programs do not call each other; what they
  share is C, and the theories share the vocabulary for it.

  \<^bold>\<open>How C is modelled.\<close>  Undefined behaviour (null and dangling dereferences, accesses outside an
  array, use of indeterminate values, signed overflow, misuse of a mutex, data races) is an error value of the sum type
  \<open>'a cres\<close>, so a result \<open>Inr x\<close> says that the run is free of it.  A loop or recursion that
  need not end on every input is a partial function into an option: \<open>None\<close> is a run that does
  not return, and a theorem that the code returns states \<open>Some\<close>.  Loops with an evident bound
  are total functions with a termination proof.  The operating system, \<open>malloc\<close>, libevent and
  the resolver are arguments of the definitions; what is assumed of them is written in each
  theorem (for \<open>malloc\<close> of the heap programs: a new block does not overlap a live one, it may fail
  at any time; for the DNS server: it does not fail (\<open>malloc_works\<close>), and where a theorem says so a
  block has no byte more than asked for (\<open>malloc_exact\<close>)).
  Bytes, unsigned integers and checksums are words of their width; host integers are read and
  written in the byte order of the host.

  \<^item> \<open>C_Prelude\<close>: errors and their sequencing, checked arrays, C strings, byte order.
  \<^item> \<open>Dns_Names\<close>, \<open>Dns_Utils\<close>, \<open>Dns_Server\<close> (\<open>sample_dns_server\<close>): names in wire and dotted
    form and their round trips; verification of a datagram, printing of headers, decompression of
    names (\<open>uncompress_name\<close>), forwarding of a query and parsing of the response; the libevent
    callback \<open>on_recv\<close> as a whole and \<open>main\<close>.  The theorems give the complete run for
    well-formed queries and responses without A records, the run when the upstream server does not
    answer, and the inputs that overflow a buffer (a response with an A record is one) or make the
    server loop.
  \<^item> \<open>Icmp_Checksum\<close>, \<open>Icmp_Ping\<close>, \<open>Ping6\<close> (\<open>ICMP_ping\<close>): the locale \<open>internet_checksum\<close> is
    interpreted for both checksum routines; on it rest the validity of the packets.  \<open>Icmp_Ping\<close>
    models \<open>myping.c\<close> and \<open>myping_synchronous.c\<close> from \<open>main\<close> down, with their read of eight
    bytes at the four of an IPv4 address; \<open>Ping6\<close> models
    \<open>ping6_ll.c\<close>: pseudo-header, frame, send and receive loops.
  \<^item> \<open>C_Heap\<close>, \<open>Linked_Lists\<close>, \<open>Add_Lists\<close> (\<open>data_struct/linked_list\<close>, \<open>PS_3.c\<close>,
    \<open>leetcode/addList.c\<close>): a heap as a map from addresses to nodes, lists as paths in it; the
    locale \<open>list_insert\<close> is the contract of an appending insertion, interpreted for the insertion
    of each program.  Deletion, bubble sort and digit addition are proved with their effect on the
    whole heap.
  \<^item> \<open>Tree_Heap\<close>, \<open>Search_Trees\<close>, \<open>Tree_Programs\<close> (\<open>bst.c\<close>, \<open>bst_insert_search.c\<close>,
    \<open>bst_mirror.c\<close>, \<open>PS_4.c\<close>): trees in the heap, insertion refining a function on trees of
    values, mirroring, largest path sum.  The locales \<open>node_queue\<close> and \<open>tested_queue\<close> are the
    contract of a queue of pointers, interpreted for the three queues of the programs; inside them
    the level order loops are proved to print the levels.  The bounds 101, 10 and 10 on the number
    of nodes are the capacities of the queues.
  \<^item> \<open>Threads\<close>, \<open>Alternate_Print\<close>, \<open>Mutex_Alt_Print\<close>, \<open>Sem_Problem\<close>, \<open>Sem_Usage\<close>,
    \<open>Producer_Consumer\<close> (\<open>mutex_sempaphores\<close>, \<open>pthread\<close>): threads as step functions with one
    step per library call, any interleaving, spurious wake-ups as extra steps where the theorem says
    so.  The locales \<open>thread_system\<close>, \<open>recurring_system\<close>, \<open>terminating_system\<close> and
    \<open>disturbed_system\<close> hold what is proved of invariants, rounds, ends and the effect of spurious
    wake-ups on them, \<open>explored_system\<close> what following all runs shows; \<open>joined_program\<close> is what the
    joins of \<open>main\<close> guarantee.  Each program interprets them.  The alternating threads exclude each other, print
    increasing values and \<open>main\<close> returns within 826 steps and four more for each spurious wake-up; the
    threads of \<open>mutex_alt_print.c\<close> cannot avoid a misuse of the mutex or a data race, which comes after
    at most 21 steps; the six
    producers of \<open>sem_problem.c\<close> form a barrier that makes a round in at most 47 steps and that
    spurious wake-ups break; the count of \<open>sem_usage.c\<close> runs until it overflows; the consumers
    of \<open>prod_consumer.c\<close> write out of bounds within 160 steps.  The numbers of steps are the
    values of the measures in the initial states.
  \<^item> \<open>Small_Programs\<close> (\<open>reverse_string.c\<close>, \<open>last_ten_lines.c\<close>, \<open>endianchk.c\<close>,
    \<open>void_ptr_usage.c\<close>, \<open>helloworld.c\<close>): reversal in place by exclusive or, the last lines of a text with the
    exact range of inputs for which the pointer stays in the string, and the two tests.

  \<^bold>\<open>Not modelled\<close>: the text of messages that carry no data; the measured round-trip times; signals that interrupt a call (the programs install
  no handler); memory orders weaker than sequential consistency, which only a program with a data
  race can see: the one that has them, \<open>mutex_alt_print.c\<close>, is followed up to its first race.
\<close>

end
